(* ===== verification/Prelude.thy ===== *)
theory Prelude
  imports Main "HOL-Library.Word" "HOL-Library.Signed_Division"
begin

text \<open>
  Shared vocabulary of the development: the machine types the C++ sources use, C++
  exceptions as values, little-endian byte images of integers, the wrap-around of signed
  64-bit arithmetic, and generic lemmas on lists and words that the component theories use.
\<close>

unbundle bit_operations_syntax

named_theorems target_simps \<open>reading of the target arithmetic over the naturals\<close>
named_theorems wrap_simps \<open>signed wrap-around that does not happen in range\<close>

section \<open>Machine types\<close>

type_synonym byte = "8 word"
type_synonym u32 = "32 word"
type_synonym u64 = "64 word"
type_synonym uint160 = "160 word"
type_synonym uint256 = "256 word"
type_synonym valtype = "byte list"

section \<open>C++ exceptions as values\<close>

text \<open>
  A C++ function that may throw returns a sum: \<open>Inl\<close> of the exception, or \<open>Inr\<close> of the
  result. \<open>Assert_failed\<close> stands for a failing \<open>assert\<close>, which ends the process.
\<close>

datatype exn = Bignum_error | Runtime_error | Ios_failure | Assert_failed

type_synonym 'a res = "exn + 'a"

definition rbind :: "'a res \<Rightarrow> ('a \<Rightarrow> 'b res) \<Rightarrow> 'b res" where
  "rbind m f = (case m of Inl e \<Rightarrow> Inl e | Inr x \<Rightarrow> f x)"

lemma rbind_simps [simp]:
  "rbind (Inl e) f = Inl e"
  "rbind (Inr x) f = f x"
  by (simp_all add: rbind_def)

lemma rbind_Inr_iff: "rbind m f = Inr y \<longleftrightarrow> (\<exists>x. m = Inr x \<and> f x = Inr y)"
  by (cases m) auto

section \<open>Signed 64-bit arithmetic\<close>

text \<open>Two's complement wrap-around of a signed 64-bit result.\<close>

definition wrap64 :: "int \<Rightarrow> int" where
  "wrap64 x = (x + 2 ^ 63) mod 2 ^ 64 - 2 ^ 63"

lemma wrap64_id [wrap_simps]: "- (2 ^ 63) \<le> x \<Longrightarrow> x < 2 ^ 63 \<Longrightarrow> wrap64 x = x"
  by (simp add: wrap64_def)

lemma wrap64_range: "- (2 ^ 63) \<le> wrap64 x" "wrap64 x < 2 ^ 63"
proof -
  have "0 \<le> (x + 2 ^ 63) mod 2 ^ 64" "(x + 2 ^ 63) mod 2 ^ 64 < (2 ^ 64 :: int)"
    by (rule pos_mod_sign pos_mod_bound; simp)+
  then show "- (2 ^ 63) \<le> wrap64 x" "wrap64 x < 2 ^ 63"
    by (simp_all add: wrap64_def)
qed

section \<open>Little-endian byte images\<close>

text \<open>
  \<open>le_bytes k x\<close> is the memory image of the low \<open>k\<close> bytes of \<open>x\<close> on the little-endian
  target (x86-64) the Makefile builds for; \<open>le_val\<close> reads it back. They model
  \<open>WRITEDATA\<close>, \<open>READDATA\<close>, \<open>memcpy\<close> from and into integers, and \<open>FLATDATA\<close>.
\<close>

fun le_bytes :: "nat \<Rightarrow> nat \<Rightarrow> byte list" where
  "le_bytes 0 x = []"
| "le_bytes (Suc k) x = of_nat x # le_bytes k (x div 256)"

fun le_val :: "byte list \<Rightarrow> nat" where
  "le_val [] = 0"
| "le_val (b # bs) = unat b + 256 * le_val bs"

lemma unat_byte_less [simp]: "unat (b :: byte) < 256"
proof -
  have "unat b < 2 ^ LENGTH(8)" by (rule unsigned_less)
  then show ?thesis by simp
qed

lemma unat_of_nat_byte [simp]: "unat (of_nat x :: byte) = x mod 256"
  by (simp add: unat_of_nat)

lemma length_le_bytes [simp]: "length (le_bytes k x) = k"
  by (induction k arbitrary: x) auto

lemma le_val_less: "le_val bs < 256 ^ length bs"
proof (induction bs)
  case Nil
  show ?case by simp
next
  case (Cons b bs)
  have "unat b + 256 * le_val bs < 256 + 256 * le_val bs"
    by (rule add_strict_right_mono) simp
  also from Cons.IH have "256 + 256 * le_val bs \<le> 256 * 256 ^ length bs"
    by simp
  finally have "unat b + 256 * le_val bs < 256 * 256 ^ length bs" .
  then show ?case by simp
qed

lemma le_val_le_bytes [simp]: "le_val (le_bytes k x) = x mod 256 ^ k"
proof (induction k arbitrary: x)
  case 0
  show ?case by simp
next
  case (Suc k)
  then show ?case by (simp add: mod_mult2_eq)
qed

lemma le_bytes_le_val [simp]: "le_bytes (length bs) (le_val bs) = bs"
proof (induction bs)
  case Nil
  show ?case by simp
next
  case (Cons b bs)
  have "(of_nat (unat b + 256 * le_val bs) :: byte) = b"
    by (simp only: word_unat_eq_iff unat_of_nat_byte) simp
  with Cons.IH show ?case by simp
qed

lemma le_bytes_inj: "le_bytes k x = le_bytes k y \<Longrightarrow> x mod 256 ^ k = y mod 256 ^ k"
  by (metis le_val_le_bytes)

lemma le_val_inj: "length xs = length ys \<Longrightarrow> le_val xs = le_val ys \<Longrightarrow> xs = ys"
  by (metis le_bytes_le_val)

lemma le_val_append: "le_val (xs @ ys) = le_val xs + 256 ^ length xs * le_val ys"
  by (induction xs) (auto simp: algebra_simps)

section \<open>Truncating division\<close>

lemma sdiv_nonneg: "0 \<le> a \<Longrightarrow> 0 < b \<Longrightarrow> (a::int) sdiv b = a div b"
  by (cases "a = 0") (simp_all add: signed_divide_int_def)

lemma sdiv_nonpos: "0 \<le> a \<Longrightarrow> b < 0 \<Longrightarrow> (a::int) sdiv b \<le> 0"
  by (cases "a = 0") (simp_all add: signed_divide_int_def pos_imp_zdiv_nonneg_iff)

lemma smod_nonneg: "0 \<le> a \<Longrightarrow> 0 < b \<Longrightarrow> (a::int) smod b = a mod b"
  by (cases "a = 0") (simp_all add: signed_modulo_int_def)

section \<open>Bits of words\<close>

lemma unat_less_len: "unat (x :: 'a::len word) < 2 ^ LENGTH('a)"
  by (rule unsigned_less)

lemma unat_and_mask: "unat (x AND mask n) = unat x mod 2 ^ n"
  by (metis take_bit_eq_mask take_bit_eq_mod unsigned_take_bit_eq)

lemma unat_and_not_mask: "unat (x AND NOT (mask n)) = unat x div 2 ^ n * 2 ^ n"
proof -
  have dis: "(x AND mask n) AND (x AND NOT (mask n)) = 0"
    by (rule bit_eqI) (auto simp: bit_simps)
  have "(x AND mask n) OR (x AND NOT (mask n)) = x"
    by (rule bit_eqI) (auto simp: bit_simps)
  with dis have "x AND NOT (mask n) = x - (x AND mask n)"
    by (metis add_diff_cancel_left' disjunctive_add_eq_or)
  moreover have "x AND mask n \<le> x" by (rule word_and_le2)
  ultimately have "unat (x AND NOT (mask n)) = unat x - unat x mod 2 ^ n"
    by (simp add: unat_sub unat_and_mask)
  then show ?thesis by (simp add: minus_mod_eq_div_mult)
qed

lemma unat_or_low:
  assumes "unat y < 2 ^ n" "2 ^ n dvd unat x"
  shows "unat (x OR y :: 'a::len word) = unat x + unat y"
proof -
  have "x AND mask n = 0" using assms(2) by (simp add: and_mask_dvd_nat)
  moreover have "y AND mask n = y"
    using assms(1) by (simp add: unat_and_mask word_unat_eq_iff)
  ultimately have "x AND y = 0"
    by (metis and.left_commute and_zero_eq)
  then have "x + y = x OR y" by (rule disjunctive_add_eq_or)
  moreover have "unat x + unat y < 2 ^ LENGTH('a)"
  proof (cases "n \<le> LENGTH('a)")
    case True
    obtain k where k: "unat x = 2 ^ n * k" using assms(2) by blast
    have "2 ^ n * k < 2 ^ n * 2 ^ (LENGTH('a) - n)"
      using unat_less_len [of x] k True by (simp flip: power_add)
    then have "k + 1 \<le> 2 ^ (LENGTH('a) - n)" by simp
    then have "2 ^ n * (k + 1) \<le> 2 ^ n * 2 ^ (LENGTH('a) - n)" by (rule mult_le_mono2)
    then show ?thesis using k assms(1) True by (simp flip: power_add)
  next
    case False
    then have "(2::nat) ^ LENGTH('a) < 2 ^ n" by simp
    with unat_less_len [of x] have "unat x < 2 ^ n" by linarith
    with assms(2) have "unat x = 0" by (auto dest: nat_dvd_not_less)
    then show ?thesis by (simp add: unat_less_len)
  qed
  ultimately show ?thesis by (metis unat_add_lem)
qed

lemma byte_and_7f: "unat (b AND 0x7F :: byte) = unat b mod 128"
  using unat_and_mask [of b 7] by (simp add: mask_eq_exp_minus_1)

lemma byte_bit7: "bit (b :: byte) 7 \<longleftrightarrow> 128 \<le> unat b"
proof -
  have "bit b 7 = bit (unat b) 7"
    by (simp add: bit_unsigned_iff possible_bit_def)
  then have "bit b 7 = odd (unat b div 128)" by (simp add: bit_iff_odd)
  moreover have "unat b div 128 < 2"
    by (rule less_mult_imp_div_less) simp
  ultimately show ?thesis
    by (auto simp: less_2_cases_iff div_eq_0_iff)
qed

lemma byte_and_80: "(b AND 0x80 :: byte) = 0 \<longleftrightarrow> unat b < 128"
  using and_exp_eq_0_iff_not_bit [of b 7] byte_bit7 [of b] by auto

lemma byte_or_80: "unat b < 128 \<Longrightarrow> unat (b OR 0x80 :: byte) = unat b + 128"
proof -
  assume b: "unat b < 128"
  then have "b AND 0x80 = 0" by (simp add: byte_and_80)
  then have "b OR 0x80 = b + 0x80" by (simp add: disjunctive_add_eq_or)
  with b show ?thesis by (simp add: unat_word_ariths)
qed

section \<open>Lists\<close>

lemma list_le1_cases: "(length xs < Suc 0) = (xs = [])"
  by (cases xs) auto

lemma take_drop_split: "n \<le> length xs \<Longrightarrow> xs = take n xs @ drop n xs"
  by simp

lemma length_filter_take_le: "length (filter P (take n xs)) \<le> length (filter P xs)"
proof -
  have "length (filter P xs) = length (filter P (take n xs)) + length (filter P (drop n xs))"
    by (metis append_take_drop_id filter_append length_append)
  then show ?thesis by simp
qed

lemma bit_or_push:
  fixes c :: byte
  assumes "p < 8"
  shows "bit (c OR push_bit i 1) p \<longleftrightarrow> bit c p \<or> p = i"
  using assms by (cases "p = i") (simp_all add: bit_simps)

lemma bit_or_fold:
  fixes c :: byte
  assumes "p < 8"
  shows "bit (fold (\<lambda>i ch. if P i then ch OR push_bit i 1 else ch) is c) p \<longleftrightarrow> bit c p \<or> (p \<in> set is \<and> P p)"
proof (induction "is" arbitrary: c)
  case (Cons i "is")
  show ?case
  proof (cases "P i")
    case True
    then show ?thesis using Cons.IH [of "c OR push_bit i 1"] bit_or_push [OF assms, of c i] by auto
  next
    case False
    then show ?thesis using Cons.IH [of c] by auto
  qed
qed simp

end
