(* ===== verification/BigNum.thy ===== *)
theory BigNum
  imports Prelude
begin

text \<open>
  \<^verbatim>\<open>src/src/bignum.h\<close>: the class \<^verbatim>\<open>CBigNum\<close>, a wrapper of OpenSSL's
  \<^verbatim>\<open>BIGNUM\<close>.  A \<^verbatim>\<open>BIGNUM\<close> is an integer of arbitrary size, so a \<^verbatim>\<open>CBigNum\<close>
  value is an \<^typ>\<open>int\<close> and \<^verbatim>\<open>BN_add\<close>, \<^verbatim>\<open>BN_mul\<close>, \<^verbatim>\<open>BN_cmp\<close> and their like are the
  integer operations; \<^verbatim>\<open>BN_div\<close> truncates towards zero and fails on a zero divisor.
  The conversions of the class go through the byte format of \<^verbatim>\<open>BN_bn2mpi\<close> and
  \<^verbatim>\<open>BN_mpi2bn\<close>.  These two library functions are parameters of the byte-level
  definitions (record \<^verbatim>\<open>bn_mpi\<close>), and their documented format is the hypothesis
  \<^verbatim>\<open>mpi_laws\<close>.  The second half of the theory proves that the byte-level conversions
  compute the integers that the rest of the development uses.
\<close>

section \<open>Arithmetic\<close>

definition bn_div :: "int \<Rightarrow> int \<Rightarrow> int res" where
  "bn_div a b = (if b = 0 then Inl Bignum_error else Inr (a sdiv b))"

definition bn_mod :: "int \<Rightarrow> int \<Rightarrow> int res" where
  "bn_mod a b = (if b = 0 then Inl Bignum_error else Inr (a smod b))"

definition bn_lshift :: "int \<Rightarrow> nat \<Rightarrow> int" where
  "bn_lshift a shift = a * 2 ^ shift"

definition bn_rshift :: "int \<Rightarrow> nat \<Rightarrow> int" where
  "bn_rshift a shift = (let p = bn_lshift 1 shift in if p > a then 0 else a div 2 ^ shift)"

definition bn_neg :: "int \<Rightarrow> int" where
  "bn_neg a = - a"

section \<open>Reading machine integers\<close>

text \<open>\<^verbatim>\<open>BN_get_word\<close> returns the magnitude, or all ones when it does not fit a word.\<close>

definition bn_get_word :: "int \<Rightarrow> nat" where
  "bn_get_word n = (if \<bar>n\<bar> < 2 ^ 64 then nat \<bar>n\<bar> else 2 ^ 64 - 1)"

definition bn_getulong :: "int \<Rightarrow> nat" where
  "bn_getulong n = bn_get_word n"

definition bn_getuint :: "int \<Rightarrow> u32" where
  "bn_getuint n = of_nat (bn_get_word n)"

definition bn_getint :: "int \<Rightarrow> int" where
  "bn_getint n = (let w = bn_get_word n in
     if \<not> n < 0 then (if w > 2147483647 then 2147483647 else int w)
     else (if w > 2147483647 then -2147483648 else - int w))"

section \<open>The MPI byte format\<close>

record bn_mpi =
  BN_bn2mpi :: "int \<Rightarrow> byte list"
  BN_mpi2bn :: "byte list \<Rightarrow> int"

text \<open>
  The documented format of the body, after a four byte big endian length: the magnitude
  in big endian, the sign in the top bit of the first byte, with an extra first byte when
  that bit is taken by the magnitude.
\<close>

definition be_val :: "byte list \<Rightarrow> nat" where
  "be_val bs = le_val (rev bs)"

fun mag_bytes :: "nat \<Rightarrow> byte list" where
  "mag_bytes n = (if n = 0 then [] else of_nat n # mag_bytes (n div 256))"

declare mag_bytes.simps [simp del]

fun mpi_decode :: "byte list \<Rightarrow> int" where
  "mpi_decode [] = 0"
| "mpi_decode (b # bs) =
     (let m = int (be_val ((b AND 0x7F) # bs)) in if b AND 0x80 \<noteq> 0 then - m else m)"

definition mpi_encode :: "int \<Rightarrow> byte list" where
  "mpi_encode n = (case rev (mag_bytes (nat \<bar>n\<bar>)) of
     [] \<Rightarrow> []
   | b # bs \<Rightarrow>
       if b AND 0x80 \<noteq> 0 then (if n < 0 then 0x80 else 0) # b # bs
       else if n < 0 then (b OR 0x80) # bs
       else b # bs)"

definition be_size :: "nat \<Rightarrow> byte list" where
  "be_size nSize = [of_nat (nSize div 2 ^ 24), of_nat (nSize div 2 ^ 16), of_nat (nSize div 2 ^ 8), of_nat nSize]"

definition mpi_laws :: "bn_mpi \<Rightarrow> bool" where
  "mpi_laws M \<longleftrightarrow>
     (\<forall>body. length body < 2 ^ 31 \<longrightarrow>
        BN_mpi2bn M (be_size (length body) @ body) = mpi_decode body) \<and>
     (\<forall>n. length (mpi_encode n) < 2 ^ 31 \<longrightarrow>
        BN_bn2mpi M n = be_size (length (mpi_encode n)) @ mpi_encode n)"

text \<open>A reference implementation of the two functions, for concrete runs.\<close>

definition ref_mpi :: bn_mpi where
  "ref_mpi = \<lparr>BN_bn2mpi = (\<lambda>n. be_size (length (mpi_encode n)) @ mpi_encode n),
              BN_mpi2bn = (\<lambda>bs. mpi_decode (drop 4 bs))\<rparr>"

section \<open>The conversions, byte by byte\<close>

text \<open>
  The loop that \<^verbatim>\<open>setint64\<close>, \<^verbatim>\<open>setuint64\<close> and \<^verbatim>\<open>setuint256\<close> share: the bytes of the
  number, most significant first, are copied without the leading zeroes, and the sign is
  put into the first byte.
\<close>

fun mpi_pack :: "bool \<Rightarrow> bool \<Rightarrow> byte list \<Rightarrow> byte list" where
  "mpi_pack fNegative fLeadingZeroes [] = []"
| "mpi_pack fNegative fLeadingZeroes (c # cs) =
     (if fLeadingZeroes then
        if c = 0 then mpi_pack fNegative True cs
        else if c AND 0x80 \<noteq> 0 then (if fNegative then 0x80 else 0) # c # mpi_pack fNegative False cs
        else if fNegative then (c OR 0x80) # mpi_pack fNegative False cs
        else c # mpi_pack fNegative False cs
      else c # mpi_pack fNegative False cs)"

text \<open>The eight rounds of \<^verbatim>\<open>c = (n >> 56) & 0xff; n <<= 8\<close>.\<close>

fun msb_bytes :: "nat \<Rightarrow> u64 \<Rightarrow> byte list" where
  "msb_bytes 0 n = []"
| "msb_bytes (Suc i) n = ucast (drop_bit 56 n AND 0xFF) # msb_bytes i (push_bit 8 n)"

definition setint64 :: "bn_mpi \<Rightarrow> 64 word \<Rightarrow> int" where
  "setint64 M sn =
     (let (n, fNegative) = (if sint sn < 0 then (- (sn + 1) + 1, True) else (sn, False));
          p = mpi_pack fNegative True (msb_bytes 8 n)
      in BN_mpi2bn M (be_size (length p) @ p))"

definition setuint64 :: "bn_mpi \<Rightarrow> u64 \<Rightarrow> int" where
  "setuint64 M n =
     (let p = mpi_pack False True (msb_bytes 8 n) in BN_mpi2bn M (be_size (length p) @ p))"

definition setuint256 :: "bn_mpi \<Rightarrow> uint256 \<Rightarrow> int" where
  "setuint256 M n =
     (let p = mpi_pack False True (rev (le_bytes 32 (unat n))) in BN_mpi2bn M (be_size (length p) @ p))"

text \<open>
  \<^verbatim>\<open>getuint256\<close>: the loop writes byte \<open>j\<close> of the body, from its end, to byte \<open>i\<close> of the
  result; the other bytes of the result stay 0.
\<close>

definition getuint256 :: "bn_mpi \<Rightarrow> int \<Rightarrow> uint256" where
  "getuint256 M bn =
     (let vch = BN_bn2mpi M bn in
      if length vch < 4 then 0
      else let vch = (if length vch > 4 then vch[4 := vch ! 4 AND 0x7F] else vch)
           in of_nat (le_val (take 32 (rev (drop 4 vch)))))"

definition setvch :: "bn_mpi \<Rightarrow> valtype \<Rightarrow> int" where
  "setvch M vch = BN_mpi2bn M (be_size (length vch mod 2 ^ 32) @ rev vch)"

definition getvch :: "bn_mpi \<Rightarrow> int \<Rightarrow> valtype" where
  "getvch M bn =
     (let vch = BN_bn2mpi M bn in if length vch \<le> 4 then [] else rev (drop 4 vch))"

text \<open>The integer views of \<^verbatim>\<open>setvch\<close>, \<^verbatim>\<open>getuint256\<close> and \<^verbatim>\<open>getvch\<close>.\<close>

definition bn_setvch :: "valtype \<Rightarrow> int" where
  "bn_setvch vch = mpi_decode (rev vch)"

definition bn_getuint256 :: "int \<Rightarrow> uint256" where
  "bn_getuint256 n = word_of_int \<bar>n\<bar>"

definition bn_getvch :: "int \<Rightarrow> valtype" where
  "bn_getvch n = rev (mpi_encode n)"

section \<open>The compact format and strings\<close>

definition SetCompact :: "u32 \<Rightarrow> int" where
  "SetCompact nCompact =
     (let nSize = drop_bit 24 nCompact;
          fNegative = (nCompact AND 0x00800000 \<noteq> 0);
          nWord = nCompact AND 0x007FFFFF;
          m = (if nSize \<le> 3 then uint (drop_bit (8 * (3 - unat nSize)) nWord)
               else bn_lshift (uint nWord) (8 * (unat nSize - 3)))
      in if fNegative then - m else m)"

text \<open>\<^verbatim>\<open>BN_num_bytes\<close> is the number of bytes of the magnitude.\<close>

definition bn_num_bytes :: "int \<Rightarrow> nat" where
  "bn_num_bytes n = length (mag_bytes (nat \<bar>n\<bar>))"

definition GetCompact :: "int \<Rightarrow> u32" where
  "GetCompact bn =
     (let nSize = bn_num_bytes bn;
          nCompact = (if nSize \<le> 3 then push_bit (8 * (3 - nSize)) (of_nat (bn_get_word bn))
                      else of_nat (bn_get_word (\<bar>bn\<bar> div 2 ^ (8 * (nSize - 3)))));
          (nCompact, nSize) = (if nCompact AND 0x00800000 \<noteq> 0 then (drop_bit 8 nCompact, nSize + 1)
                               else (nCompact, nSize))
      in nCompact OR push_bit 24 (of_nat nSize) OR (if bn < 0 then 0x00800000 else 0))"

definition hexdigit :: "nat \<Rightarrow> char" where
  "hexdigit c = ''0123456789abcdef'' ! c"

text \<open>
  \<^verbatim>\<open>ToString\<close>: the digits are appended least significant first, then the sign, and
  the string is reversed.  The base is 10 or 16 at every call.
\<close>

function bn_digits :: "nat \<Rightarrow> nat \<Rightarrow> string" where
  "bn_digits b n = (if n = 0 \<or> b \<le> 1 then [] else hexdigit (n mod b) # bn_digits b (n div b))"
  by auto
termination
  by (relation "measure snd") auto

declare bn_digits.simps [simp del]

definition bn_ToString :: "nat \<Rightarrow> int \<Rightarrow> string" where
  "bn_ToString nBase n =
     (if n = 0 then ''0''
      else rev (bn_digits nBase (nat \<bar>n\<bar>) @ (if n < 0 then ''-'' else [])))"

definition bn_GetHex :: "int \<Rightarrow> string" where
  "bn_GetHex n = bn_ToString 16 n"

text \<open>The character classes of \<^verbatim>\<open>isspace\<close> and \<^verbatim>\<open>isxdigit\<close> in the C locale.\<close>

definition c_isspace :: "char \<Rightarrow> bool" where
  "c_isspace c \<longleftrightarrow> c = CHR '' '' \<or> (9 \<le> (of_char c :: nat) \<and> (of_char c :: nat) \<le> 13)"

definition phexdigit :: "char \<Rightarrow> nat option" where
  "phexdigit c = (let x = (of_char c :: nat) in
     if 48 \<le> x \<and> x \<le> 57 then Some (x - 48)
     else if 65 \<le> x \<and> x \<le> 70 then Some (x - 55)
     else if 97 \<le> x \<and> x \<le> 102 then Some (x - 87) else None)"

fun hex_loop :: "int \<Rightarrow> string \<Rightarrow> int" where
  "hex_loop a [] = a"
| "hex_loop a (c # cs) =
     (case phexdigit c of None \<Rightarrow> a | Some d \<Rightarrow> hex_loop (bn_lshift a 4 + int d) cs)"

definition bn_SetHex :: "string \<Rightarrow> int" where
  "bn_SetHex str =
     (let psz = dropWhile c_isspace str;
          (fNegative, psz) = (case psz of c # r \<Rightarrow> if c = CHR ''-'' then (True, r) else (False, psz)
                                        | [] \<Rightarrow> (False, psz));
          psz = (case psz of c0 # c1 # r \<Rightarrow>
                   if c0 = CHR ''0'' \<and> (c1 = CHR ''x'' \<or> c1 = CHR ''X'') then r else psz
                 | _ \<Rightarrow> psz);
          psz = dropWhile c_isspace psz;
          n = hex_loop 0 psz
      in if fNegative then 0 - n else n)"

text \<open>The characters that \<^verbatim>\<open>ToString\<close> prints.\<close>

definition is_hexdigit :: "char \<Rightarrow> bool" where
  "is_hexdigit c \<longleftrightarrow> (\<exists>d<16. c = hexdigit d)"

section \<open>Byte strings as numbers\<close>

lemma be_val_simps [simp]:
  "be_val [] = 0"
  "be_val (b # bs) = unat b * 256 ^ length bs + be_val bs"
  by (simp_all add: be_val_def le_val_append)

lemma be_val_rev [simp]: "be_val (rev bs) = le_val bs"
  by (simp add: be_val_def)

lemma length_be_size [simp]: "length (be_size n) = 4"
  by (simp add: be_size_def)

lemma mag_bytes_0 [simp]: "mag_bytes 0 = []"
  by (simp add: mag_bytes.simps)

lemma le_val_mag_bytes [simp]: "le_val (mag_bytes n) = n"
proof (induction n rule: mag_bytes.induct)
  case (1 n)
  then show ?case
    by (subst mag_bytes.simps) (auto simp: mult.commute)
qed

lemma mag_bytes_eq_Nil [simp]: "mag_bytes n = [] \<longleftrightarrow> n = 0"
  by (subst mag_bytes.simps) simp

lemma last_mag_bytes: "n \<noteq> 0 \<Longrightarrow> last (mag_bytes n) \<noteq> 0"
proof (induction n rule: mag_bytes.induct)
  case (1 n)
  show ?case
  proof (cases "n div 256 = 0")
    case True
    with 1(2) have "n < 256" by (simp add: div_eq_0_iff)
    with 1(2) show ?thesis
      by (subst mag_bytes.simps) (simp add: True word_unat_eq_iff)
  next
    case False
    with 1 show ?thesis by (subst mag_bytes.simps) simp
  qed
qed

text \<open>The sign bit of the first byte and the magnitude of the rest.\<close>

lemma mpi_decode_plain: "unat b < 128 \<Longrightarrow> mpi_decode (b # bs) = int (be_val (b # bs))"
  by (simp add: Let_def byte_and_80 byte_and_7f)

lemma mpi_decode_neg: "unat b < 128 \<Longrightarrow> mpi_decode ((b OR 0x80) # bs) = - int (be_val (b # bs))"
  by (simp add: Let_def byte_and_80 byte_and_7f byte_or_80)

lemma mpi_decode_ext:
  "mpi_decode (0x80 # bs) = - int (be_val bs)" "mpi_decode (0 # bs) = int (be_val bs)"
  by (simp_all add: Let_def)

lemmas mpi_decode_sign = mpi_decode_plain mpi_decode_neg mpi_decode_ext

declare mpi_decode.simps(2) [simp del]

lemma mpi_decode_encode [simp]: "mpi_decode (mpi_encode n) = n"
proof (cases "rev (mag_bytes (nat \<bar>n\<bar>))")
  case Nil
  then show ?thesis by (simp add: mpi_encode_def)
next
  case (Cons b bs)
  then have "mag_bytes (nat \<bar>n\<bar>) = rev bs @ [b]" by (simp add: rev_swap)
  then have "le_val (rev bs @ [b]) = nat \<bar>n\<bar>" by (metis le_val_mag_bytes)
  then have v: "be_val (b # bs) = nat \<bar>n\<bar>" unfolding be_val_def by simp
  show ?thesis
    using Cons v by (auto simp: mpi_encode_def byte_and_80 mpi_decode_sign simp del: be_val_simps)
qed

lemma mpi_pack_False [simp]: "mpi_pack s False cs = cs"
  by (induction cs) auto

lemma mpi_decode_pack:
  "mpi_decode (mpi_pack s True cs) = (if s then - int (be_val cs) else int (be_val cs))"
  by (induction cs) (auto simp: byte_and_80 mpi_decode_sign)

lemma length_mpi_pack: "length (mpi_pack s l cs) \<le> Suc (length cs)"
  by (induction s l cs rule: mpi_pack.induct) auto

lemma le_bytes_mod: "le_bytes k (x mod 256 ^ k) = le_bytes k x"
  by (metis le_bytes_le_val le_val_le_bytes length_le_bytes)

lemma le_bytes_snoc: "le_bytes (Suc k) x = le_bytes k x @ [of_nat (x div 256 ^ k)]"
  by (induction k arbitrary: x) (simp_all add: div_mult2_eq)

lemma mod_div_pow2: "(x mod 2 ^ (a + b)) div 2 ^ a = (x div 2 ^ a) mod (2 ^ b :: nat)"
  using drop_bit_take_bit [of a "a + b" x] by (simp add: drop_bit_eq_div take_bit_eq_mod)

lemma msb_bytes_eq:
  "k \<le> 8 \<Longrightarrow> msb_bytes k n = rev (le_bytes k (unat n div 2 ^ (64 - 8 * k)))"
proof (induction k arbitrary: n)
  case (Suc k)
  define a where "a = 56 - 8 * k"
  define x where "x = unat n div 2 ^ a"
  have e: "64 - 8 * k = 8 + a" "64 - 8 * Suc k = a" and s: "56 = a + 8 * k"
    using Suc(2) by (auto simp: a_def)
  have "unat (push_bit 8 n) = (256 * unat n) mod (256 * 2 ^ 56)"
    by (simp add: push_bit_eq_mult unat_word_ariths mult.commute)
  also have "\<dots> = 256 * (unat n mod 2 ^ 56)" by (rule mod_mult_mult1)
  finally have "unat (push_bit 8 n) div 2 ^ (64 - 8 * k) = unat n mod 2 ^ 56 div 2 ^ a"
    unfolding e(1) power_add by simp
  also have "\<dots> = x mod 2 ^ (8 * k)"
    unfolding x_def s by (rule mod_div_pow2)
  also have "\<dots> = x mod 256 ^ k" by (simp add: power_mult)
  finally have "msb_bytes k (push_bit 8 n) = rev (le_bytes k x)"
    using Suc by (simp add: le_bytes_mod)
  moreover have "ucast (drop_bit 56 n AND 0xFF) = (of_nat (x div 256 ^ k) :: byte)"
  proof -
    have "x div 256 ^ k = unat n div 2 ^ 56"
      unfolding x_def s power_add power_mult by (simp add: div_mult2_eq)
    moreover have "unat (drop_bit 56 n AND 0xFF) = unat n div 2 ^ 56 mod 256"
      using unat_and_mask [of "drop_bit 56 n" 8]
      by (simp add: mask_eq_exp_minus_1 drop_bit_eq_div unat_div)
    ultimately show ?thesis
      by (simp add: word_unat_eq_iff unat_of_nat_byte unsigned_ucast_eq take_bit_eq_mod)
  qed
  ultimately show ?case by (simp add: le_bytes_snoc x_def a_def del: le_bytes.simps)
qed simp

section \<open>The byte-level conversions compute the integers\<close>

lemma mpi_laws_dec: "mpi_laws M \<Longrightarrow> length body < 2 ^ 31 \<Longrightarrow>
    BN_mpi2bn M (be_size (length body) @ body) = mpi_decode body"
  by (simp add: mpi_laws_def)

lemma mpi_laws_enc: "mpi_laws M \<Longrightarrow> length (mpi_encode n) < 2 ^ 31 \<Longrightarrow>
    BN_bn2mpi M n = be_size (length (mpi_encode n)) @ mpi_encode n"
  by (simp add: mpi_laws_def)

lemma mpi_laws_ref: "mpi_laws ref_mpi"
  by (simp add: mpi_laws_def ref_mpi_def)

lemma set_pack:
  assumes "mpi_laws M" "length cs \<le> 32" "p = mpi_pack s True cs"
  shows "BN_mpi2bn M (be_size (length p) @ p) = (if s then - int (be_val cs) else int (be_val cs))"
  using assms length_mpi_pack [of s True cs]
  by (simp add: mpi_laws_dec mpi_decode_pack)

lemma length_msb_bytes [simp]: "length (msb_bytes k n) = k"
  by (induction k arbitrary: n) auto

lemma be_val_msb_bytes: "be_val (msb_bytes 8 n) = unat n"
  using unat_less_len [of n] by (simp add: msb_bytes_eq)

lemma setuint64_eq: "mpi_laws M \<Longrightarrow> setuint64 M n = uint n"
  by (simp add: setuint64_def set_pack [OF _ _ refl] be_val_msb_bytes)

lemma setuint256_eq: "mpi_laws M \<Longrightarrow> setuint256 M n = uint n"
  using unat_less_len [of n]
  by (simp add: setuint256_def set_pack [OF _ _ refl])

lemma sint64_cases:
  "sint (x :: 64 word) = (if uint x < 2 ^ 63 then uint x else uint x - 2 ^ 64)"
proof -
  have "sint x = (uint x + 2 ^ 63) mod 2 ^ 64 - 2 ^ 63"
    by (simp add: sint_uint signed_take_bit_eq_take_bit_shift take_bit_eq_mod)
  then show ?thesis
    using uint_lt2p [of x] mod_pos_geq [of "2 ^ 64" "uint x + 2 ^ 63"] by simp
qed

lemma uint_neg64: "uint (x :: 64 word) > 0 \<Longrightarrow> uint (- x) = 2 ^ 64 - uint x"
  using uint_lt2p [of x] by (simp add: uint_word_ariths zmod_zminus1_eq_if)

lemma setint64_eq: "mpi_laws M \<Longrightarrow> setint64 M sn = sint sn"
proof -
  assume M: "mpi_laws M"
  have "int (unat (- sn)) = - sint sn" if "sint sn < 0"
    using that uint_lt2p [of sn] uint_neg64 [of sn]
    by (cases "uint sn < 2 ^ 63") (simp_all add: sint64_cases)
  moreover have "int (unat sn) = sint sn" if "\<not> sint sn < 0"
    using that uint_lt2p [of sn] by (simp add: sint64_cases split: if_splits)
  ultimately show ?thesis
    using M by (simp add: setint64_def Let_def set_pack [OF _ _ refl] be_val_msb_bytes
        del: unat_of_nat)
qed

lemma mpi_encode_cases:
  obtains (zero) "n = 0" "mpi_encode n = []"
  | (body) b bs where "mpi_encode n = b # bs" "be_val ((b AND 0x7F) # bs) = nat \<bar>n\<bar>"
proof (cases "mpi_encode n")
  case Nil
  then show ?thesis using zero mpi_decode_encode [of n] by simp
next
  case (Cons b bs)
  then have "mpi_decode (b # bs) = n" by (metis mpi_decode_encode)
  then have "be_val ((b AND 0x7F) # bs) = nat \<bar>n\<bar>"
    unfolding mpi_decode.simps Let_def by (auto split: if_splits simp del: be_val_simps)
  then show ?thesis by (rule body [OF Cons])
qed

lemma le_val_take: "le_val (take k bs) = le_val bs mod 256 ^ k"
proof (cases "k \<le> length bs")
  case True
  then show ?thesis
    using le_val_append [of "take k bs" "drop k bs"] le_val_less [of "take k bs"]
    by (simp add: min_absorb2)
next
  case False
  have "le_val bs < 256 ^ length bs" by (rule le_val_less)
  also have "\<dots> \<le> (256::nat) ^ k" using False by (simp add: power_increasing)
  finally show ?thesis using False by simp
qed

lemma getuint256_eq:
  assumes "mpi_laws M" "length (mpi_encode n) < 2 ^ 31"
  shows "getuint256 M n = bn_getuint256 n"
proof -
  note enc = mpi_laws_enc [OF assms]
  show ?thesis
  proof (cases n rule: mpi_encode_cases)
    case zero
    with enc show ?thesis by (simp add: getuint256_def bn_getuint256_def)
  next
    case (body b bs)
    then have "getuint256 M n = of_nat (le_val (take 32 (rev ((b AND 0x7F) # bs))))"
      using enc by (simp add: getuint256_def Let_def list_update_append nth_append)
    also have "\<dots> = of_nat (nat \<bar>n\<bar> mod 256 ^ 32)"
      using body(2) by (simp only: le_val_take be_val_def)
    also have "\<dots> = (of_nat (nat \<bar>n\<bar>) :: uint256)"
      unfolding word_unat_eq_iff unat_of_nat by simp
    finally show ?thesis by (simp add: bn_getuint256_def)
  qed
qed

lemma setvch_eq: "mpi_laws M \<Longrightarrow> length vch < 2 ^ 31 \<Longrightarrow> setvch M vch = bn_setvch vch"
  using mpi_laws_dec [of M "rev vch"] by (simp add: setvch_def bn_setvch_def)

lemma getvch_eq:
  "mpi_laws M \<Longrightarrow> length (mpi_encode n) < 2 ^ 31 \<Longrightarrow> getvch M n = bn_getvch n"
  by (simp add: getvch_def bn_getvch_def mpi_laws_enc)

lemma bn_setvch_getvch [simp]: "bn_setvch (bn_getvch n) = n"
  by (simp add: bn_setvch_def bn_getvch_def)

lemma length_bn_getvch: "length (bn_getvch n) = length (mpi_encode n)"
  by (simp add: bn_getvch_def)

text \<open>
  \<^verbatim>\<open>getvch\<close> is minimal: the last byte is not a redundant sign byte, and the vector of a
  number with a magnitude below \<open>2 ^ (8 * k - 1)\<close> has at most \<open>k\<close> bytes.
\<close>

lemma length_mag_bytes: "n < 256 ^ k \<Longrightarrow> length (mag_bytes n) \<le> k"
proof (induction k arbitrary: n)
  case (Suc k)
  then have "n div 256 < 256 ^ k" by (simp add: less_mult_imp_div_less mult.commute)
  then have "length (mag_bytes (n div 256)) \<le> k" by (rule Suc.IH)
  then show ?case by (subst mag_bytes.simps) simp
qed (simp add: mag_bytes.simps)

lemma length_mpi_encode:
  assumes "\<bar>n\<bar> < 2 ^ (8 * k + 7)"
  shows "length (mpi_encode n) \<le> Suc k"
proof (cases "rev (mag_bytes (nat \<bar>n\<bar>))")
  case Nil
  then show ?thesis by (simp add: mpi_encode_def)
next
  case (Cons b bs)
  then have m: "mag_bytes (nat \<bar>n\<bar>) = rev bs @ [b]" by (simp add: rev_swap)
  then have "le_val (rev bs @ [b]) = nat \<bar>n\<bar>" by (metis le_val_mag_bytes)
  then have "le_val (rev bs) + 256 ^ length bs * unat b = nat \<bar>n\<bar>" by (simp add: le_val_append)
  then have v: "256 ^ length bs * unat b \<le> nat \<bar>n\<bar>" by (metis le_add2)
  have s: "nat \<bar>n\<bar> < 256 ^ k * 128" using assms by (simp add: power_add power_mult nat_less_iff)
  also have "256 ^ k * 128 < (256::nat) ^ Suc k" by simp
  finally have "length (mag_bytes (nat \<bar>n\<bar>)) \<le> Suc k" by (rule length_mag_bytes)
  then have l: "length bs \<le> k" using m by simp
  have "unat b < 128" if "length bs = k"
  proof -
    from v s have "256 ^ k * unat b < 256 ^ k * 128" unfolding that by (rule le_less_trans)
    then show ?thesis by simp
  qed
  then show ?thesis
    using Cons l by (cases "length bs = k") (auto simp: mpi_encode_def byte_and_80)
qed

section \<open>Hexadecimal strings\<close>

lemma hexdigit_class:
  assumes "d < 16"
  shows "phexdigit (hexdigit d) = Some d \<and> \<not> c_isspace (hexdigit d) \<and>
    hexdigit d \<noteq> CHR ''-'' \<and> hexdigit d \<noteq> CHR ''x'' \<and> hexdigit d \<noteq> CHR ''X''"
proof -
  have "d \<in> set [0..<16]" using assms by simp
  moreover have "\<forall>d\<in>set [0..<16]. phexdigit (hexdigit d) = Some d \<and> \<not> c_isspace (hexdigit d) \<and>
    hexdigit d \<noteq> CHR ''-'' \<and> hexdigit d \<noteq> CHR ''x'' \<and> hexdigit d \<noteq> CHR ''X''"
    by code_simp
  ultimately show ?thesis by blast
qed

lemma is_hexdigitI: "d < 16 \<Longrightarrow> is_hexdigit (hexdigit d)"
  by (auto simp: is_hexdigit_def)

lemma is_hexdigitD:
  assumes "is_hexdigit c"
  shows "\<not> c_isspace c" "c \<noteq> CHR ''-''" "c \<noteq> CHR ''x''" "c \<noteq> CHR ''X''"
proof -
  obtain d where d: "d < 16" "c = hexdigit d" using assms unfolding is_hexdigit_def by blast
  show "\<not> c_isspace c" "c \<noteq> CHR ''-''" "c \<noteq> CHR ''x''" "c \<noteq> CHR ''X''"
    using hexdigit_class [OF d(1)] unfolding d(2) by simp_all
qed

lemma set_bn_digits: "c \<in> set (bn_digits 16 n) \<Longrightarrow> is_hexdigit c"
proof (induction "16 :: nat" n rule: bn_digits.induct)
  case (1 n)
  then show ?case
    by (subst (asm) (2) bn_digits.simps) (auto simp: is_hexdigitI split: if_splits)
qed

lemma hex_loop_append:
  "\<forall>c\<in>set xs. is_hexdigit c \<Longrightarrow> hex_loop a (xs @ ys) = hex_loop (hex_loop a xs) ys"
  by (induction xs arbitrary: a) (auto simp: is_hexdigit_def hexdigit_class)

lemma hex_loop_digits: "hex_loop 0 (rev (bn_digits 16 n)) = int n"
proof (induction "16 :: nat" n rule: bn_digits.induct)
  case (1 n)
  show ?case
  proof (cases "n = 0")
    case False
    have "hex_loop 0 (rev (bn_digits 16 n)) = 16 * int (n div 16) + int (n mod 16)"
      using False 1
      by (subst bn_digits.simps)
        (simp add: hex_loop_append set_bn_digits hexdigit_class bn_lshift_def)
    also have "\<dots> = int n" by presburger
    finally show ?thesis .
  qed (simp add: bn_digits.simps)
qed

lemma hex_skip:
  assumes "\<forall>c\<in>set s. is_hexdigit c"
  shows "bn_SetHex s = hex_loop 0 s" "bn_SetHex (CHR ''-'' # s) = - hex_loop 0 s"
proof -
  have sp: "dropWhile c_isspace s = s"
    using assms is_hexdigitD(1) by (cases s) auto
  have x: "(case s of c0 # c1 # r \<Rightarrow>
       if c0 = CHR ''0'' \<and> (c1 = CHR ''x'' \<or> c1 = CHR ''X'') then r else s | _ \<Rightarrow> s) = s"
    using assms is_hexdigitD(3,4) by (auto split: list.splits)
  have m: "(case s of c # r \<Rightarrow> if c = CHR ''-'' then (True, r) else (False, s) | [] \<Rightarrow> (False, s)) = (False, s)"
    using assms is_hexdigitD(2) by (auto split: list.splits)
  show "bn_SetHex s = hex_loop 0 s" by (simp add: bn_SetHex_def sp x m)
  have "\<not> c_isspace (CHR ''-'')" by (simp add: c_isspace_def)
  then show "bn_SetHex (CHR ''-'' # s) = - hex_loop 0 s" by (simp add: bn_SetHex_def sp x)
qed

section \<open>Properties\<close>

text \<open>
  C15. The conversions between \<^verbatim>\<open>CBigNum\<close> and the machine integers are exact: \<^verbatim>\<open>setint64\<close>
  (with its detour around the minimal integer), \<^verbatim>\<open>setuint64\<close> and \<^verbatim>\<open>setuint256\<close> build the byte
  string whose MPI value is their argument, and \<^verbatim>\<open>getuint256\<close> reads it back.
\<close>

theorem bignum_conversions_exact:
  assumes "mpi_laws M"
  shows "setint64 M sn = sint sn \<and> setuint64 M n = uint n \<and> setuint256 M h = uint h \<and>
    getuint256 M (setuint256 M h) = h"
proof -
  have "\<bar>uint h\<bar> < 2 ^ (8 * 32 + 7)"
    using uint_lt2p [of h] by simp
  then have "length (mpi_encode (uint h)) \<le> Suc 32" by (rule length_mpi_encode)
  then show ?thesis
    using assms by (simp add: setint64_eq setuint64_eq setuint256_eq getuint256_eq bn_getuint256_def)
qed

theorem bignum_conversions_exact_witness:
  "setint64 ref_mpi (- 0x8000000000000000) = sint (- 0x8000000000000000 :: 64 word) \<and>
   setuint64 ref_mpi 0x80 = uint (0x80 :: u64) \<and> setuint256 ref_mpi 0xFF00 = uint (0xFF00 :: uint256) \<and>
   getuint256 ref_mpi (setuint256 ref_mpi 0xFF00) = 0xFF00"
  by (rule bignum_conversions_exact [OF mpi_laws_ref])

text \<open>
  C16. \<^verbatim>\<open>getvch\<close> and \<^verbatim>\<open>setvch\<close>, the byte vectors by which scripts hold numbers, are inverse on
  every integer, and a number of magnitude below \<open>2 ^ (8 * k + 7)\<close> takes at most \<open>k + 1\<close> bytes.
\<close>

theorem getvch_setvch_roundtrip:
  assumes "mpi_laws M" "\<bar>n\<bar> < 2 ^ (8 * k + 7)" "k < 2 ^ 30"
  shows "setvch M (getvch M n) = n \<and> length (getvch M n) \<le> k + 1"
proof -
  have "length (mpi_encode n) \<le> Suc k" using assms(2) by (rule length_mpi_encode)
  then show ?thesis
    using assms(1,3) by (simp add: getvch_eq setvch_eq length_bn_getvch)
qed

theorem getvch_setvch_roundtrip_witness:
  "setvch ref_mpi (getvch ref_mpi (-255)) = -255 \<and> length (getvch ref_mpi (-255)) \<le> 1 + 1"
  by (rule getvch_setvch_roundtrip [OF mpi_laws_ref]) simp_all

text \<open>
  C17. Printing a \<^verbatim>\<open>CBigNum\<close> in hexadecimal with \<^verbatim>\<open>GetHex\<close> and reading it with \<^verbatim>\<open>SetHex\<close>
  gives the number back, whatever its sign.
\<close>

theorem hex_roundtrip: "bn_SetHex (bn_GetHex n) = n"
proof (cases "n = 0")
  case True
  have "is_hexdigit (CHR ''0'')" by (simp add: is_hexdigit_def hexdigit_def exI [of _ 0])
  with True show ?thesis
    by (simp add: bn_GetHex_def bn_ToString_def hex_skip phexdigit_def bn_lshift_def)
next
  case False
  then show ?thesis
    using set_bn_digits [of _ "nat \<bar>n\<bar>"]
    by (simp add: bn_GetHex_def bn_ToString_def hex_skip hex_loop_digits)
qed

end
