(* ===== verification/Target.thy ===== *)
theory Target
  imports BigNum
begin

text \<open>
  The proof-of-work target of \<^verbatim>\<open>src/src/prime.cpp\<close> (lines 146 to 295 and 440 to 462), its
  constants from \<^verbatim>\<open>src/src/prime.h\<close>, and the functions of \<^verbatim>\<open>src/src/main.cpp\<close> that use it:
  the block reward, the next required target and the work of a block.  A target is the
  32 bit word \<^verbatim>\<open>nBits\<close>: eight bits of chain length and 24 bits of fractional length.  The
  global variables \<^verbatim>\<open>nTargetInitialLength\<close> and \<^verbatim>\<open>nTargetMinLength\<close>, which the test
  network changes, are the record \<^verbatim>\<open>target_params\<close>.  An output argument is returned
  next to the result.
\<close>

section \<open>Definitions\<close>

record target_params =
  nTargetInitialLength :: u32
  nTargetMinLength :: u32

definition mainnet_target :: target_params where
  "mainnet_target = \<lparr>nTargetInitialLength = 7, nTargetMinLength = 6\<rparr>"

definition testnet_target :: target_params where
  "testnet_target = \<lparr>nTargetInitialLength = 5, nTargetMinLength = 2\<rparr>"

definition nFractionalBits :: nat where
  "nFractionalBits = 24"

definition TARGET_FRACTIONAL_MASK :: u32 where
  "TARGET_FRACTIONAL_MASK = push_bit nFractionalBits 1 - 1"

definition TARGET_LENGTH_MASK :: u32 where
  "TARGET_LENGTH_MASK = NOT TARGET_FRACTIONAL_MASK"

definition nFractionalDifficultyMax :: u64 where
  "nFractionalDifficultyMax = push_bit (nFractionalBits + 32) 1"

definition nFractionalDifficultyMin :: u64 where
  "nFractionalDifficultyMin = push_bit 32 1"

definition nFractionalDifficultyThreshold :: u64 where
  "nFractionalDifficultyThreshold = push_bit (8 + 32) 1"

definition nWorkTransitionRatio :: u32 where
  "nWorkTransitionRatio = 32"

definition COIN :: int where
  "COIN = 100000000"

definition CENT :: int where
  "CENT = 1000000"

definition TargetGetLimit :: "target_params \<Rightarrow> u32" where
  "TargetGetLimit P = push_bit nFractionalBits (nTargetMinLength P)"

definition TargetGetInitial :: "target_params \<Rightarrow> u32" where
  "TargetGetInitial P = push_bit nFractionalBits (nTargetInitialLength P)"

definition TargetGetLength :: "u32 \<Rightarrow> u32" where
  "TargetGetLength nBits = drop_bit nFractionalBits (nBits AND TARGET_LENGTH_MASK)"

definition TargetSetLength :: "u32 \<Rightarrow> u32 \<Rightarrow> bool \<times> u32" where
  "TargetSetLength nLength nBits =
     (if nLength \<ge> 0xFF then (False, nBits)
      else let nBits = nBits AND TARGET_FRACTIONAL_MASK;
               nBits = nBits OR push_bit nFractionalBits nLength
           in (True, nBits))"

definition TargetIncrementLength :: "u32 \<Rightarrow> u32" where
  "TargetIncrementLength nBits = nBits + push_bit nFractionalBits 1"

definition TargetDecrementLength :: "target_params \<Rightarrow> u32 \<Rightarrow> u32" where
  "TargetDecrementLength P nBits =
     (if TargetGetLength nBits > nTargetMinLength P then nBits - push_bit nFractionalBits 1 else nBits)"

definition TargetGetFractional :: "u32 \<Rightarrow> u32" where
  "TargetGetFractional nBits = nBits AND TARGET_FRACTIONAL_MASK"

definition TargetGetFractionalDifficulty :: "u32 \<Rightarrow> u64" where
  "TargetGetFractionalDifficulty nBits =
     nFractionalDifficultyMax div (push_bit nFractionalBits 1 - ucast (TargetGetFractional nBits))"

definition TargetSetFractionalDifficulty :: "u64 \<Rightarrow> u32 \<Rightarrow> bool \<times> u32" where
  "TargetSetFractionalDifficulty nFractionalDifficulty nBits =
     (if nFractionalDifficulty < nFractionalDifficultyMin then (False, nBits)
      else let nFractional = nFractionalDifficultyMax div nFractionalDifficulty in
           if nFractional > push_bit nFractionalBits 1 then (False, nBits)
           else let nFractional = push_bit nFractionalBits 1 - nFractional;
                    nBits = nBits AND TARGET_LENGTH_MASK;
                    nBits = nBits OR ucast nFractional
                in (True, nBits))"

text \<open>The conversion \<^verbatim>\<open>%0kx\<close> of \<^verbatim>\<open>printf\<close>: at least \<open>k\<close> hexadecimal digits.\<close>

definition hex_pad :: "nat \<Rightarrow> nat \<Rightarrow> string" where
  "hex_pad k n = (let s = rev (bn_digits 16 n) in replicate (max 1 k - length s) (CHR ''0'') @ s)"

definition TargetToString :: "u32 \<Rightarrow> string" where
  "TargetToString nBits =
     hex_pad 2 (unat (TargetGetLength nBits)) @ ''.'' @ hex_pad 6 (unat (TargetGetFractional nBits))"

definition TargetFromInt :: "u32 \<Rightarrow> u32" where
  "TargetFromInt nLength = push_bit nFractionalBits nLength"

text \<open>\<^verbatim>\<open>uint256::Get64()\<close> reads the two low 32 bit limbs.\<close>

definition Get64 :: "uint256 \<Rightarrow> u64" where
  "Get64 n = ucast n"

definition nMintLimit :: u64 where
  "nMintLimit = 999 * word_of_int COIN"

definition TargetGetMint :: "target_params \<Rightarrow> u32 \<Rightarrow> (bool \<times> u64) res" where
  "TargetGetMint P nBits =
     (let bnMint = uint nMintLimit in
      if TargetGetLength nBits < nTargetMinLength P then Inr (False, 0)
      else rbind (bn_div (bn_lshift bnMint nFractionalBits) (uint nBits)) (\<lambda>bnMint.
           rbind (bn_div (bn_lshift bnMint nFractionalBits) (uint nBits)) (\<lambda>bnMint.
           rbind (bn_div bnMint CENT) (\<lambda>bnMint.
           let bnMint = bnMint * CENT;
               nMint = Get64 (bn_getuint256 bnMint)
           in if nMint > nMintLimit then Inr (False, 0) else Inr (True, nMint)))))"

text \<open>
  \<^verbatim>\<open>TargetGetNext\<close>.  The products and sums of the spacings are \<^verbatim>\<open>int64\<close> arithmetic; their
  values stay far inside the range for the intervals the program uses.
\<close>

definition TargetGetNext ::
  "target_params \<Rightarrow> u32 \<Rightarrow> int \<Rightarrow> int \<Rightarrow> int \<Rightarrow> (bool \<times> u32) res" where
  "TargetGetNext P nBits nInterval nTargetSpacing nActualSpacing =
     (let nBitsNext = nBits;
          nFractionalDifficulty = TargetGetFractionalDifficulty nBits;
          bn = uint nFractionalDifficulty;
          bn = bn * wrap64 ((nInterval + 1) * nTargetSpacing)
      in rbind (bn_div bn (wrap64 ((nInterval - 1) * nTargetSpacing + nActualSpacing + nActualSpacing))) (\<lambda>bn.
      let bn = (if bn > uint nFractionalDifficultyMax then uint nFractionalDifficultyMax else bn);
          bn = (if bn < uint nFractionalDifficultyMin then uint nFractionalDifficultyMin else bn);
          nFractionalDifficultyNew = Get64 (bn_getuint256 bn);
          (nFractionalDifficultyNew, nBitsNext) =
            (if nFractionalDifficultyNew > nFractionalDifficultyThreshold
             then (nFractionalDifficultyMin, TargetIncrementLength nBitsNext)
             else if nFractionalDifficultyNew = nFractionalDifficultyMin \<and>
                     TargetGetLength nBitsNext > nTargetMinLength P
             then (nFractionalDifficultyThreshold, TargetDecrementLength P nBitsNext)
             else (nFractionalDifficultyNew, nBitsNext))
      in Inr (TargetSetFractionalDifficulty nFractionalDifficultyNew nBitsNext)))"

text \<open>The prime chain type and the printed name of a chain.\<close>

definition PRIME_CHAIN_CUNNINGHAM1 :: u32 where "PRIME_CHAIN_CUNNINGHAM1 = 1"
definition PRIME_CHAIN_CUNNINGHAM2 :: u32 where "PRIME_CHAIN_CUNNINGHAM2 = 2"
definition PRIME_CHAIN_BI_TWIN :: u32 where "PRIME_CHAIN_BI_TWIN = 3"

definition GetPrimeChainName :: "u32 \<Rightarrow> u32 \<Rightarrow> string" where
  "GetPrimeChainName nChainType nChainLength =
     (if nChainType = PRIME_CHAIN_CUNNINGHAM1 then ''1CC''
      else if nChainType = PRIME_CHAIN_CUNNINGHAM2 then ''2CC'' else ''TWN'')
     @ TargetToString nChainLength"

text \<open>
  \<^verbatim>\<open>EstimateWorkTransition\<close>: in both branches one operand is \<^verbatim>\<open>uint64\<close>, so the whole
  expression is computed modulo \<open>2 ^ 64\<close>.
\<close>

definition EstimateWorkTransition :: "u32 \<Rightarrow> u32 \<Rightarrow> u32 \<Rightarrow> u32" where
  "EstimateWorkTransition nPrevWorkTransition nBits nChainLength =
     (let nInterval = 500 :: u64;
          nWorkTransition = (ucast nPrevWorkTransition :: u64);
          nBitsCeiling = snd (TargetSetLength (TargetGetLength nBits + 1) 0);
          nBitsFloor = snd (TargetSetLength (TargetGetLength nBits) 0);
          nFractionalDifficulty = TargetGetFractionalDifficulty nBits;
          fLonger = (TargetGetLength nChainLength > TargetGetLength nBits);
          w = drop_bit 32 ((nInterval - 1) * nFractionalDifficulty)
      in ucast (if fLonger
                then (nWorkTransition * w + 2 * ucast nBitsFloor) div (w + 2)
                else ((nInterval - 1) * nWorkTransition + 2 * ucast nBitsCeiling) div (nInterval + 1)))"

text \<open>The users of the target in \<^verbatim>\<open>main.cpp\<close>.\<close>

definition nTargetTimespan :: int where
  "nTargetTimespan = 7 * 24 * 60 * 60"

definition nTargetSpacing :: int where
  "nTargetSpacing = 60"

definition GetBlockValue :: "target_params \<Rightarrow> u32 \<Rightarrow> int \<Rightarrow> int res" where
  "GetBlockValue P nBits nFees =
     rbind (TargetGetMint P nBits) (\<lambda>(ok, nSubsidy). Inr (wrap64 (sint nSubsidy + nFees)))"

definition ComputeMinWork :: "target_params \<Rightarrow> u32 \<Rightarrow> int \<Rightarrow> u32" where
  "ComputeMinWork P nBase nTime = snd (TargetSetLength (nTargetMinLength P) nBase)"

text \<open>
  The fields of \<^verbatim>\<open>CBlockIndex\<close> that the target depends on.  A chain of block indexes,
  linked by \<^verbatim>\<open>pprev\<close>, is the list of its members, the last block first.
\<close>

record block_index =
  bi_nVersion :: int
  bi_nTime :: u32
  bi_nBits :: u32

definition GetNextWorkRequired :: "target_params \<Rightarrow> block_index list \<Rightarrow> u32 res" where
  "GetNextWorkRequired P chain = (case chain of
     [] \<Rightarrow> Inr (TargetGetLimit P)
   | pindexPrev # rest \<Rightarrow> (case rest of
       [] \<Rightarrow> Inr (TargetGetInitial P)
     | pindexPrevPrev # rest' \<Rightarrow> (case rest' of
         [] \<Rightarrow> Inr (TargetGetInitial P)
       | _ \<Rightarrow>
         let nInterval = nTargetTimespan div nTargetSpacing;
             nActualSpacing = uint (bi_nTime pindexPrev) - uint (bi_nTime pindexPrevPrev)
         in rbind (TargetGetNext P (bi_nBits pindexPrev) nInterval nTargetSpacing nActualSpacing)
              (\<lambda>(ok, nBits). Inr (if ok then nBits else 0)))))"

text \<open>The loop of \<^verbatim>\<open>GetBlockWork\<close> multiplies once for each length above the minimum.\<close>

definition GetBlockWork :: "target_params \<Rightarrow> u32 \<Rightarrow> int res" where
  "GetBlockWork P nBits =
     (let nFractionalDifficulty = TargetGetFractionalDifficulty nBits;
          bnWork = fold (\<lambda>nCount bnWork. bnWork * uint nWorkTransitionRatio)
                     [unat (nTargetMinLength P)..<unat (TargetGetLength nBits)] 256;
          bnWork = bnWork * uint (ucast nWorkTransitionRatio * nFractionalDifficulty :: u64)
      in bn_div bnWork
           (uint ((ucast nWorkTransitionRatio - 1) * nFractionalDifficultyMin + nFractionalDifficulty)))"

text \<open>\<^verbatim>\<open>CBlockIndex::IsSuperMajority\<close>, with the loop variables \<open>i\<close> and \<open>nFound\<close>.\<close>

fun IsSuperMajority_loop :: "int \<Rightarrow> block_index list \<Rightarrow> nat \<Rightarrow> nat \<Rightarrow> nat \<Rightarrow> nat \<Rightarrow> nat" where
  "IsSuperMajority_loop minVersion [] nRequired nToCheck i nFound = nFound"
| "IsSuperMajority_loop minVersion (pstart # rest) nRequired nToCheck i nFound =
     (if i < nToCheck \<and> nFound < nRequired
      then IsSuperMajority_loop minVersion rest nRequired nToCheck (Suc i)
             (if bi_nVersion pstart \<ge> minVersion then Suc nFound else nFound)
      else nFound)"

definition IsSuperMajority :: "int \<Rightarrow> block_index list \<Rightarrow> nat \<Rightarrow> nat \<Rightarrow> bool" where
  "IsSuperMajority minVersion pstart nRequired nToCheck \<longleftrightarrow>
     IsSuperMajority_loop minVersion pstart nRequired nToCheck 0 0 \<ge> nRequired"

subsection \<open>Specification functions\<close>

text \<open>The fractional part that \<^verbatim>\<open>TargetSetFractionalDifficulty\<close> stores for a difficulty.\<close>

definition frac_of :: "nat \<Rightarrow> nat" where
  "frac_of fd = 2 ^ 24 - 2 ^ 56 div fd"

text \<open>
  The specification of one retargeting step: \<open>next_fd\<close> clamps the scaled difficulty, and
  \<open>next_bits\<close> moves the length when the clamped difficulty leaves its interval.
\<close>

definition next_fd :: "int \<Rightarrow> int \<Rightarrow> int \<Rightarrow> nat" where
  "next_fd fd N D = (if D < 0 then 2 ^ 32 else nat (max (2 ^ 32) (min (2 ^ 56) (fd * N div D))))"

definition next_bits :: "nat \<Rightarrow> nat \<Rightarrow> nat \<Rightarrow> nat" where
  "next_bits lmin l x =
     (if x > 2 ^ 40 then (l + 1) * 2 ^ 24
      else if x = 2 ^ 32 \<and> l > lmin then (l - 1) * 2 ^ 24 + frac_of (2 ^ 40)
      else l * 2 ^ 24 + frac_of x)"

text \<open>The mint before the checks, as integer arithmetic.\<close>

definition mint_of :: "int \<Rightarrow> int" where
  "mint_of b = 99900000000 * 2 ^ 24 div b * 2 ^ 24 div b div CENT * CENT"

section \<open>Targets as numbers\<close>

lemmas target_consts = nFractionalBits_def nFractionalDifficultyMax_def nFractionalDifficultyMin_def
  nFractionalDifficultyThreshold_def nWorkTransitionRatio_def

lemma frac_mask: "TARGET_FRACTIONAL_MASK = mask 24"
  by (simp add: TARGET_FRACTIONAL_MASK_def nFractionalBits_def mask_eq_exp_minus_1)

lemma unat_TargetGetLength [target_simps]: "unat (TargetGetLength nBits) = unat nBits div 2 ^ 24"
proof -
  have "unat (nBits AND TARGET_LENGTH_MASK) = unat nBits div 2 ^ 24 * 2 ^ 24"
    unfolding TARGET_LENGTH_MASK_def frac_mask by (rule unat_and_not_mask)
  then show ?thesis
    by (simp add: TargetGetLength_def nFractionalBits_def drop_bit_eq_div unat_div)
qed

lemma unat_TargetGetFractional [target_simps]: "unat (TargetGetFractional nBits) = unat nBits mod 2 ^ 24"
  by (simp add: TargetGetFractional_def frac_mask unat_and_mask)

lemma target_split: "unat (nBits :: u32) = unat nBits div 2 ^ 24 * 2 ^ 24 + unat nBits mod 2 ^ 24"
  by simp

lemma unat_TargetGetFractionalDifficulty [target_simps]:
  "unat (TargetGetFractionalDifficulty nBits) = 2 ^ 56 div (2 ^ 24 - unat nBits mod 2 ^ 24)"
proof -
  have u: "unat (ucast (TargetGetFractional nBits) :: u64) = unat nBits mod 2 ^ 24"
    by (simp add: unsigned_ucast_eq unat_TargetGetFractional take_bit_eq_mod)
  have "unat (push_bit 24 1 - ucast (TargetGetFractional nBits) :: u64) = 2 ^ 24 - unat nBits mod 2 ^ 24"
    by (subst unat_sub) (simp_all add: u word_le_nat_alt)
  then show ?thesis
    by (simp add: TargetGetFractionalDifficulty_def target_consts unat_div)
qed

lemma FD_range:
  "2 ^ 32 \<le> unat (TargetGetFractionalDifficulty nBits)" "unat (TargetGetFractionalDifficulty nBits) \<le> 2 ^ 56"
proof -
  have "(2::nat) ^ 56 div 2 ^ 24 \<le> 2 ^ 56 div (2 ^ 24 - unat nBits mod 2 ^ 24)"
    by (rule div_le_mono2) auto
  then show "2 ^ 32 \<le> unat (TargetGetFractionalDifficulty nBits)"
    by (simp add: target_simps)
  show "unat (TargetGetFractionalDifficulty nBits) \<le> 2 ^ 56"
    unfolding target_simps by (rule div_le_dividend)
qed

lemma uint_FD_range:
  "2 ^ 32 \<le> uint (TargetGetFractionalDifficulty nBits)" "uint (TargetGetFractionalDifficulty nBits) \<le> 2 ^ 56"
proof -
  have "int (2 ^ 32) \<le> int (unat (TargetGetFractionalDifficulty nBits))"
    "int (unat (TargetGetFractionalDifficulty nBits)) \<le> int (2 ^ 56)"
    using FD_range [of nBits] unfolding of_nat_le_iff by -
  then show "2 ^ 32 \<le> uint (TargetGetFractionalDifficulty nBits)"
    "uint (TargetGetFractionalDifficulty nBits) \<le> 2 ^ 56" by simp_all
qed

lemma frac_of_less: "0 < fd \<Longrightarrow> fd \<le> 2 ^ 56 \<Longrightarrow> frac_of fd < 2 ^ 24"
proof -
  assume "0 < fd" "fd \<le> 2 ^ 56"
  then have "0 < (2::nat) ^ 56 div fd" by (simp add: div_greater_zero_iff)
  then show ?thesis by (simp add: frac_of_def)
qed

lemma frac_of_mono: "0 < a \<Longrightarrow> a \<le> b \<Longrightarrow> frac_of a \<le> frac_of b"
  unfolding frac_of_def by (intro diff_le_mono2 div_le_mono2)

lemma frac_of_min [simp]: "frac_of 4294967296 = 0"
  by (simp add: frac_of_def)

lemma set_fractional:
  assumes "2 ^ 32 \<le> unat fd" "unat fd \<le> 2 ^ 56"
  shows "fst (TargetSetFractionalDifficulty fd nBits)"
    "unat (snd (TargetSetFractionalDifficulty fd nBits)) = unat nBits div 2 ^ 24 * 2 ^ 24 + frac_of (unat fd)"
proof -
  have le: "(2::nat) ^ 56 div unat fd \<le> 2 ^ 24"
    using div_le_mono2 [of "2 ^ 32" "unat fd" "2 ^ 56"] assms by simp
  have u: "unat (nFractionalDifficultyMax div fd) = 2 ^ 56 div unat fd"
    by (simp add: target_consts unat_div)
  have f: "unat (push_bit 24 1 - nFractionalDifficultyMax div fd :: u64) = frac_of (unat fd)"
    using le by (subst unat_sub) (simp_all add: u word_le_nat_alt frac_of_def)
  have frac: "frac_of (unat fd) < 2 ^ 24" using assms by (intro frac_of_less) simp_all
  have g: "unat (ucast (push_bit 24 1 - nFractionalDifficultyMax div fd :: u64) :: u32) = frac_of (unat fd)"
    using frac f by (simp add: unsigned_ucast_eq take_bit_eq_mod)
  have c: "\<not> fd < nFractionalDifficultyMin" "\<not> nFractionalDifficultyMax div fd > push_bit 24 1"
    using assms le by (simp_all add: word_less_nat_alt u) (simp add: target_consts)
  have len: "unat (nBits AND TARGET_LENGTH_MASK) = unat nBits div 2 ^ 24 * 2 ^ 24"
    unfolding TARGET_LENGTH_MASK_def frac_mask by (rule unat_and_not_mask)
  show "fst (TargetSetFractionalDifficulty fd nBits)"
    using c by (simp add: TargetSetFractionalDifficulty_def nFractionalBits_def Let_def)
  have "unat ((nBits AND TARGET_LENGTH_MASK) OR ucast (push_bit 24 1 - nFractionalDifficultyMax div fd :: u64))
      = unat nBits div 2 ^ 24 * 2 ^ 24 + frac_of (unat fd)"
    using frac by (subst unat_or_low [where n = 24]) (use g in \<open>simp_all add: len\<close>)
  then show "unat (snd (TargetSetFractionalDifficulty fd nBits)) = unat nBits div 2 ^ 24 * 2 ^ 24 + frac_of (unat fd)"
    using c by (simp add: TargetSetFractionalDifficulty_def nFractionalBits_def Let_def)
qed

section \<open>Round trips\<close>

lemma div_div_self: "(m::nat) * m \<le> n \<Longrightarrow> 0 < m \<Longrightarrow> n div (n div m) = m"
proof -
  assume m: "m * m \<le> n" "0 < m"
  define q r where "q = n div m" and "r = n mod m"
  have n: "n = m * q + r" "r < m" using m by (simp_all add: q_def r_def)
  have "m \<le> q" using m by (simp add: q_def less_eq_div_iff_mult_less_eq)
  with n(2) have "r < q" by simp
  then show ?thesis using n(1) unfolding q_def [symmetric] by simp
qed

lemma frac_of_FD:
  assumes "f < 2 ^ 24"
  shows "frac_of (2 ^ 56 div (2 ^ 24 - f)) = f"
proof -
  have "(2 ^ 24 - f) * (2 ^ 24 - f) \<le> 2 ^ 24 * 2 ^ 24" by (intro mult_le_mono) simp_all
  also have "\<dots> \<le> (2::nat) ^ 56" by simp
  finally have "2 ^ 56 div (2 ^ 56 div (2 ^ 24 - f)) = 2 ^ 24 - f"
    using assms by (intro div_div_self) simp_all
  then show ?thesis using assms by (simp add: frac_of_def)
qed

section \<open>The next target\<close>

lemma next_fd_range: "2 ^ 32 \<le> next_fd fd N D" "next_fd fd N D \<le> 2 ^ 56"
  by (auto simp: next_fd_def nat_le_iff le_nat_iff min_def max_def)

lemma unat_Get64: "0 \<le> x \<Longrightarrow> x < 2 ^ 64 \<Longrightarrow> unat (Get64 (bn_getuint256 x)) = nat x"
proof -
  assume x: "0 \<le> x" "x < 2 ^ 64"
  have "unat (of_nat (nat x) :: uint256) = nat x" 
    unfolding unat_of_nat using x by (simp add: nat_less_iff)
  then have "unat (bn_getuint256 x) = nat x" using x by (simp add: bn_getuint256_def)
  then show ?thesis using x by (simp add: Get64_def unsigned_ucast_eq take_bit_eq_mod nat_less_iff)
qed

lemma unat_word_of_int64: "0 \<le> x \<Longrightarrow> x < 2 ^ 64 \<Longrightarrow> unat (word_of_int x :: u64) = nat x"
proof -
  assume x: "0 \<le> x" "x < 2 ^ 64"
  have "unat (of_nat (nat x) :: u64) = nat x"
    unfolding unat_of_nat using x by (simp add: nat_less_iff)
  with x show ?thesis by simp
qed

lemma clamp_next_fd:
  fixes fd N D :: int
  assumes "D \<noteq> 0" "0 \<le> fd" "0 \<le> N"
  defines "b \<equiv> (fd * N) sdiv D"
  defines "b1 \<equiv> (if b > uint nFractionalDifficultyMax then uint nFractionalDifficultyMax else b)"
  shows "unat (Get64 (bn_getuint256 (if b1 < uint nFractionalDifficultyMin then uint nFractionalDifficultyMin else b1)))
    = next_fd fd N D"
proof -
  have c: "uint nFractionalDifficultyMax = 2 ^ 56" "uint nFractionalDifficultyMin = 2 ^ 32"
    by (simp_all add: target_consts)
  have n: "0 \<le> fd * N" using assms by simp
  have d: "b = fd * N div D" if "D > 0"
    using n that by (simp add: b_def sdiv_nonneg)
  have d': "b \<le> 0" if "D < 0"
    using n that by (simp add: b_def sdiv_nonpos)
  show ?thesis
  proof (cases "D > 0")
    case True
    then show ?thesis
      unfolding b1_def c d [OF True]
      by (subst unat_Get64) (auto simp: next_fd_def min_def max_def)
  next
    case False
    with assms(1) have "D < 0" by simp
    with d' show ?thesis
      unfolding b1_def c by (subst unat_Get64) (auto simp: next_fd_def)
  qed
qed

lemma next_lengths:
  fixes nBits :: u32
  assumes "unat nBits div 2 ^ 24 < 255"
  shows "unat (TargetIncrementLength nBits) = unat nBits + 2 ^ 24"
    "TargetGetLength nBits > nTargetMinLength P \<Longrightarrow>
      unat (TargetDecrementLength P nBits) = unat nBits - 2 ^ 24"
proof -
  have "unat nBits < 255 * 2 ^ 24" using assms by (simp add: div_less_iff_less_mult)
  then show "unat (TargetIncrementLength nBits) = unat nBits + 2 ^ 24"
    by (simp add: TargetIncrementLength_def nFractionalBits_def unat_word_ariths)
  assume g: "TargetGetLength nBits > nTargetMinLength P"
  then have "0 < unat nBits div 2 ^ 24"
    unfolding word_less_nat_alt target_simps by linarith
  then have "2 ^ 24 \<le> unat nBits" by (simp add: div_greater_zero_iff)
  with g show "unat (TargetDecrementLength P nBits) = unat nBits - 2 ^ 24"
    by (simp add: TargetDecrementLength_def nFractionalBits_def unat_sub word_le_nat_alt)
qed

lemma set_next:
  fixes P :: target_params and y :: u64 and nBits :: u32
  assumes "unat y = x" "2 ^ 32 \<le> x" "x \<le> 2 ^ 56" "unat nBits div 2 ^ 24 < 255"
  defines "t \<equiv> (if y > nFractionalDifficultyThreshold then (nFractionalDifficultyMin, TargetIncrementLength nBits)
      else if y = nFractionalDifficultyMin \<and> TargetGetLength nBits > nTargetMinLength P
      then (nFractionalDifficultyThreshold, TargetDecrementLength P nBits) else (y, nBits))"
  shows "fst (TargetSetFractionalDifficulty (fst t) (snd t))
    \<and> unat (snd (TargetSetFractionalDifficulty (fst t) (snd t)))
      = next_bits (unat (nTargetMinLength P)) (unat nBits div 2 ^ 24) x"
proof -
  have c: "unat nFractionalDifficultyThreshold = 2 ^ 40" "unat nFractionalDifficultyMin = 2 ^ 32"
    by (simp_all add: target_consts)
  have cmp: "y > nFractionalDifficultyThreshold \<longleftrightarrow> x > 2 ^ 40" "y = nFractionalDifficultyMin \<longleftrightarrow> x = 2 ^ 32"
    using assms(1) c by (simp_all add: word_less_nat_alt word_unat_eq_iff)
  have lg: "TargetGetLength nBits > nTargetMinLength P \<longleftrightarrow> unat (nTargetMinLength P) < unat nBits div 2 ^ 24"
    by (simp add: word_less_nat_alt target_simps)
  note n = next_lengths [OF assms(4)]
  consider (up) "x > 2 ^ 40" | (down) "x = 2 ^ 32" "unat (nTargetMinLength P) < unat nBits div 2 ^ 24"
    | (same) "x \<le> 2 ^ 40" "\<not> (x = 2 ^ 32 \<and> unat (nTargetMinLength P) < unat nBits div 2 ^ 24)"
    by linarith
  then show ?thesis
  proof cases
    case up
    then have "t = (nFractionalDifficultyMin, TargetIncrementLength nBits)" by (simp add: t_def cmp)
    then show ?thesis using up by (simp add: set_fractional c n(1) next_bits_def div_add_self2 add_mult_distrib)
  next
    case down
    then have "t = (nFractionalDifficultyThreshold, TargetDecrementLength P nBits)" by (simp add: t_def cmp lg)
    moreover have "unat nBits div 2 ^ 24 = Suc ((unat nBits - 2 ^ 24) div 2 ^ 24)"
      using down(2) by (intro le_div_geq) (auto simp: div_greater_zero_iff intro: ccontr)
    ultimately show ?thesis using down n(2) lg
      by (simp add: set_fractional c next_bits_def)
  next
    case same
    then have "t = (y, nBits)" by (auto simp: t_def cmp lg)
    then show ?thesis using same assms(1-4) by (auto simp: set_fractional next_bits_def)
  qed
qed

lemma TargetGetNext_eq:
  fixes nBits :: u32 and P :: target_params and I S A :: int
  defines "N \<equiv> (I + 1) * S" and "D \<equiv> (I - 1) * S + A + A" and "l \<equiv> unat nBits div 2 ^ 24"
  defines "fd \<equiv> int (unat (TargetGetFractionalDifficulty nBits))"
  assumes "0 \<le> N" "N < 2 ^ 63" "\<bar>D\<bar> < 2 ^ 63" "D \<noteq> 0" "l < 255"
  shows "\<exists>b. TargetGetNext P nBits I S A = Inr (True, b) \<and>
    unat b = next_bits (unat (nTargetMinLength P)) l (next_fd fd N D)"
proof -
  define x where "x = next_fd fd N D"
  have w: "wrap64 ((I + 1) * S) = N" "wrap64 ((I - 1) * S + A + A) = D"
    using assms by (simp_all add: wrap_simps)
  have fd: "uint (TargetGetFractionalDifficulty nBits) = fd" by (simp add: fd_def)
  have "0 \<le> fd" by (simp add: fd_def)
  note cl = clamp_next_fd [OF \<open>D \<noteq> 0\<close> \<open>0 \<le> fd\<close> \<open>0 \<le> N\<close>]
  obtain y where y: "unat y = x" "y = Get64 (bn_getuint256
      (let b = (fd * N) sdiv D; b = (if b > uint nFractionalDifficultyMax then uint nFractionalDifficultyMax else b)
       in if b < uint nFractionalDifficultyMin then uint nFractionalDifficultyMin else b))"
    using cl by (simp add: x_def Let_def)
  have r: "2 ^ 32 \<le> x" "x \<le> 2 ^ 56" unfolding x_def by (rule next_fd_range)+
  define t where "t = (if y > nFractionalDifficultyThreshold then (nFractionalDifficultyMin, TargetIncrementLength nBits)
      else if y = nFractionalDifficultyMin \<and> TargetGetLength nBits > nTargetMinLength P
      then (nFractionalDifficultyThreshold, TargetDecrementLength P nBits) else (y, nBits))"
  have "TargetGetNext P nBits I S A = Inr (TargetSetFractionalDifficulty (fst t) (snd t))"
    using \<open>D \<noteq> 0\<close> unfolding TargetGetNext_def Let_def w fd bn_div_def
    by (simp add: y(2) t_def Let_def)
  moreover have "fst (TargetSetFractionalDifficulty (fst t) (snd t))
     \<and> unat (snd (TargetSetFractionalDifficulty (fst t) (snd t))) = next_bits (unat (nTargetMinLength P)) l x"
    using set_next [OF y(1) r \<open>l < 255\<close> [unfolded l_def]] unfolding t_def l_def by simp
  ultimately show ?thesis unfolding x_def [symmetric] by (metis prod.collapse)
qed

lemma next_bits_length:
  assumes "2 ^ 32 \<le> x" "x \<le> 2 ^ 56"
  shows "next_bits lmin l x div 2 ^ 24 =
    (if x > 2 ^ 40 then l + 1 else if x = 2 ^ 32 \<and> l > lmin then l - 1 else l)"
proof -
  have "frac_of x < 2 ^ 24" "frac_of (2 ^ 40) < 2 ^ 24"
    by (rule frac_of_less; use assms in simp)+
  then show ?thesis by (simp add: next_bits_def)
qed

lemma next_bits_mono:
  assumes "2 ^ 32 \<le> x" "x \<le> y" "y \<le> 2 ^ 56" "lmin \<le> l"
  shows "next_bits lmin l x \<le> next_bits lmin l y"
proof -
  have f: "frac_of x < 2 ^ 24" "frac_of (2 ^ 40) < 2 ^ 24"
    by (rule frac_of_less; use assms in simp)+
  have m: "frac_of x \<le> frac_of y" using assms by (intro frac_of_mono) simp_all
  have s: "(l - 1) * 2 ^ 24 + frac_of (2 ^ 40) \<le> l * 2 ^ 24" if "l > lmin"
    using that f(2) by (cases l) simp_all
  show ?thesis
    using f m s assms unfolding next_bits_def by auto
qed

lemma next_fd_antimono:
  assumes "0 < D" "D \<le> D'" "0 \<le> fd" "0 \<le> N"
  shows "next_fd fd N D' \<le> next_fd fd N D"
proof -
  have "fd * N div D' \<le> fd * N div D" using assms by (intro zdiv_mono2) simp_all
  then show ?thesis using assms unfolding next_fd_def
    by (auto simp: min_def max_def intro!: nat_mono)
qed

section \<open>Work\<close>

lemma fold_mult_const: "fold (\<lambda>_ b. b * c) xs (a :: int) = a * c ^ length xs"
  by (induction xs arbitrary: a) (simp_all add: mult.assoc)

lemma GetBlockWork_eq:
  fixes P :: target_params and nBits :: u32
  defines "k \<equiv> unat nBits div 2 ^ 24 - unat (nTargetMinLength P)"
  defines "fd \<equiv> uint (TargetGetFractionalDifficulty nBits)"
  shows "GetBlockWork P nBits = Inr (256 * 32 ^ k * (32 * fd) div (31 * 2 ^ 32 + fd))"
proof -
  have fd: "2 ^ 32 \<le> fd" "fd \<le> 2 ^ 56"
    unfolding fd_def by (rule uint_FD_range)+
  have "uint (ucast nWorkTransitionRatio * TargetGetFractionalDifficulty nBits :: u64) = 32 * fd"
    using fd by (simp add: target_consts uint_word_ariths fd_def)
  moreover have "uint ((ucast nWorkTransitionRatio - 1) * nFractionalDifficultyMin + TargetGetFractionalDifficulty nBits)
      = 31 * 2 ^ 32 + fd"
    using fd by (simp add: target_consts uint_word_ariths fd_def)
  ultimately show ?thesis
    using fd by (simp add: GetBlockWork_def Let_def bn_div_def fold_mult_const sdiv_nonneg
        unat_TargetGetLength k_def nWorkTransitionRatio_def)
qed

lemma div_le_cross:
  fixes a b a' b' :: int
  assumes "0 < b" "0 < b'" "a * b' \<le> a' * b"
  shows "a div b \<le> a' div b'"
proof -
  have "a div b * b \<le> a" using assms(1) by (simp add: minus_mod_eq_div_mult [symmetric])
  then have "a div b * b * b' \<le> a' * b"
    using assms(2,3) by (meson mult_right_mono order_trans less_imp_le)
  then have "(a div b * b') * b \<le> a' * b" by (simp add: ac_simps)
  then have "a div b * b' \<le> a'" using assms(1) by simp
  then show ?thesis using zdiv_mono1 [of "a div b * b'" a' b'] assms(2) by simp
qed

lemma work_bounds:
  fixes c fd :: int
  assumes "0 \<le> c" "2 ^ 32 \<le> fd"
  shows "c \<le> c * (32 * fd) div (31 * 2 ^ 32 + fd)" "c * (32 * fd) div (31 * 2 ^ 32 + fd) \<le> c * 32"
proof -
  have "c * (31 * 2 ^ 32 + fd) \<le> c * (32 * fd)"
    using assms by (intro mult_left_mono) simp_all
  then show "c \<le> c * (32 * fd) div (31 * 2 ^ 32 + fd)"
    using div_le_cross [of 1 "31 * 2 ^ 32 + fd" c "c * (32 * fd)"] assms by simp
  have "c * (32 * fd) \<le> c * 32 * (31 * 2 ^ 32 + fd)"
    using assms by (simp add: algebra_simps)
  then show "c * (32 * fd) div (31 * 2 ^ 32 + fd) \<le> c * 32"
    using div_le_cross [of "31 * 2 ^ 32 + fd" 1 "c * (32 * fd)" "c * 32"] assms by simp
qed

lemma work_mono_fd:
  fixes c fd fd' :: int
  assumes "0 \<le> c" "0 \<le> fd" "fd \<le> fd'"
  shows "c * (32 * fd) div (31 * 2 ^ 32 + fd) \<le> c * (32 * fd') div (31 * 2 ^ 32 + fd')"
proof (rule div_le_cross)
  have "fd * (31 * 2 ^ 32 + fd') \<le> fd' * (31 * 2 ^ 32 + fd)"
    using assms(3) by (simp add: algebra_simps)
  then have "c * 32 * (fd * (31 * 2 ^ 32 + fd')) \<le> c * 32 * (fd' * (31 * 2 ^ 32 + fd))"
    using assms(1) by (intro mult_left_mono) simp_all
  then show "c * (32 * fd) * (31 * 2 ^ 32 + fd') \<le> c * (32 * fd') * (31 * 2 ^ 32 + fd)"
    by (simp only: mult.assoc)
qed (use assms in simp_all)

lemma FD_mono:
  assumes "unat b div 2 ^ 24 = unat b' div 2 ^ 24" "b \<le> b'"
  shows "uint (TargetGetFractionalDifficulty b) \<le> uint (TargetGetFractionalDifficulty b')"
proof -
  have "unat b mod 2 ^ 24 \<le> unat b' mod 2 ^ 24"
    using assms by (metis add_le_cancel_left target_split word_le_nat_alt)
  then have "2 ^ 56 div (2 ^ 24 - unat b mod 2 ^ 24) \<le> 2 ^ 56 div (2 ^ 24 - unat b' mod 2 ^ 24)"
    by (intro div_le_mono2) auto
  then show ?thesis
    unfolding word_le_def [symmetric] word_le_nat_alt target_simps .
qed

section \<open>The mint\<close>

lemma mint_of_range: "2 ^ 24 \<le> b \<Longrightarrow> 0 \<le> mint_of b \<and> mint_of b \<le> 99900000000"
proof -
  assume b: "2 ^ 24 \<le> b"
  define q1 where "q1 = 99900000000 * 2 ^ 24 div b"
  define q2 where "q2 = q1 * 2 ^ 24 div b"
  have q1: "0 \<le> q1" "q1 \<le> 99900000000"
    using b div_le_cross [of b 1 "99900000000 * 2 ^ 24" 99900000000]
    by (simp_all add: q1_def pos_imp_zdiv_nonneg_iff)
  have q2: "0 \<le> q2" "q2 \<le> q1"
    using b q1 div_le_cross [of b 1 "q1 * 2 ^ 24" q1]
    by (simp_all add: q2_def pos_imp_zdiv_nonneg_iff mult_left_mono)
  have "q2 div CENT * CENT \<le> q2" by (simp add: CENT_def minus_mod_eq_div_mult [symmetric])
  moreover have "0 \<le> q2 div CENT * CENT" using q2 by (simp add: CENT_def pos_imp_zdiv_nonneg_iff)
  ultimately show ?thesis using q1 q2 unfolding mint_of_def q1_def [symmetric] q2_def [symmetric] by linarith
qed

lemma mint_of_exact:
  assumes "2 ^ 24 \<le> b"
  shows "mint_of b * b\<^sup>2 \<le> 99900000000 * 2 ^ 48 \<and> 99900000000 * 2 ^ 48 < (mint_of b + CENT + 1) * b\<^sup>2"
proof -
  define M :: int where "M = 99900000000"
  define q1 where "q1 = M * 2 ^ 24 div b"
  define q2 where "q2 = q1 * 2 ^ 24 div b"
  define m where "m = q2 div CENT * CENT"
  have b: "0 < b" using assms by simp
  have step: "x div b * b \<le> x" "x < (x div b + 1) * b" for x
    using div_mult_mod_eq [of x b] pos_mod_bound [OF b, of x] pos_mod_sign [OF b, of x]
    unfolding distrib_right by linarith+
  have m: "m \<le> q2" "q2 + 1 \<le> m + CENT"
    using mult_div_mod_eq [of CENT q2] pos_mod_bound [of CENT q2] pos_mod_sign [of CENT q2]
    by (simp_all add: m_def CENT_def)
  have "m * b \<le> q1 * 2 ^ 24"
    using mult_right_mono [OF m(1) less_imp_le [OF b]] step(1) [of "q1 * 2 ^ 24", folded q2_def] by linarith
  then have "m * b * b \<le> q1 * b * 2 ^ 24"
    using b by (simp add: mult_right_mono ac_simps)
  also have "\<dots> \<le> M * 2 ^ 24 * 2 ^ 24"
    using step(1) [of "M * 2 ^ 24"] by (intro mult_right_mono) (simp_all add: q1_def)
  finally have up: "m * b * b \<le> M * 2 ^ 48" by simp
  have "q1 * 2 ^ 24 < (m + CENT) * b"
    using step(2) [of "q1 * 2 ^ 24", folded q2_def] mult_right_mono [OF m(2) less_imp_le [OF b]] by linarith
  then have "(q1 + 1) * 2 ^ 24 \<le> (m + CENT + 1) * b"
    using assms by (simp add: algebra_simps)
  then have "(q1 + 1) * 2 ^ 24 * b \<le> (m + CENT + 1) * b * b"
    using b by (intro mult_right_mono) simp_all
  moreover have "M * 2 ^ 24 * 2 ^ 24 < (q1 + 1) * b * 2 ^ 24"
    using step(2) [of "M * 2 ^ 24"] by (intro mult_strict_right_mono) (simp_all add: q1_def)
  ultimately have "M * 2 ^ 48 < (m + CENT + 1) * b * b" by (simp add: ac_simps)
  with up show ?thesis
    by (simp add: mint_of_def m_def q2_def q1_def M_def power2_eq_square mult.assoc)
qed

lemma TargetGetMint_eq:
  assumes "0 < unat (nTargetMinLength P)" "nTargetMinLength P \<le> TargetGetLength nBits"
  shows "TargetGetMint P nBits = Inr (True, word_of_int (mint_of (uint nBits)))"
    "2 ^ 24 \<le> uint nBits"
proof -
  have "0 < unat nBits div 2 ^ 24"
    using assms unfolding word_le_nat_alt target_simps by linarith
  then have "2 ^ 24 \<le> unat nBits" by (simp add: div_greater_zero_iff)
  then have "int (2 ^ 24) \<le> int (unat nBits)" unfolding of_nat_le_iff .
  then show b: "2 ^ 24 \<le> uint nBits" by simp
  define q1 where "q1 = 99900000000 * 2 ^ 24 div uint nBits"
  have q1: "0 \<le> q1" using b by (simp add: q1_def pos_imp_zdiv_nonneg_iff)
  have lim: "uint nMintLimit = 99900000000" by (simp add: nMintLimit_def COIN_def)
  have q: "0 \<le> q1 * 2 ^ 24 div uint nBits" using b q1 by (simp add: pos_imp_zdiv_nonneg_iff)
  note r = mint_of_range [OF b]
  have m: "unat (Get64 (bn_getuint256 (mint_of (uint nBits)))) = nat (mint_of (uint nBits))"
    using r by (intro unat_Get64) simp_all
  then have g: "Get64 (bn_getuint256 (mint_of (uint nBits))) = word_of_int (mint_of (uint nBits))"
    using r by (simp add: word_unat_eq_iff unat_word_of_int64)
  have "\<not> word_of_int (mint_of (uint nBits)) > nMintLimit"
    unfolding word_less_nat_alt using r
    by (simp add: unat_word_of_int64 nMintLimit_def COIN_def nat_le_iff not_less)
  moreover have "bn_div (bn_lshift 99900000000 nFractionalBits) (uint nBits) = Inr q1"
    "bn_div (bn_lshift q1 nFractionalBits) (uint nBits) = Inr (q1 * 2 ^ 24 div uint nBits)"
    "bn_div (q1 * 2 ^ 24 div uint nBits) CENT = Inr (q1 * 2 ^ 24 div uint nBits div CENT)"
    using b q1 q by (auto simp: bn_div_def bn_lshift_def nFractionalBits_def q1_def CENT_def sdiv_nonneg)
  moreover have "q1 * 2 ^ 24 div uint nBits div CENT * CENT = mint_of (uint nBits)"
    by (simp add: mint_of_def q1_def)
  ultimately show "TargetGetMint P nBits = Inr (True, word_of_int (mint_of (uint nBits)))"
    using assms(2) g by (simp add: TargetGetMint_def Let_def lim)
qed

lemma IsSuperMajority_loop_eq:
  fixes v :: int
  defines "cnt \<equiv> \<lambda>k xs. length (filter (\<lambda>b. bi_nVersion b \<ge> v) (take k xs))"
  assumes "nFound \<le> nRequired"
  shows "IsSuperMajority_loop v xs nRequired nToCheck i nFound = min nRequired (nFound + cnt (nToCheck - i) xs)"
  using assms(2)
proof (induction xs arbitrary: i nFound)
  case Nil
  then show ?case by (simp add: cnt_def)
next
  case (Cons x xs)
  show ?case
  proof (cases "i < nToCheck \<and> nFound < nRequired")
    case True
    then obtain m where m: "nToCheck - i = Suc m" "nToCheck - Suc i = m"
      by (metis Suc_diff_Suc)
    show ?thesis using True Cons m by (simp add: cnt_def)
  next
    case False
    then show ?thesis using Cons.prems by (auto simp: cnt_def)
  qed
qed

section \<open>Properties\<close>

text \<open>
  C9. Retargeting is total and bounded.  With the interval and spacing of the network and any
  pair of 32 bit block times that does not make the divisor zero, \<^verbatim>\<open>TargetGetNext\<close> succeeds on
  every target with a length between the minimum and 254; the new length differs from the old
  by at most one and never goes below the minimum.
\<close>

theorem TargetGetNext_bounded:
  fixes nBits t1 t2 :: u32
  assumes "nTargetMinLength P \<le> TargetGetLength nBits" "unat (TargetGetLength nBits) < 255"
    and "uint t1 - uint t2 \<noteq> - 302370"
  shows "\<exists>b. TargetGetNext P nBits (nTargetTimespan div nTargetSpacing) nTargetSpacing (uint t1 - uint t2)
      = Inr (True, b) \<and> nTargetMinLength P \<le> TargetGetLength b \<and>
    unat (TargetGetLength b) \<le> unat (TargetGetLength nBits) + 1 \<and>
    unat (TargetGetLength nBits) \<le> unat (TargetGetLength b) + 1"
proof -
  let ?I = "nTargetTimespan div nTargetSpacing" and ?A = "uint t1 - uint t2"
  have I: "nTargetTimespan div 60 = 10080" "nTargetSpacing = 60"
    by (simp_all add: nTargetTimespan_def nTargetSpacing_def)
  have t: "uint t1 < 4294967296" "uint t2 < 4294967296" "0 \<le> uint t1" "0 \<le> uint t2"
    using uint_lt2p [of t1] uint_lt2p [of t2] by simp_all
  have D: "(10080 - 1) * 60 + ?A + ?A \<noteq> 0" using assms(3) by simp
  have "\<bar>(10080 - 1) * 60 + ?A + ?A\<bar> < 9223372036854775808" using t by arith
  then have D2: "\<bar>(10080 - 1) * 60 + ?A + ?A\<bar> < 2 ^ 63" by simp
  obtain b where b: "TargetGetNext P nBits ?I nTargetSpacing ?A = Inr (True, b)"
    "unat b = next_bits (unat (nTargetMinLength P)) (unat nBits div 2 ^ 24)
       (next_fd (int (unat (TargetGetFractionalDifficulty nBits)))
         ((?I + 1) * nTargetSpacing) ((?I - 1) * nTargetSpacing + ?A + ?A))"
    using TargetGetNext_eq [of 10080 60 ?A nBits P] assms(2) D D2 unfolding I unat_TargetGetLength by auto
  let ?x = "next_fd (int (unat (TargetGetFractionalDifficulty nBits)))
         ((?I + 1) * nTargetSpacing) ((?I - 1) * nTargetSpacing + ?A + ?A)"
  have "unat b div 2 ^ 24 = (if ?x > 2 ^ 40 then unat nBits div 2 ^ 24 + 1
     else if ?x = 2 ^ 32 \<and> unat nBits div 2 ^ 24 > unat (nTargetMinLength P)
     then unat nBits div 2 ^ 24 - 1 else unat nBits div 2 ^ 24)"
    unfolding b(2) by (rule next_bits_length [OF next_fd_range])
  then show ?thesis
    using b(1) assms(1) unfolding word_le_nat_alt unat_TargetGetLength by (auto split: if_splits)
qed

theorem TargetGetNext_bounded_witness:
  "\<exists>b. TargetGetNext mainnet_target 0x07800000 (nTargetTimespan div nTargetSpacing) nTargetSpacing
        (uint (1373064489 :: u32) - uint (1373064429 :: u32))
      = Inr (True, b) \<and> nTargetMinLength mainnet_target \<le> TargetGetLength b \<and>
    unat (TargetGetLength b) \<le> unat (TargetGetLength 0x07800000) + 1 \<and>
    unat (TargetGetLength 0x07800000) \<le> unat (TargetGetLength b) + 1"
  by (rule TargetGetNext_bounded) (simp_all add: mainnet_target_def word_le_nat_alt unat_TargetGetLength)



text \<open>
  C14. The required target of the next block fails with a \<^verbatim>\<open>bignum_error\<close> exactly when the last
  block is 302370 seconds older than the block before it: then the divisor of the moving
  average is zero.  No other pair of block times makes \<^verbatim>\<open>GetNextWorkRequired\<close> throw.
\<close>

theorem GetNextWorkRequired_throws:
  "GetNextWorkRequired P (b1 # b2 # b3 # rest) = Inl Bignum_error \<longleftrightarrow>
   uint (bi_nTime b1) - uint (bi_nTime b2) = - 302370"
proof -
  let ?A = "uint (bi_nTime b1) - uint (bi_nTime b2)"
  have t: "uint (bi_nTime b1) < 4294967296" "uint (bi_nTime b2) < 4294967296"
    "0 \<le> uint (bi_nTime b1)" "0 \<le> uint (bi_nTime b2)"
    using uint_lt2p [of "bi_nTime b1"] uint_lt2p [of "bi_nTime b2"] by simp_all
  have I: "nTargetTimespan div 60 = 10080" "nTargetSpacing = 60"
    by (simp_all add: nTargetTimespan_def nTargetSpacing_def)
  have "wrap64 ((10080 - 1) * 60 + ?A + ?A) = (10080 - 1) * 60 + ?A + ?A"
  proof -
    have "- 9223372036854775808 \<le> 604740 + ?A + ?A" "604740 + ?A + ?A < 9223372036854775808"
      using t by linarith+
    then show ?thesis by (intro wrap64_id) simp_all
  qed
  moreover have "(10080 - 1) * 60 + ?A + ?A = 0 \<longleftrightarrow> ?A = - 302370" by arith
  ultimately show ?thesis
    unfolding GetNextWorkRequired_def TargetGetNext_def bn_div_def Let_def I
    by (simp add: split_def)
qed

text \<open>
  C13. The stored fraction is exact: writing the fractional difficulty of a target back with
  \<^verbatim>\<open>TargetSetFractionalDifficulty\<close> reproduces the target, so a retargeting step that keeps the
  difficulty keeps \<^verbatim>\<open>nBits\<close>, despite the two truncating divisions.
\<close>

theorem fractional_roundtrip:
  "TargetSetFractionalDifficulty (TargetGetFractionalDifficulty nBits) nBits = (True, nBits)"
proof -
  let ?r = "TargetSetFractionalDifficulty (TargetGetFractionalDifficulty nBits) nBits"
  have "unat (snd ?r) = unat nBits div 2 ^ 24 * 2 ^ 24 + frac_of (2 ^ 56 div (2 ^ 24 - unat nBits mod 2 ^ 24))"
    using set_fractional(2) [OF FD_range] by (simp only: unat_TargetGetFractionalDifficulty)
  also have "frac_of (2 ^ 56 div (2 ^ 24 - unat nBits mod 2 ^ 24)) = unat nBits mod 2 ^ 24"
    by (rule frac_of_FD) simp
  finally have "snd ?r = nBits" by (simp add: word_unat_eq_iff)
  moreover have "fst ?r" by (rule set_fractional(1) [OF FD_range])
  ultimately show ?thesis by (metis prod.collapse)
qed

text \<open>
  C12. The reward follows the rule \<^verbatim>\<open>mint = 999 / length^2\<close>: on every target of at least the
  minimum length, \<^verbatim>\<open>TargetGetMint\<close> succeeds with a whole number of cents that is the exact
  quotient \<open>999 COIN * (2 ^ 24 / nBits) ^ 2\<close> rounded down by at most a cent and a unit; it is at
  most 999 coins.
\<close>

theorem TargetGetMint_bounds:
  assumes "0 < nTargetMinLength P" "nTargetMinLength P \<le> TargetGetLength nBits"
  shows "\<exists>m. TargetGetMint P nBits = Inr (True, m) \<and> CENT dvd uint m \<and> uint m \<le> 999 * COIN \<and>
    uint m * (uint nBits)\<^sup>2 \<le> 999 * COIN * 2 ^ 48 \<and>
    999 * COIN * 2 ^ 48 < (uint m + CENT + 1) * (uint nBits)\<^sup>2"
proof -
  have "0 < unat (nTargetMinLength P)" using assms(1) by (simp add: word_less_nat_alt)
  note eq = TargetGetMint_eq [OF this assms(2)]
  let ?m = "mint_of (uint nBits)"
  note r = mint_of_range [OF eq(2)]
  have "unat (word_of_int ?m :: u64) = nat ?m" using r by (intro unat_word_of_int64) simp_all
  then have u: "uint (word_of_int ?m :: u64) = ?m" using r by (metis int_nat_eq uint_nat)
  show ?thesis
    using eq(1) u r mint_of_exact [OF eq(2)] by (auto simp: COIN_def mint_of_def)
qed

theorem TargetGetMint_bounds_witness:
  "\<exists>m. TargetGetMint mainnet_target 0x07000000 = Inr (True, m) \<and> CENT dvd uint m \<and> uint m \<le> 999 * COIN \<and>
    uint m * (uint (0x07000000 :: u32))\<^sup>2 \<le> 999 * COIN * 2 ^ 48 \<and>
    999 * COIN * 2 ^ 48 < (uint m + CENT + 1) * (uint (0x07000000 :: u32))\<^sup>2"
  by (rule TargetGetMint_bounds)
    (simp_all add: mainnet_target_def word_le_nat_alt word_less_nat_alt unat_TargetGetLength)

text \<open>
  C11. \<^verbatim>\<open>GetBlockWork\<close> never fails, is positive, and orders targets: among targets of at least
  the minimum length a larger \<^verbatim>\<open>nBits\<close> never counts as less work, also across a change of the
  length.
\<close>

theorem GetBlockWork_mono:
  assumes "nTargetMinLength P \<le> TargetGetLength b" "b \<le> b'"
  shows "\<exists>w w'. GetBlockWork P b = Inr w \<and> GetBlockWork P b' = Inr w' \<and> 256 \<le> w \<and> w \<le> w'"
proof -
  let ?l = "\<lambda>b::u32. unat b div 2 ^ 24" and ?m = "unat (nTargetMinLength P)"
  let ?fd = "\<lambda>b. uint (TargetGetFractionalDifficulty b)"
  let ?w = "\<lambda>b. 256 * 32 ^ (?l b - ?m) * (32 * ?fd b) div (31 * 2 ^ 32 + ?fd b)"
  have m: "?m \<le> ?l b" using assms(1) by (simp add: word_le_nat_alt unat_TargetGetLength)
  have l: "?l b \<le> ?l b'" using assms(2) by (intro div_le_mono) (simp add: word_le_nat_alt)
  have lo: "256 * 32 ^ (?l x - ?m) \<le> ?w x" for x
    using uint_FD_range [of x] by (intro work_bounds) simp_all
  have "?w b \<le> ?w b'"
  proof (cases "?l b = ?l b'")
    case True
    then show ?thesis using FD_mono [OF True assms(2)] by (simp only:) (intro work_mono_fd; simp)
  next
    case False
    have "?w b \<le> 256 * 32 ^ (?l b - ?m) * 32"
      using uint_FD_range [of b] by (intro work_bounds) simp_all
    also have "\<dots> = 256 * 32 ^ Suc (?l b - ?m)" by simp
    also have "\<dots> \<le> 256 * 32 ^ (?l b' - ?m)"
      using False l m by (intro mult_left_mono power_increasing) simp_all
    also have "\<dots> \<le> ?w b'" by (rule lo)
    finally show ?thesis .
  qed
  moreover have "256 \<le> ?w b"
    using lo [of b] by (rule order_trans [rotated]) (simp add: one_le_power)
  ultimately show ?thesis by (simp add: GetBlockWork_eq)
qed

theorem GetBlockWork_mono_witness:
  "\<exists>w w'. GetBlockWork mainnet_target 0x07FFFFFF = Inr w \<and> GetBlockWork mainnet_target 0x08000000 = Inr w'
     \<and> 256 \<le> w \<and> w \<le> w'"
  by (rule GetBlockWork_mono) (simp_all add: mainnet_target_def word_le_nat_alt unat_TargetGetLength)

text \<open>
  C18. \<^verbatim>\<open>IsSuperMajority\<close>, which stops as soon as enough blocks are found, decides whether at
  least \<^verbatim>\<open>nRequired\<close> of the last \<^verbatim>\<open>nToCheck\<close> blocks have the version.
\<close>

theorem IsSuperMajority_iff:
  "IsSuperMajority v chain nRequired nToCheck \<longleftrightarrow>
   nRequired \<le> length (filter (\<lambda>b. bi_nVersion b \<ge> v) (take nToCheck chain))"
  by (simp add: IsSuperMajority_def IsSuperMajority_loop_eq)

end
