(* ===== verification/PrimeTable.thy ===== *)
theory PrimeTable
  imports BigNum
begin

text \<open>
  The table of small primes of \<^verbatim>\<open>src/src/prime.cpp\<close> (lines 11 to 86 and 284 to 295).  The
  global vector \<^verbatim>\<open>vPrimes\<close> is a list of naturals, an argument of the functions that read
  it.  \<^verbatim>\<open>GeneratePrimeTable\<close> is stated for an arbitrary limit, which the program fixes to
  \<^verbatim>\<open>nPrimeTableLimit\<close>; its factors stay below 1000, so the 32 bit products are exact.
\<close>

section \<open>Definitions\<close>

definition nMaxSieveSize :: nat where
  "nMaxSieveSize = 1000000"

definition nPrimeTableLimit :: nat where
  "nPrimeTableLimit = nMaxSieveSize"

text \<open>
  The inner loop: mark \<open>n\<close>, \<open>n + f\<close>, and so on, below the limit.  The factor is never 0 in
  the program; the guard makes the definition total.
\<close>

function mark_multiples :: "nat \<Rightarrow> nat \<Rightarrow> nat \<Rightarrow> bool list \<Rightarrow> bool list" where
  "mark_multiples L f n vf =
     (if f = 0 \<or> L \<le> n then vf else mark_multiples L f (n + f) (vf[n := True]))"
  by auto
termination
  by (relation "measure (\<lambda>(L, f, n, vf). L - n)") auto

declare mark_multiples.simps [simp del]

function sieve_loop :: "nat \<Rightarrow> nat \<Rightarrow> bool list \<Rightarrow> bool list" where
  "sieve_loop L nFactor vfComposite =
     (if nFactor * nFactor < L
      then sieve_loop L (nFactor + 1)
             (if vfComposite ! nFactor then vfComposite
              else mark_multiples L nFactor (nFactor * nFactor) vfComposite)
      else vfComposite)"
  by auto
termination
proof (relation "measure (\<lambda>(L, f, vf). L - f)")
  fix L f :: nat and vf :: "bool list"
  assume "f * f < L"
  then have "f < L" by (meson le_less_trans le_square)
  then show "((L, f + 1, if vf ! f then vf else mark_multiples L f (f * f) vf), L, f, vf)
      \<in> measure (\<lambda>(L, f, vf). L - f)" by simp
qed auto

declare sieve_loop.simps [simp del]

definition GeneratePrimeTable :: "nat \<Rightarrow> nat list" where
  "GeneratePrimeTable L =
     (let vfComposite = sieve_loop L 2 (replicate L False)
      in filter (\<lambda>n. \<not> vfComposite ! n) [2..<L])"

fun PrimeTableGetNextPrime :: "nat list \<Rightarrow> nat \<Rightarrow> bool \<times> nat" where
  "PrimeTableGetNextPrime [] p = (False, p)"
| "PrimeTableGetNextPrime (nPrime # vPrimes) p =
     (if nPrime > p then (True, nPrime) else PrimeTableGetNextPrime vPrimes p)"

fun prev_prime_loop :: "nat list \<Rightarrow> nat \<Rightarrow> nat \<Rightarrow> nat" where
  "prev_prime_loop [] p nPrevPrime = nPrevPrime"
| "prev_prime_loop (nPrime # vPrimes) p nPrevPrime =
     (if nPrime \<ge> p then nPrevPrime else prev_prime_loop vPrimes p nPrime)"

definition PrimeTableGetPreviousPrime :: "nat list \<Rightarrow> nat \<Rightarrow> bool \<times> nat" where
  "PrimeTableGetPreviousPrime vPrimes p =
     (let nPrevPrime = prev_prime_loop vPrimes p 0
      in if nPrevPrime \<noteq> 0 then (True, nPrevPrime) else (False, p))"

fun primorial_loop :: "nat list \<Rightarrow> nat \<Rightarrow> int \<Rightarrow> int" where
  "primorial_loop [] p bnPrimorial = bnPrimorial"
| "primorial_loop (nPrime # vPrimes) p bnPrimorial =
     (if nPrime > p then bnPrimorial else primorial_loop vPrimes p (bnPrimorial * int nPrime))"

definition Primorial :: "nat list \<Rightarrow> nat \<Rightarrow> int" where
  "Primorial vPrimes p = primorial_loop vPrimes p 1"

fun primorial_at_loop :: "nat list \<Rightarrow> int \<Rightarrow> int \<Rightarrow> int" where
  "primorial_at_loop [] bn bnPrimorial = bnPrimorial"
| "primorial_at_loop (nPrime # vPrimes) bn bnPrimorial =
     (let bnPrimorial = bnPrimorial * int nPrime
      in if bnPrimorial \<ge> bn then bnPrimorial else primorial_at_loop vPrimes bn bnPrimorial)"

definition PrimorialAt :: "nat list \<Rightarrow> int \<Rightarrow> int" where
  "PrimorialAt vPrimes bn = primorial_at_loop vPrimes bn 1"

text \<open>
  \<^verbatim>\<open>GetPrimeOriginPrimorialForm\<close>: divide out the primes of the table in order, while they
  divide; \<open>q\<close> is the last prime that was divided out.
\<close>

fun origin_form_loop :: "nat list \<Rightarrow> int \<Rightarrow> nat \<Rightarrow> int \<times> nat" where
  "origin_form_loop [] bn q = (bn, q)"
| "origin_form_loop (p # vPrimes) bn q =
     (if bn smod int p = 0 then origin_form_loop vPrimes (bn sdiv int p) p else (bn, q))"

definition GetPrimeOriginPrimorialForm :: "nat list \<Rightarrow> int \<Rightarrow> string" where
  "GetPrimeOriginPrimorialForm vPrimes bnPrimeChainOrigin =
     (let (bn, p) = origin_form_loop vPrimes bnPrimeChainOrigin 0
      in bn_ToString 10 bn @ ''*'' @ bn_ToString 10 (int p) @ ''#'')"

text \<open>Primality, as the specification of the table.\<close>

definition is_prime :: "nat \<Rightarrow> bool" where
  "is_prime p \<longleftrightarrow> 1 < p \<and> (\<forall>d. d dvd p \<longrightarrow> d = 1 \<or> d = p)"

text \<open>\<open>n\<close> has a divisor between 2 and its square root that is below \<open>f\<close>.\<close>

definition small_divisor :: "nat \<Rightarrow> nat \<Rightarrow> bool" where
  "small_divisor f n \<longleftrightarrow> (\<exists>d\<ge>2. d < f \<and> d * d \<le> n \<and> d dvd n)"

section \<open>The sieve\<close>

lemma length_mark_multiples [simp]: "length (mark_multiples L f n vf) = length vf"
  by (induction L f n vf rule: mark_multiples.induct) (subst mark_multiples.simps, simp)

lemma nth_mark_multiples:
  assumes "0 < f" "L \<le> length vf" "i < L"
  shows "mark_multiples L f n vf ! i \<longleftrightarrow> vf ! i \<or> (n \<le> i \<and> f dvd (i - n))"
  using assms
proof (induction L f n vf rule: mark_multiples.induct)
  case (1 L f n vf)
  show ?case
  proof (cases "L \<le> n")
    case True
    then show ?thesis using 1(4) by (subst mark_multiples.simps) simp
  next
    case False
    have IH: "mark_multiples L f (n + f) (vf[n := True]) ! i \<longleftrightarrow>
        vf[n := True] ! i \<or> (n + f \<le> i \<and> f dvd (i - (n + f)))"
      using 1 False by simp
    have d: "f dvd (i - n) \<longleftrightarrow> i = n \<or> (n + f \<le> i \<and> f dvd (i - (n + f)))" if "n \<le> i"
    proof -
      have "f dvd (i - n) \<longleftrightarrow> f dvd (i - n - f)" if "n + f \<le> i"
        using that dvd_minus_self [of f "i - n"] by auto
      moreover have "\<not> f dvd (i - n)" if "n < i" "i < n + f"
        using that \<open>n \<le> i\<close> by (intro nat_dvd_not_less) simp_all
      ultimately show ?thesis using that by (cases "n + f \<le> i") (auto simp: le_less)
    qed
    show ?thesis
      using IH d False 1(2-4) by (subst mark_multiples.simps) (auto simp: nth_list_update)
  qed
qed

lemma small_divisor_Suc:
  "small_divisor (Suc f) n \<longleftrightarrow> small_divisor f n \<or> (2 \<le> f \<and> f * f \<le> n \<and> f dvd n)"
  by (auto simp: small_divisor_def less_Suc_eq)

lemma small_divisor_composite:
  assumes "small_divisor f f" "f * f \<le> n" "f dvd n"
  shows "small_divisor f n"
proof -
  obtain d where d: "2 \<le> d" "d < f" "d * d \<le> f" "d dvd f"
    using assms(1) by (auto simp: small_divisor_def)
  have "d * d \<le> n" using mult_le_mono [of d f d f] d(2) assms(2) by linarith
  with d assms(3) show ?thesis unfolding small_divisor_def by (meson dvd_trans)
qed

lemma sieve_loop_correct:
  assumes "2 \<le> f" "length vf = L" "\<And>n. n < L \<Longrightarrow> vf ! n \<longleftrightarrow> small_divisor f n"
  shows "n < L \<Longrightarrow> sieve_loop L f vf ! n \<longleftrightarrow> (\<exists>d\<ge>2. d * d \<le> n \<and> d dvd n)"
  using assms
proof (induction L f vf arbitrary: n rule: sieve_loop.induct)
  case (1 L f vf)
  show ?case
  proof (cases "f * f < L")
    case False
    then have "d < f" if "d * d \<le> n" for d
      using that \<open>n < L\<close> by (meson le_less_trans less_le_trans mult_le_mono not_le)
    then show ?thesis
      using False 1(2,5) by (subst sieve_loop.simps) (auto simp: small_divisor_def)
  next
    case True
    then have "f < L" by (meson le_less_trans le_square)
    define vf' where "vf' = (if vf ! f then vf else mark_multiples L f (f * f) vf)"
    have "vf' ! i \<longleftrightarrow> small_divisor (Suc f) i" if "i < L" for i
    proof (cases "vf ! f")
      case True
      then show ?thesis
        using 1(5) [OF \<open>f < L\<close>] 1(5) [OF that] small_divisor_composite
        by (auto simp: vf'_def small_divisor_Suc)
    next
      case False
      have "f dvd (i - f * f) \<longleftrightarrow> f dvd i" if "f * f \<le> i"
        using that by (metis dvd_add_right_iff dvd_triv_left le_add_diff_inverse)
      with False show ?thesis
        using 1(3-5) that by (auto simp: vf'_def small_divisor_Suc nth_mark_multiples)
    qed
    moreover have "length vf' = L" using 1(4) by (simp add: vf'_def)
    ultimately show ?thesis
      using 1(1) [OF True, of n] 1(2,3) True by (subst sieve_loop.simps) (simp add: vf'_def)
  qed
qed

lemma is_prime_iff_small:
  assumes "2 \<le> n"
  shows "is_prime n \<longleftrightarrow> \<not> (\<exists>d\<ge>2. d * d \<le> n \<and> d dvd n)"
proof
  assume p: "is_prime n"
  show "\<not> (\<exists>d\<ge>2. d * d \<le> n \<and> d dvd n)"
  proof (intro notI, elim exE conjE)
    fix d assume d: "2 \<le> d" "d * d \<le> n" "d dvd n"
    then have "d = n" using p by (auto simp: is_prime_def)
    with d show False by simp
  qed
next
  assume s: "\<not> (\<exists>d\<ge>2. d * d \<le> n \<and> d dvd n)"
  have "d = 1 \<or> d = n" if d: "d dvd n" for d
  proof (rule ccontr)
    assume "\<not> (d = 1 \<or> d = n)"
    obtain e where e: "n = d * e" using d by blast
    have "2 \<le> d" "2 \<le> e"
      using e assms \<open>\<not> (d = 1 \<or> d = n)\<close> by (cases d; cases e; simp_all)+
    moreover have "d * d \<le> n \<or> e * e \<le> n"
      using e by (cases "d \<le> e") simp_all
    ultimately show False using s e by (metis dvd_triv_left dvd_triv_right)
  qed
  then show "is_prime n" using assms by (simp add: is_prime_def)
qed

lemma GeneratePrimeTable_eq: "GeneratePrimeTable L = filter is_prime [2..<L]"
proof -
  have "\<not> small_divisor 2 n" for n by (auto simp: small_divisor_def)
  then have "sieve_loop L 2 (replicate L False) ! n \<longleftrightarrow> (\<exists>d\<ge>2. d * d \<le> n \<and> d dvd n)" if "n < L" for n
    using that by (intro sieve_loop_correct) simp_all
  then show ?thesis
    unfolding GeneratePrimeTable_def Let_def
    by (intro filter_cong) (simp_all add: is_prime_iff_small)
qed

section \<open>Reading the table\<close>

lemma NextPrime_sorted:
  assumes "sorted_wrt (<) ps"
  shows "PrimeTableGetNextPrime ps p =
    (if \<exists>q\<in>set ps. p < q then (True, Min {q \<in> set ps. p < q}) else (False, p))"
  using assms
proof (induction ps)
  case (Cons x ps)
  show ?case
  proof (cases "p < x")
    case True
    then have "Min {q \<in> set (x # ps). p < q} = x"
      using Cons.prems by (intro Min_eqI) auto
    with True show ?thesis by auto
  next
    case False
    then have "{q \<in> set (x # ps). p < q} = {q \<in> set ps. p < q}" by auto
    with False Cons show ?thesis by simp
  qed
qed simp

lemma prev_prime_loop_sorted:
  assumes "sorted_wrt (<) ps" "\<forall>x\<in>set ps. q < x"
  shows "prev_prime_loop ps p q = Max (insert q {x \<in> set ps. x < p})"
  using assms
proof (induction ps arbitrary: q)
  case (Cons x ps)
  show ?case
  proof (cases "p \<le> x")
    case True
    then have e: "{y \<in> set (x # ps). y < p} = {}" using Cons.prems by auto
    show ?thesis unfolding e using True by simp
  next
    case False
    then have e: "insert q {y \<in> set (x # ps). y < p} = insert q (insert x {y \<in> set ps. y < p})" by auto
    have "Max (insert q (insert x {y \<in> set ps. y < p})) = Max (insert x {y \<in> set ps. y < p})"
      using Cons.prems by (subst Max_insert) (auto simp: max_def not_le intro: less_le_trans)
    with False Cons e show ?thesis by simp
  qed
qed simp

lemma primorial_loop_sorted:
  "sorted_wrt (<) ps \<Longrightarrow> primorial_loop ps p a = a * int (prod_list (filter (\<lambda>q. q \<le> p) ps))"
proof (induction ps arbitrary: a)
  case (Cons x ps)
  show ?case
  proof (cases "p < x")
    case True
    then have "filter (\<lambda>q. q \<le> p) (x # ps) = []" using Cons.prems by (auto simp: filter_empty_conv)
    with True show ?thesis by simp
  next
    case False
    with Cons show ?thesis by simp
  qed
qed simp

section \<open>Properties\<close>

text \<open>
  C5. \<^verbatim>\<open>GeneratePrimeTable\<close> is the sieve of Eratosthenes: for every limit the table holds
  exactly the primes below the limit, in increasing order and without repetition.
\<close>

theorem GeneratePrimeTable_primes:
  "set (GeneratePrimeTable L) = {p. is_prime p \<and> p < L} \<and> sorted_wrt (<) (GeneratePrimeTable L)"
proof -
  have "2 \<le> p" if "is_prime p" for p using that by (simp add: is_prime_def)
  moreover have "sorted_wrt (<) (filter is_prime [2..<L])"
    by (intro sorted_wrt_filter) simp
  ultimately show ?thesis unfolding GeneratePrimeTable_eq by auto
qed

text \<open>
  C6. On the generated table, \<^verbatim>\<open>PrimeTableGetNextPrime\<close> finds the least prime above \<open>p\<close> and
  \<^verbatim>\<open>PrimeTableGetPreviousPrime\<close> the greatest prime below \<open>p\<close>, and they fail exactly when the
  table has none; \<^verbatim>\<open>Primorial\<close> is the product of the primes up to \<open>p\<close>.
\<close>

theorem prime_table_queries:
  fixes L p :: nat
  defines "up \<equiv> {q. is_prime q \<and> q < L \<and> p < q}" and "down \<equiv> {q. is_prime q \<and> q < L \<and> q < p}"
  shows "PrimeTableGetNextPrime (GeneratePrimeTable L) p = (if up = {} then (False, p) else (True, Min up)) \<and>
    PrimeTableGetPreviousPrime (GeneratePrimeTable L) p = (if down = {} then (False, p) else (True, Max down)) \<and>
    Primorial (GeneratePrimeTable L) p = int (\<Prod>{q. is_prime q \<and> q < L \<and> q \<le> p})"
proof (intro conjI)
  let ?ps = "GeneratePrimeTable L"
  have pos: "1 < q" if "is_prime q" for q using that by (simp add: is_prime_def)
  have set: "set ?ps = {q. is_prime q \<and> q < L}"
    unfolding GeneratePrimeTable_eq using pos by (auto simp: Suc_le_eq numeral_2_eq_2)
  have sorted: "sorted_wrt (<) ?ps" unfolding GeneratePrimeTable_eq by (intro sorted_wrt_filter) simp
  have u: "{q \<in> set ?ps. p < q} = up" and d: "{q \<in> set ?ps. q < p} = down"
    by (auto simp: set up_def down_def)
  have "(\<exists>q\<in>set ?ps. p < q) \<longleftrightarrow> up \<noteq> {}" unfolding u [symmetric] by blast
  then show "PrimeTableGetNextPrime ?ps p = (if up = {} then (False, p) else (True, Min up))"
    unfolding NextPrime_sorted [OF sorted] u by simp
  have fin: "finite down" by (simp add: down_def)
  have "prev_prime_loop ?ps p 0 = Max (insert 0 down)"
    unfolding d [symmetric] using pos by (intro prev_prime_loop_sorted [OF sorted]) (auto simp: set intro: gr0I)
  moreover have "Max (insert 0 down) = Max down" "0 < Max down" if "down \<noteq> {}"
    using Max_insert [OF fin that, of 0] Max_in [OF fin that] pos by (auto simp: down_def dest: pos)
  ultimately show "PrimeTableGetPreviousPrime ?ps p = (if down = {} then (False, p) else (True, Max down))"
    by (simp add: PrimeTableGetPreviousPrime_def)
  have "set (filter (\<lambda>q. q \<le> p) ?ps) = {q. is_prime q \<and> q < L \<and> q \<le> p}" by (auto simp: set)
  moreover have "distinct (filter (\<lambda>q. q \<le> p) ?ps)"
    using sorted by (simp add: strict_sorted_iff)
  ultimately show "Primorial ?ps p = int (\<Prod>{q. is_prime q \<and> q < L \<and> q \<le> p})"
    unfolding Primorial_def primorial_loop_sorted [OF sorted]
    by (metis mult_1 prod.distinct_set_conv_list image_ident list.map_ident)
qed

end
