(* ===== verification/Orders.thy ===== *)
theory Orders
  imports Prelude
begin

text \<open>
  Facts on the multiplicative order of a number modulo another, which the termination of the
  prime chain test rests on.  Congruences are written as divisibilities of natural numbers.
\<close>

section \<open>Definitions\<close>

text \<open>The multiplicative order of \<open>b\<close> modulo \<open>N\<close>: the least positive exponent that gives 1.\<close>

definition mult_order :: "nat \<Rightarrow> nat \<Rightarrow> nat" where
  "mult_order b N = (LEAST m. 0 < m \<and> N dvd b ^ m - 1)"

section \<open>Orders\<close>

lemma pow_collision:
  assumes "coprime b N" "1 < (N::nat)"
  shows "\<exists>m. 0 < m \<and> m < N \<and> N dvd b ^ m - 1"
proof -
  let ?f = "\<lambda>i. b ^ i mod N"
  have cop: "coprime (b ^ i) N" for i using assms(1) by simp
  have nz: "?f i \<noteq> 0" for i
    using cop [of i] assms(2) by (metis coprime_common_divisor_nat dvd_refl mod_0_imp_dvd nat_less_le)
  have "?f ` {..<N} \<subseteq> {1..<N}" using nz assms(2) by (auto simp: Suc_le_eq intro: gr0I)
  then have "card (?f ` {..<N}) \<le> card {1..<N}" by (rule card_mono [rotated]) simp
  then have "\<not> inj_on ?f {..<N}" using assms(2) by (intro pigeonhole) simp
  then obtain i j where ij: "i < j" "j < N" "?f i = ?f j"
    unfolding inj_on_def by (metis lessThan_iff linorder_neqE_nat)
  have "b ^ i \<le> b ^ j" using ij(1) assms by (cases "b = 0") (auto intro: power_increasing)
  then have "N dvd b ^ j - b ^ i" using ij(3) by (metis mod_eq_dvd_iff_nat)
  also have "b ^ j - b ^ i = b ^ i * (b ^ (j - i) - 1)"
    using ij(1) by (simp add: diff_mult_distrib2 flip: power_add)
  finally have "N dvd b ^ (j - i) - 1"
    using cop [of i] by (metis coprime_commute coprime_dvd_mult_right_iff)
  with ij show ?thesis by (intro exI [of _ "j - i"]) auto
qed

lemma mult_order:
  assumes "coprime b N" "1 < N"
  shows "0 < mult_order b N" "N dvd b ^ mult_order b N - 1" "mult_order b N < N"
proof -
  obtain m where m: "0 < m \<and> N dvd b ^ m - 1" "m < N" using pow_collision [OF assms] by blast
  then show "0 < mult_order b N" "N dvd b ^ mult_order b N - 1"
    unfolding mult_order_def using LeastI [of "\<lambda>m. 0 < m \<and> N dvd b ^ m - 1", OF m(1)] by auto
  show "mult_order b N < N"
    unfolding mult_order_def using Least_le [of "\<lambda>m. 0 < m \<and> N dvd b ^ m - 1", OF m(1)] m(2) by simp
qed

lemma pow_minus_one_dvd: "(b::nat) ^ m - 1 dvd b ^ (m * t) - 1"
proof (induction t)
  case (Suc t)
  show ?case
  proof (cases "b = 0")
    case False
    have "b ^ (m * Suc t) - 1 = b ^ m * (b ^ (m * t) - 1) + (b ^ m - 1)"
      using False by (simp add: power_add diff_mult_distrib2)
    then show ?thesis using Suc by simp
  qed (cases m; simp)
qed simp

lemma mult_order_dvd:
  assumes "coprime b N" "1 < N" "N dvd b ^ e - 1" "0 < b"
  shows "mult_order b N dvd e"
proof -
  let ?m = "mult_order b N"
  note m = mult_order [OF assms(1,2)]
  define s where "s = e mod ?m"
  have e: "e = ?m * (e div ?m) + s" by (simp add: s_def)
  have "b ^ e - 1 = b ^ s * (b ^ (?m * (e div ?m)) - 1) + (b ^ s - 1)"
    using assms(4) by (subst e) (simp add: power_add diff_mult_distrib2 mult.commute)
  moreover have "N dvd b ^ s * (b ^ (?m * (e div ?m)) - 1)"
    using m(2) pow_minus_one_dvd dvd_trans by (metis dvd_mult)
  ultimately have "N dvd b ^ s - 1" using assms(3) by (metis dvd_add_right_iff)
  moreover have "s < ?m" using m(1) by (simp add: s_def)
  ultimately have "s = 0"
    unfolding mult_order_def using not_less_Least [of s "\<lambda>m. 0 < m \<and> N dvd b ^ m - 1"]
    by auto
  then show ?thesis by (simp add: s_def mod_0_imp_dvd)
qed

text \<open>An odd number that divides \<open>4 ^ u - 1\<close> for itself as \<open>u\<close> is a multiple of 3.\<close>

lemma three_dvd:
  assumes "odd u" "1 < u" "u dvd 4 ^ u - 1"
  shows "3 dvd (u::nat)"
proof -
  define p where "p = (LEAST d. 1 < d \<and> d dvd u)"
  have p: "1 < p \<and> p dvd u" unfolding p_def by (rule LeastI [of _ u]) (use assms in simp)
  have least: "d = 1" if "d dvd u" "d < p" for d
    using not_less_Least [of d "\<lambda>d. 1 < d \<and> d dvd u"] that assms(2) unfolding p_def
    by (cases "d = 0") auto
  have "odd p" using p assms(1) by (metis dvd_trans)
  then have cop: "coprime 4 p"
    using coprime_power_left_iff [of 2 2 p] by simp
  have "p dvd 4 ^ u - 1" using p assms(3) dvd_trans by blast
  then have "mult_order 4 p dvd u" using cop p by (intro mult_order_dvd) auto
  then have "mult_order 4 p = 1" using least mult_order(3) [OF cop] p by blast
  then have "p dvd 3" using mult_order(2) [OF cop] p by simp
  then have "p \<le> 3" by (rule dvd_imp_le) simp
  then have "p = 3" using p \<open>odd p\<close> by (cases "p = 2") auto
  then show ?thesis using p by simp
qed

lemma order_key:
  assumes "m dvd 2 * (2 ^ m - 1)" "\<not> 4 dvd m" "N dvd 2 ^ m - (1::nat)" "0 < m"
  shows "N dvd 3 \<or> 3 dvd m"
proof (cases "odd m")
  case True
  have "m dvd 2 ^ m - 1"
    using True assms(1) by (metis coprime_dvd_mult_right_iff coprime_right_2_iff_odd)
  moreover have "2 ^ m - 1 dvd 4 ^ m - (1::nat)"
  proof -
    have "(4::nat) ^ m = (2 ^ 2) ^ m" by simp
    also have "\<dots> = 2 ^ (m * 2)" by (simp only: power_mult [symmetric] mult.commute)
    finally show ?thesis using pow_minus_one_dvd [of 2 m 2] by simp
  qed
  ultimately have "m dvd 4 ^ m - 1" using dvd_trans by blast
  then show ?thesis
    using True three_dvd [of m] assms(3,4) by (cases "m = 1") auto
next
  case False
  then obtain u where u: "m = 2 * u" by blast
  have "odd u" using assms(2) u by auto
  have "2 * u dvd 2 * (2 ^ m - 1)" using assms(1) unfolding u .
  then have "u dvd 4 ^ u - 1" unfolding u by (simp add: power_mult)
  then show ?thesis
    using three_dvd [OF \<open>odd u\<close>] assms(3,4) u by (cases "u = 1") (auto simp: dvd_mult)
qed

section \<open>Chains of the first kind are finite\<close>

text \<open>
  If a member \<open>N = 2 ^ k * M - 1\<close> of a chain and the member one order of 2 further both pass
  the Fermat test, then \<open>N - 1\<close> is a multiple of 3.
\<close>

lemma fermat_members_three:
  fixes k M :: nat
  defines "N \<equiv> 2 ^ k * M - 1"
  defines "m \<equiv> mult_order 2 N"
  assumes "2 \<le> k" "0 < M" "3 < N" "N dvd 2 ^ (N - 1) - 1"
    and far: "2 ^ (k + m) * M - 1 dvd 2 ^ (2 ^ (k + m) * M - 2) - 1"
  shows "3 dvd N - 1"
proof -
  obtain j where k: "k = Suc (Suc j)" using assms(3) by (metis Suc_le_D numeral_2_eq_2 Suc_le_mono)
  have NM: "2 ^ k * M = N + 1" using assms(4) by (simp add: N_def)
  have "odd N" using NM k by (metis dvd_mult2 even_Suc even_numeral even_power Suc_eq_plus1 zero_less_Suc)
  then have cop: "coprime 2 N" "1 < N" using assms(5) by simp_all
  note mm = mult_order [OF cop, folded m_def]
  have m1: "m dvd N - 1" unfolding m_def using cop assms(6) by (intro mult_order_dvd) simp_all
  define N' where "N' = 2 ^ (k + m) * M - 1"
  have pm: "2 ^ (k + m) * M = 2 ^ m * (N + 1)"
    unfolding NM [symmetric] by (simp add: power_add)
  have N': "N' = 2 ^ m * N + (2 ^ m - 1)"
    unfolding N'_def pm by (simp add: distrib_left)
  have "N dvd N'" unfolding N' by (intro dvd_add dvd_triv_right mm(2))
  then have "N dvd 2 ^ (2 ^ (k + m) * M - 2) - 1" using far dvd_trans unfolding N'_def by blast
  then have "m dvd 2 ^ (k + m) * M - 2" unfolding m_def using cop by (intro mult_order_dvd) simp_all
  also have "2 ^ (k + m) * M - 2 = 2 ^ m * (N - 1) + 2 * (2 ^ m - 1)"
  proof -
    have "2 ^ m * (N + 1) = 2 ^ m * (N - 1) + 2 * 2 ^ m" using cop by (cases N) (simp_all add: algebra_simps)
    then show ?thesis unfolding pm by (simp add: diff_mult_distrib2)
  qed
  finally have m2: "m dvd 2 * (2 ^ m - 1)" using m1 by (metis dvd_add_right_iff dvd_mult)
  have "\<not> 4 dvd m"
  proof
    assume "4 dvd m"
    then have "4 dvd N - 1" using m1 dvd_trans by blast
    moreover have "4 dvd N + 1" unfolding NM [symmetric] k by simp
    ultimately have "4 dvd (N + 1) - (N - 1)" by (rule dvd_diff_nat [rotated])
    then show False using cop by simp
  qed
  then have "N dvd 3 \<or> 3 dvd m" using order_key [OF m2 _ mm(2) mm(1)] by simp
  then show ?thesis using m1 assms(5) by (auto dest: dvd_imp_le intro: dvd_trans)
qed

lemma chain_finite:
  assumes "0 < M"
  shows "\<exists>k\<ge>K. \<not> (2 ^ k * M - 1 dvd 2 ^ (2 ^ k * M - 2) - (1::nat))"
proof (rule ccontr)
  assume "\<not> ?thesis"
  then have all: "2 ^ k * M - 1 dvd 2 ^ (2 ^ k * M - 2) - (1::nat)" if "K \<le> k" for k using that by blast
  define k where "k = max K 3"
  let ?N = "\<lambda>k. 2 ^ k * M - 1"
  have big: "3 < ?N i" if "3 \<le> i" for i
  proof -
    have "(2::nat) ^ 3 \<le> 2 ^ i" using that by (rule power_increasing) simp
    then have "2 ^ 3 * 1 \<le> 2 ^ i * M" using assms by (intro mult_le_mono) simp_all
    then show ?thesis by simp
  qed
  have three: "3 dvd ?N i - 1" if "k \<le> i" for i
    using that assms big [of i] all [of i] all [of "i + mult_order 2 (?N i)"]
    by (intro fermat_members_three) (auto simp: k_def numeral_2_eq_2)
  have "?N (Suc k) - 1 = 2 * ?N k" by (simp add: diff_mult_distrib2)
  then have "3 dvd 2 * ?N k" using three [of "Suc k"] by simp
  then have "3 dvd ?N k" by (simp add: coprime_dvd_mult_right_iff)
  then have "3 dvd ?N k - (?N k - 1)" using three [of k] by (rule dvd_diff_nat) simp
  then show False using big [of k] by (simp add: k_def)
qed

end
