(* ===== verification/PrimeChain.thy ===== *)
theory PrimeChain
  imports Target PrimeTable Orders
begin

text \<open>
  The probable prime chain tests and the proof-of-work check of \<^verbatim>\<open>src/src/prime.cpp\<close>
  (lines 88 to 144, 297 to 438 and 469 to 518).  OpenSSL's \<^verbatim>\<open>BN_mod_exp\<close> is the parameter
  \<open>me\<close>; its documented behaviour is the hypothesis \<^verbatim>\<open>mod_exp_law\<close>.  The tests return the
  result and the updated \<^verbatim>\<open>nLength\<close>, or the exception that a division by zero throws.  The
  loop of \<^verbatim>\<open>ProbableCunninghamChainTest\<close> has no bound, so it is a \<open>partial_function\<close>
  whose value is \<open>None\<close> when it runs forever.
\<close>

section \<open>Definitions\<close>

type_synonym mod_exp = "int \<Rightarrow> int \<Rightarrow> int \<Rightarrow> int"

definition mod_exp_law :: "mod_exp \<Rightarrow> bool" where
  "mod_exp_law me \<longleftrightarrow> (\<forall>a e m. 0 \<le> a \<longrightarrow> 0 \<le> e \<longrightarrow> 0 < m \<longrightarrow> me a e m = a ^ nat e mod m)"

text \<open>The part both tests share once the Fermat remainder \<open>r\<close> is known to differ from 1.\<close>

definition fractional_length :: "int \<Rightarrow> int \<Rightarrow> u32 \<Rightarrow> (bool \<times> u32) res" where
  "fractional_length n r nLength =
     rbind (bn_div (bn_lshift (n - r) nFractionalBits) n) (\<lambda>q.
     let nFractionalLength = bn_getuint q
     in if nFractionalLength \<ge> push_bit nFractionalBits 1 then Inr (False, nLength)
        else Inr (False, (nLength AND TARGET_LENGTH_MASK) OR nFractionalLength))"

definition FermatProbablePrimalityTest :: "mod_exp \<Rightarrow> int \<Rightarrow> u32 \<Rightarrow> (bool \<times> u32) res" where
  "FermatProbablePrimalityTest me n nLength =
     (let r = me 2 (n - 1) n
      in if r = 1 then Inr (True, nLength) else fractional_length n r nLength)"

definition EulerLagrangeLifchitzPrimalityTest ::
  "mod_exp \<Rightarrow> int \<Rightarrow> bool \<Rightarrow> u32 \<Rightarrow> (bool \<times> u32) res" where
  "EulerLagrangeLifchitzPrimalityTest me n fSophieGermain nLength =
     (let e = bn_rshift (n - 1) 1;
          r = me 2 e n
      in rbind (bn_mod n 8) (\<lambda>nMod8.
         let passed =
           (if fSophieGermain \<and> nMod8 = 7 then Some (r = 1)
            else if fSophieGermain \<and> nMod8 = 3 then Some (r + 1 = n)
            else if \<not> fSophieGermain \<and> nMod8 = 5 then Some (r + 1 = n)
            else if \<not> fSophieGermain \<and> nMod8 = 1 then Some (r = 1)
            else None)
         in case passed of
              None \<Rightarrow> Inr (False, nLength)
            | Some fPassedTest \<Rightarrow>
                if fPassedTest then Inr (True, nLength)
                else rbind (bn_mod (r * r) n) (\<lambda>r. fractional_length n r nLength)))"

text \<open>The test of one further member of the chain.\<close>

definition chain_member_test :: "mod_exp \<Rightarrow> bool \<Rightarrow> bool \<Rightarrow> int \<Rightarrow> u32 \<Rightarrow> (bool \<times> u32) res" where
  "chain_member_test me fSophieGermain fFermatTest N nLength =
     (if fFermatTest then FermatProbablePrimalityTest me N nLength
      else EulerLagrangeLifchitzPrimalityTest me N fSophieGermain nLength)"

definition next_member :: "bool \<Rightarrow> int \<Rightarrow> int" where
  "next_member fSophieGermain N = N + N + (if fSophieGermain then 1 else -1)"

partial_function (option) cunningham_loop ::
  "mod_exp \<Rightarrow> bool \<Rightarrow> bool \<Rightarrow> int \<Rightarrow> u32 \<Rightarrow> u32 res option" where
  "cunningham_loop me fSophieGermain fFermatTest N nLength =
     (let nLength = TargetIncrementLength nLength;
          N = next_member fSophieGermain N
      in case chain_member_test me fSophieGermain fFermatTest N nLength of
           Inl e \<Rightarrow> Some (Inl e)
         | Inr (ok, nLength) \<Rightarrow>
             if ok then cunningham_loop me fSophieGermain fFermatTest N nLength
             else Some (Inr nLength))"

definition ProbableCunninghamChainTest ::
  "mod_exp \<Rightarrow> int \<Rightarrow> bool \<Rightarrow> bool \<Rightarrow> (bool \<times> u32) res option" where
  "ProbableCunninghamChainTest me n fSophieGermain fFermatTest =
     (case FermatProbablePrimalityTest me n 0 of
        Inl e \<Rightarrow> Some (Inl e)
      | Inr (ok, nLength) \<Rightarrow>
          if \<not> ok then Some (Inr (False, nLength))
          else case cunningham_loop me fSophieGermain fFermatTest n nLength of
                 None \<Rightarrow> None
               | Some (Inl e) \<Rightarrow> Some (Inl e)
               | Some (Inr nLength) \<Rightarrow> Some (Inr (TargetGetLength nLength \<ge> 2, nLength)))"

text \<open>Sequencing for computations that may throw or not return.\<close>

definition obind :: "'a res option \<Rightarrow> ('a \<Rightarrow> 'b res option) \<Rightarrow> 'b res option" where
  "obind m f = (case m of None \<Rightarrow> None | Some (Inl e) \<Rightarrow> Some (Inl e) | Some (Inr x) \<Rightarrow> f x)"

definition bitwin_length :: "u32 \<Rightarrow> u32 \<Rightarrow> u32" where
  "bitwin_length l1 l2 =
     (if TargetGetLength l1 > TargetGetLength l2
      then l2 + TargetFromInt (TargetGetLength l2 + 1)
      else l1 + TargetFromInt (TargetGetLength l1))"

definition ProbablePrimeChainTest ::
  "mod_exp \<Rightarrow> int \<Rightarrow> u32 \<Rightarrow> bool \<Rightarrow> (bool \<times> u32 \<times> u32 \<times> u32) res option" where
  "ProbablePrimeChainTest me bnPrimeChainOrigin nBits fFermatTest =
     obind (ProbableCunninghamChainTest me (bnPrimeChainOrigin - 1) True fFermatTest) (\<lambda>(_, l1).
     obind (ProbableCunninghamChainTest me (bnPrimeChainOrigin + 1) False fFermatTest) (\<lambda>(_, l2).
     let lBT = bitwin_length l1 l2
     in Some (Inr (l1 \<ge> nBits \<or> l2 \<ge> nBits \<or> lBT \<ge> nBits, l1, l2, lBT))))"

definition hashBlockHeaderLimit :: uint256 where
  "hashBlockHeaderLimit = push_bit 255 1"

definition bnPrimeMax :: int where
  "bnPrimeMax = bn_lshift 1 2000 - 1"

definition bnPrimeMin :: int where
  "bnPrimeMin = bn_lshift 1 255"

text \<open>The longest of the three chains, with its type.\<close>

definition select_chain :: "u32 \<Rightarrow> u32 \<Rightarrow> u32 \<Rightarrow> u32 \<times> u32" where
  "select_chain l1 l2 lBT =
     (let (nChainLength, nChainType) = (l1, PRIME_CHAIN_CUNNINGHAM1);
          (nChainLength, nChainType) =
            (if l2 > nChainLength then (l2, PRIME_CHAIN_CUNNINGHAM2) else (nChainLength, nChainType));
          (nChainLength, nChainType) =
            (if lBT > nChainLength then (lBT, PRIME_CHAIN_BI_TWIN) else (nChainLength, nChainType))
      in (nChainType, nChainLength))"

text \<open>
  \<^verbatim>\<open>CheckPrimeProofOfWork\<close>: \<open>None\<close> in the result stands for a return of false, \<open>Some\<close> holds
  the chain type and length of an accepted proof.
\<close>

definition CheckPrimeProofOfWork ::
  "mod_exp \<Rightarrow> target_params \<Rightarrow> uint256 \<Rightarrow> u32 \<Rightarrow> int \<Rightarrow> (u32 \<times> u32) option res option" where
  "CheckPrimeProofOfWork me P hashBlockHeader nBits bnPrimeChainMultiplier =
     (if TargetGetLength nBits < nTargetMinLength P \<or> TargetGetLength nBits > 99 then Some (Inr None)
      else if hashBlockHeader < hashBlockHeaderLimit then Some (Inr None)
      else let bnPrimeChainOrigin = uint hashBlockHeader * bnPrimeChainMultiplier in
      if bnPrimeChainOrigin < bnPrimeMin then Some (Inr None)
      else if bnPrimeChainOrigin > bnPrimeMax then Some (Inr None)
      else obind (ProbablePrimeChainTest me bnPrimeChainOrigin nBits False) (\<lambda>(ok, l1, l2, lBT).
      if \<not> ok then Some (Inr None)
      else if l1 < nBits \<and> l2 < nBits \<and> lBT < nBits then Some (Inr None)
      else obind (ProbablePrimeChainTest me bnPrimeChainOrigin nBits True) (\<lambda>(okF, l1F, l2F, lBTF).
      if \<not> okF then Some (Inr None)
      else if l1 \<noteq> l1F \<or> l2 \<noteq> l2F \<or> lBT \<noteq> lBTF then Some (Inr None)
      else let (nChainType, nChainLength) = select_chain l1 l2 lBT in
      if bnPrimeChainMultiplier smod 2 = 0 \<and> bnPrimeChainOrigin smod 4 = 0
      then obind (ProbablePrimeChainTest me (bnPrimeChainOrigin sdiv 2) nBits False) (\<lambda>(okE, l1E, l2E, lBTE).
           if okE \<and> (l1E > nChainLength \<or> l2E > nChainLength \<or> lBTE > nChainLength) then Some (Inr None)
           else Some (Inr (Some (nChainType, nChainLength))))
      else Some (Inr (Some (nChainType, nChainLength))))))"

definition CheckPrimeProofOfWorkV02Compatibility :: "mod_exp \<Rightarrow> uint256 \<Rightarrow> bool res" where
  "CheckPrimeProofOfWorkV02Compatibility me hashBlockHeader =
     rbind (FermatProbablePrimalityTest me (uint hashBlockHeader) 0) (\<lambda>(ok, _). Inr ok)"

definition ProbablePrimeChainTestForMiner ::
  "mod_exp \<Rightarrow> int \<Rightarrow> u32 \<Rightarrow> u32 \<Rightarrow> (bool \<times> u32) res option" where
  "ProbablePrimeChainTestForMiner me bnPrimeChainOrigin nBits nCandidateType =
     obind
       (if nCandidateType = PRIME_CHAIN_CUNNINGHAM1
        then obind (ProbableCunninghamChainTest me (bnPrimeChainOrigin - 1) True False) (\<lambda>(_, l). Some (Inr l))
        else if nCandidateType = PRIME_CHAIN_CUNNINGHAM2
        then obind (ProbableCunninghamChainTest me (bnPrimeChainOrigin + 1) False False) (\<lambda>(_, l). Some (Inr l))
        else obind (ProbableCunninghamChainTest me (bnPrimeChainOrigin - 1) True False) (\<lambda>(ok, l1).
             if ok then obind (ProbableCunninghamChainTest me (bnPrimeChainOrigin + 1) False False) (\<lambda>(_, l2).
                        Some (Inr (bitwin_length l1 l2)))
             else Some (Inr 0)))
       (\<lambda>nChainLength. Some (Inr (nChainLength \<ge> nBits, nChainLength)))"

fun ProbablePrimalityTestWithTrialDivision ::
  "mod_exp \<Rightarrow> nat list \<Rightarrow> int \<Rightarrow> nat \<Rightarrow> bool res" where
  "ProbablePrimalityTestWithTrialDivision me [] bnCandidate nTrialDivisionLimit =
     rbind (FermatProbablePrimalityTest me bnCandidate 0) (\<lambda>(ok, _). Inr ok)"
| "ProbablePrimalityTestWithTrialDivision me (nPrime # vPrimes) bnCandidate nTrialDivisionLimit =
     (if nPrime \<ge> nTrialDivisionLimit
      then rbind (FermatProbablePrimalityTest me bnCandidate 0) (\<lambda>(ok, _). Inr ok)
      else rbind (bn_mod bnCandidate (int nPrime)) (\<lambda>r.
           if r = 0 then Inr False
           else ProbablePrimalityTestWithTrialDivision me vPrimes bnCandidate nTrialDivisionLimit))"

subsection \<open>Specification functions\<close>

text \<open>Passing the Fermat test to base 2.\<close>

definition fermat_prp :: "int \<Rightarrow> bool" where
  "fermat_prp n \<longleftrightarrow> 2 ^ nat (n - 1) mod n = 1"

text \<open>The members of a chain: \<open>n\<close>, \<open>2 n + 1\<close>, \<open>4 n + 3\<close> and so on, or \<open>n\<close>, \<open>2 n - 1\<close>, \<open>4 n - 3\<close>.\<close>

definition member :: "bool \<Rightarrow> int \<Rightarrow> nat \<Rightarrow> int" where
  "member fSophieGermain n k = (next_member fSophieGermain ^^ k) n"

text \<open>Whether the chain test accepts member \<open>k\<close>: member 0 always takes the Fermat test.\<close>

definition member_passes :: "mod_exp \<Rightarrow> bool \<Rightarrow> bool \<Rightarrow> int \<Rightarrow> nat \<Rightarrow> bool" where
  "member_passes me sg ff n k =
     (case (if k = 0 then FermatProbablePrimalityTest me n 0
            else chain_member_test me sg ff (member sg n k) 0) of
        Inl _ \<Rightarrow> False | Inr (ok, _) \<Rightarrow> ok)"

text \<open>What an accepted certificate proves about its origin, by chain type and length.\<close>

definition chain_cert :: "int \<Rightarrow> u32 \<Rightarrow> nat \<Rightarrow> bool" where
  "chain_cert origin t c \<longleftrightarrow>
     (t = PRIME_CHAIN_CUNNINGHAM1 \<and> (\<forall>k<c. fermat_prp (2 ^ k * origin - 1))) \<or>
     (t = PRIME_CHAIN_CUNNINGHAM2 \<and> (\<forall>k<c. fermat_prp (2 ^ k * origin + 1))) \<or>
     (t = PRIME_CHAIN_BI_TWIN \<and> (\<forall>k<(c + 1) div 2. fermat_prp (2 ^ k * origin - 1)) \<and>
       (\<forall>k<c div 2. fermat_prp (2 ^ k * origin + 1)))"

section \<open>Members\<close>

lemma member_0 [simp]: "member sg n 0 = n"
  by (simp add: member_def)

lemma member_Suc: "member sg n (Suc k) = next_member sg (member sg n k)"
  by (simp add: member_def)

lemma member_next: "member sg (next_member sg n) k = member sg n (Suc k)"
  by (simp add: member_def funpow_swap1)

lemma member_eq: "member sg n k = (if sg then 2 ^ k * (n + 1) - 1 else 2 ^ k * (n - 1) + 1)"
  by (induction k) (auto simp: member_Suc next_member_def algebra_simps)

lemma member_gt_1: "1 < n \<Longrightarrow> 1 < member sg n k"
proof (induction k)
  case (Suc k)
  then show ?case by (cases sg) (simp_all add: member_Suc next_member_def)
qed simp

section \<open>The tests\<close>

lemma mod_exp: "mod_exp_law me \<Longrightarrow> 0 \<le> e \<Longrightarrow> 0 < m \<Longrightarrow> me 2 e m = 2 ^ nat e mod m"
  by (simp add: mod_exp_law_def)

lemma fractional_length_ok:
  assumes "0 < n" "0 \<le> r" "r < n"
  shows "\<exists>l'. fractional_length n r l = Inr (False, l') \<and> TargetGetLength l' = TargetGetLength l"
proof -
  define q where "q = (n - r) * 2 ^ 24 div n"
  have "0 \<le> (n - r) * 2 ^ 24" "(n - r) * 2 ^ 24 \<le> 2 ^ 24 * n" using assms by simp_all
  then have q: "0 \<le> q" "q \<le> 2 ^ 24"
    using assms(1) div_le_cross [of n 1 "(n - r) * 2 ^ 24" "2 ^ 24"]
    by (simp_all add: q_def pos_imp_zdiv_nonneg_iff)
  have d: "bn_div (bn_lshift (n - r) nFractionalBits) n = Inr q"
    using assms by (simp add: bn_div_def bn_lshift_def nFractionalBits_def q_def sdiv_nonneg)
  have u: "unat (bn_getuint q) = nat q"
  proof -
    have w: "bn_get_word q = nat q" using q by (simp add: bn_get_word_def)
    show ?thesis unfolding bn_getuint_def w unat_of_nat using q by (simp add: nat_less_iff)
  qed
  show ?thesis
  proof (cases "push_bit nFractionalBits 1 \<le> bn_getuint q")
    case True
    then show ?thesis by (simp add: fractional_length_def d)
  next
    case False
    then have "unat (bn_getuint q) < 2 ^ 24"
      by (simp add: nFractionalBits_def word_le_nat_alt)
    moreover have "unat (l AND TARGET_LENGTH_MASK) = unat l div 2 ^ 24 * 2 ^ 24"
      unfolding TARGET_LENGTH_MASK_def frac_mask by (rule unat_and_not_mask)
    ultimately have "unat ((l AND TARGET_LENGTH_MASK) OR bn_getuint q) = unat l div 2 ^ 24 * 2 ^ 24 + unat (bn_getuint q)"
      by (subst unat_or_low [where n = 24]) simp_all
    then have "TargetGetLength ((l AND TARGET_LENGTH_MASK) OR bn_getuint q) = TargetGetLength l"
      using \<open>unat (bn_getuint q) < 2 ^ 24\<close> by (simp add: word_unat_eq_iff unat_TargetGetLength)
    with False show ?thesis by (simp add: fractional_length_def d)
  qed
qed

lemma Fermat_ok:
  assumes "mod_exp_law me" "0 < n"
  shows "\<exists>l'. FermatProbablePrimalityTest me n l = Inr (fermat_prp n, l') \<and>
    TargetGetLength l' = TargetGetLength l \<and> (fermat_prp n \<longrightarrow> l' = l)"
proof -
  let ?r = "2 ^ nat (n - 1) mod n"
  have "me 2 (n - 1) n = ?r" using assms by (intro mod_exp) simp_all
  moreover have "0 \<le> ?r" "?r < n" using assms(2) by simp_all
  ultimately show ?thesis
    using fractional_length_ok [OF assms(2), of ?r l]
    by (cases "?r = 1") (auto simp: FermatProbablePrimalityTest_def fermat_prp_def Let_def)
qed

lemma smod8: "0 < n \<Longrightarrow> bn_mod n 8 = Inr (n mod 8)"
  by (simp add: bn_mod_def smod_nonneg)

lemma rshift1: "0 \<le> n \<Longrightarrow> bn_rshift n 1 = n div 2"
  by (auto simp: bn_rshift_def bn_lshift_def Let_def)

text \<open>The square of the Euler remainder is the Fermat remainder.\<close>

lemma euler_square:
  assumes "0 < n" "odd n"
  shows "(2 ^ nat ((n - 1) div 2) mod n) * (2 ^ nat ((n - 1) div 2) mod n) mod n = 2 ^ nat (n - 1) mod (n::int)"
proof -
  have "nat (n - 1) = nat ((n - 1) div 2) + nat ((n - 1) div 2)"
    using assms by (auto elim!: oddE)
  then show ?thesis by (simp add: mod_mult_eq power_add)
qed

lemma euler_pass_fermat:
  assumes "0 < n" "odd n" "r = 2 ^ nat ((n - 1) div 2) mod n" "r = 1 \<or> r + 1 = (n::int)" "n \<noteq> 1"
  shows "2 ^ nat (n - 1) mod n = 1"
proof -
  have "r * r mod n = 1"
  proof (cases "r = 1")
    case False
    then have rn: "r = n - 1" using assms(4) by simp
    have "r * r = n * (n - 2) + 1" unfolding rn by (simp add: algebra_simps)
    then show ?thesis using assms(1,5) by simp
  qed (use assms(1,5) in simp)
  then show ?thesis using euler_square [OF assms(1,2)] assms(3) by simp
qed

lemma ELL_ok:
  assumes "mod_exp_law me" "1 < n"
  shows "\<exists>ok. \<forall>l. \<exists>l'. EulerLagrangeLifchitzPrimalityTest me n sg l = Inr (ok, l') \<and>
    TargetGetLength l' = TargetGetLength l \<and> (ok \<longrightarrow> l' = l \<and> fermat_prp n)"
proof -
  let ?r = "2 ^ nat ((n - 1) div 2) mod n"
  define passed where "passed = (if sg \<and> n mod 8 = 7 then Some (?r = 1) else if sg \<and> n mod 8 = 3 then Some (?r + 1 = n)
    else if \<not> sg \<and> n mod 8 = 5 then Some (?r + 1 = n) else if \<not> sg \<and> n mod 8 = 1 then Some (?r = 1) else None)"
  have n: "0 < n" "n \<noteq> 0" using assms(2) by simp_all
  have e: "bn_rshift (n - 1) 1 = (n - 1) div 2" using assms(2) by (intro rshift1) simp
  have r: "me 2 ((n - 1) div 2) n = ?r" using assms by (intro mod_exp) simp_all
  have m: "bn_mod (?r * ?r) n = Inr (?r * ?r mod n)"
    using n by (simp add: bn_mod_def smod_nonneg)
  have t: "EulerLagrangeLifchitzPrimalityTest me n sg l = (case passed of None \<Rightarrow> Inr (False, l)
      | Some p \<Rightarrow> if p then Inr (True, l) else fractional_length n (?r * ?r mod n) l)" for l
    unfolding EulerLagrangeLifchitzPrimalityTest_def Let_def e r smod8 [OF n(1)] rbind_simps m passed_def [symmetric]
    by (rule refl)
  have f: "\<exists>l'. fractional_length n (?r * ?r mod n) l = Inr (False, l') \<and> TargetGetLength l' = TargetGetLength l" for l
    using n by (intro fractional_length_ok) simp_all
  have "fermat_prp n" if "passed = Some True"
  proof -
    have "n mod 8 = 7 \<or> n mod 8 = 3 \<or> n mod 8 = 5 \<or> n mod 8 = 1" "?r = 1 \<or> ?r + 1 = n"
      using that by (auto simp: passed_def split: if_splits)
    moreover from this(1) have "odd n" by presburger
    ultimately show ?thesis
      unfolding fermat_prp_def using n assms(2) by (intro euler_pass_fermat) simp_all
  qed
  then show ?thesis using f unfolding t by (cases passed) auto
qed

lemma ELL_eq_Fermat:
  assumes "mod_exp_law me" "1 < n" "if sg then n mod 8 = 7 \<or> n mod 8 = 3 else n mod 8 = 5 \<or> n mod 8 = 1"
    and "\<not> fermat_prp n"
  shows "EulerLagrangeLifchitzPrimalityTest me n sg l = FermatProbablePrimalityTest me n l"
proof -
  let ?r = "2 ^ nat ((n - 1) div 2) mod n"
  have n: "0 < n" "n \<noteq> 1" using assms(2) by simp_all
  have "n mod 8 = 7 \<or> n mod 8 = 3 \<or> n mod 8 = 5 \<or> n mod 8 = 1" using assms(3) by (auto split: if_splits)
  then have odd: "odd n" by presburger
  have e: "bn_rshift (n - 1) 1 = (n - 1) div 2" using assms(2) by (intro rshift1) simp
  have r: "me 2 ((n - 1) div 2) n = ?r" "me 2 (n - 1) n = 2 ^ nat (n - 1) mod n"
    using assms(1,2) by (auto intro: mod_exp)
  have m: "bn_mod (?r * ?r) n = Inr (2 ^ nat (n - 1) mod n)"
    using n euler_square [OF n(1) odd] by (simp add: bn_mod_def smod_nonneg)
  have "\<not> (?r = 1 \<or> ?r + 1 = n)"
    using euler_pass_fermat [OF n(1) odd refl _ n(2)] assms(4) by (auto simp: fermat_prp_def)
  then show ?thesis
    using assms(3,4) unfolding EulerLagrangeLifchitzPrimalityTest_def FermatProbablePrimalityTest_def
      Let_def e r smod8 [OF n(1)] rbind_simps m fermat_prp_def by (cases sg) auto
qed

lemma member_test_ok:
  assumes "mod_exp_law me" "1 < N"
  shows "\<exists>ok. \<forall>l. \<exists>l'. chain_member_test me sg ff N l = Inr (ok, l') \<and>
    TargetGetLength l' = TargetGetLength l \<and> (ok \<longrightarrow> l' = l \<and> fermat_prp N)"
proof (cases ff)
  case True
  then show ?thesis
    using Fermat_ok [OF assms(1), of N] assms(2)
    by (intro exI [of _ "fermat_prp N"]) (auto simp: chain_member_test_def)
next
  case False
  then show ?thesis
    using ELL_ok [OF assms, of sg] by (simp add: chain_member_test_def)
qed

lemma member_test:
  assumes "mod_exp_law me" "1 < n" "0 < k"
  shows "\<exists>l'. chain_member_test me sg ff (member sg n k) l = Inr (member_passes me sg ff n k, l') \<and>
    TargetGetLength l' = TargetGetLength l \<and> (member_passes me sg ff n k \<longrightarrow> l' = l \<and> fermat_prp (member sg n k))"
proof -
  obtain ok where ok: "\<And>l. \<exists>l'. chain_member_test me sg ff (member sg n k) l = Inr (ok, l') \<and>
      TargetGetLength l' = TargetGetLength l \<and> (ok \<longrightarrow> l' = l \<and> fermat_prp (member sg n k))"
    using member_test_ok [OF assms(1) member_gt_1 [OF assms(2)]] by blast
  have "member_passes me sg ff n k = ok"
    using ok [of 0] assms(3) by (auto simp: member_passes_def)
  with ok [of l] show ?thesis by simp
qed

lemma member_passes_0:
  assumes "mod_exp_law me" "0 < n"
  shows "member_passes me sg ff n 0 = fermat_prp n"
  using Fermat_ok [OF assms, of 0] by (auto simp: member_passes_def)

section \<open>The loop\<close>

lemma length_add: "unat (TargetGetLength (l + TargetFromInt x)) = (unat (TargetGetLength l) + unat x) mod 256"
proof -
  have "unat (l + TargetFromInt x) = (unat l + unat x * 2 ^ 24) mod 2 ^ 32"
    by (simp add: TargetFromInt_def nFractionalBits_def unat_word_ariths push_bit_eq_mult mod_add_right_eq mult.commute)
  then have "unat (TargetGetLength (l + TargetFromInt x)) = (unat l + unat x * 2 ^ 24) mod 2 ^ (24 + 8) div 2 ^ 24"
    by (simp add: unat_TargetGetLength)
  also have "\<dots> = (unat l + unat x * 2 ^ 24) div 2 ^ 24 mod 2 ^ 8" by (rule mod_div_pow2)
  finally show ?thesis by (simp add: unat_TargetGetLength add.commute)
qed

lemma length_inc: "unat (TargetGetLength (TargetIncrementLength l)) = (unat (TargetGetLength l) + 1) mod 256"
  using length_add [of l 1] by (simp add: TargetIncrementLength_def TargetFromInt_def)

lemma cunningham_loop_fails:
  assumes "mod_exp_law me" "1 < n"
    and "\<And>i. j < i \<Longrightarrow> i < j + Suc d \<Longrightarrow> member_passes me sg ff n i" "\<not> member_passes me sg ff n (j + Suc d)"
  shows "\<exists>l'. cunningham_loop me sg ff (member sg n j) l = Some (Inr l') \<and>
    unat (TargetGetLength l') = (unat (TargetGetLength l) + Suc d) mod 256"
  using assms(3,4)
proof (induction d arbitrary: j l)
  case 0
  have "\<not> member_passes me sg ff n (Suc j)" using 0(2) by simp
  then obtain l' where "chain_member_test me sg ff (member sg n (Suc j)) (TargetIncrementLength l) = Inr (False, l')"
    "TargetGetLength l' = TargetGetLength (TargetIncrementLength l)"
    using member_test [OF assms(1,2), of "Suc j" sg ff "TargetIncrementLength l"] by auto
  then show ?case
    by (subst cunningham_loop.simps) (simp add: member_Suc [symmetric] length_inc)
next
  case (Suc d)
  have "member_passes me sg ff n (Suc j)" using Suc(2) [of "Suc j"] by simp
  then have t: "chain_member_test me sg ff (member sg n (Suc j)) (TargetIncrementLength l) = Inr (True, TargetIncrementLength l)"
    using member_test [OF assms(1,2), of "Suc j" sg ff "TargetIncrementLength l"] by auto
  obtain l' where "cunningham_loop me sg ff (member sg n (Suc j)) (TargetIncrementLength l) = Some (Inr l')"
    "unat (TargetGetLength l') = (unat (TargetGetLength (TargetIncrementLength l)) + Suc d) mod 256"
    using Suc.IH [of "Suc j" "TargetIncrementLength l"] Suc.prems by auto
  moreover have "((a + 1) mod 256 + Suc d) mod 256 = (a + Suc (Suc d)) mod 256" for a
    unfolding mod_add_left_eq by simp
  ultimately show ?case
    using t by (subst cunningham_loop.simps) (simp add: member_Suc [symmetric] length_inc del: add_Suc_right)
qed

lemma cunningham_loop_diverges:
  assumes "mod_exp_law me" "1 < n" "\<And>i. 0 < i \<Longrightarrow> member_passes me sg ff n i"
  shows "cunningham_loop me sg ff (member sg n j) l = None"
proof -
  have "me' = me \<and> sg' = sg \<and> ff' = ff \<longrightarrow> (\<forall>j. N \<noteq> member sg n j)"
    if "cunningham_loop me' sg' ff' N l = Some r" for me' sg' ff' N l r
    using that
  proof (induction rule: cunningham_loop.raw_induct [rotated, consumes 1, case_names step])
    case (step loop me' sg' ff' N l r)
    have "chain_member_test me sg ff (member sg n (Suc j)) (TargetIncrementLength l) = Inr (True, TargetIncrementLength l)" for j
      using member_test [OF assms(1,2), of "Suc j" sg ff "TargetIncrementLength l"] assms(3) [of "Suc j"] by auto
    then have "loop me sg ff (member sg n (Suc j)) (TargetIncrementLength l) = Some r"
      if "me' = me \<and> sg' = sg \<and> ff' = ff" "N = member sg n j" for j
      using step.hyps that by (simp add: member_Suc [symmetric])
    then show ?case using step.IH by blast
  qed
  then show ?thesis by (metis option.exhaust)
qed

text \<open>The chain test counts the members before the first one that fails, modulo 256.\<close>

lemma chain_test_fails_at:
  assumes "mod_exp_law me" "1 < n" "\<And>i. i < k \<Longrightarrow> member_passes me sg ff n i" "\<not> member_passes me sg ff n k"
  shows "\<exists>l. ProbableCunninghamChainTest me n sg ff = Some (Inr (2 \<le> k mod 256, l)) \<and> unat (TargetGetLength l) = k mod 256"
proof -
  have n: "0 < n" using assms(2) by simp
  have z: "unat (TargetGetLength 0) = 0" by (simp add: unat_TargetGetLength)
  obtain l0 where l0: "FermatProbablePrimalityTest me n 0 = Inr (fermat_prp n, l0)"
    "TargetGetLength l0 = TargetGetLength 0"
    using Fermat_ok [OF assms(1) n] by blast
  show ?thesis
  proof (cases k)
    case 0
    then have "\<not> fermat_prp n" using assms(4) member_passes_0 [OF assms(1) n] by simp
    then show ?thesis using l0 0 z by (simp add: ProbableCunninghamChainTest_def)
  next
    case (Suc d)
    then have "fermat_prp n" using assms(3) [of 0] member_passes_0 [OF assms(1) n] by simp
    moreover obtain l' where "cunningham_loop me sg ff (member sg n 0) l0 = Some (Inr l')"
      "unat (TargetGetLength l') = (unat (TargetGetLength l0) + Suc d) mod 256"
      using cunningham_loop_fails [OF assms(1,2), of 0 d sg ff l0] assms(3,4) Suc by auto
    ultimately show ?thesis
      using l0 z Suc by (auto simp: ProbableCunninghamChainTest_def word_le_nat_alt)
  qed
qed

lemma chain_test_None:
  assumes "mod_exp_law me" "1 < n"
  shows "ProbableCunninghamChainTest me n sg ff = None \<longleftrightarrow> (\<forall>k. member_passes me sg ff n k)"
proof
  assume all: "\<forall>k. member_passes me sg ff n k"
  have "fermat_prp n" using all assms member_passes_0 [of me n sg ff] by simp
  moreover have "cunningham_loop me sg ff n l = None" for l
    using cunningham_loop_diverges [OF assms, of sg ff 0 l] all by simp
  ultimately show "ProbableCunninghamChainTest me n sg ff = None"
    using Fermat_ok [OF assms(1), of n 0] assms(2) by (auto simp: ProbableCunninghamChainTest_def)
next
  assume none: "ProbableCunninghamChainTest me n sg ff = None"
  show "\<forall>k. member_passes me sg ff n k"
  proof (rule ccontr)
    assume "\<not> ?thesis"
    then obtain k where "\<not> member_passes me sg ff n k" "\<And>i. i < k \<Longrightarrow> member_passes me sg ff n i"
      using exists_least_iff [of "\<lambda>k. \<not> member_passes me sg ff n k"] by auto
    then show False using chain_test_fails_at [OF assms, of k sg ff] none by auto
  qed
qed

lemma fermat_prp_nat:
  assumes "1 < N"
  shows "fermat_prp (int N) \<longleftrightarrow> N dvd 2 ^ (N - 1) - 1"
proof -
  have "fermat_prp (int N) \<longleftrightarrow> int (2 ^ (N - 1) mod N) = int 1"
    using assms by (simp add: fermat_prp_def nat_diff_distrib' zmod_int)
  also have "\<dots> \<longleftrightarrow> 2 ^ (N - 1) mod N = 1 mod N" using assms by (simp del: of_nat_mod)
  also have "\<dots> \<longleftrightarrow> N dvd 2 ^ (N - 1) - 1" by (intro mod_eq_dvd_iff_nat) simp
  finally show ?thesis .
qed

lemma member_passes_fermat:
  assumes "mod_exp_law me" "1 < n" "member_passes me sg ff n k"
  shows "fermat_prp (member sg n k)"
proof (cases k)
  case 0
  then show ?thesis using assms member_passes_0 [of me n sg ff] by simp
next
  case (Suc j)
  then show ?thesis using member_test [OF assms(1,2), of k sg ff 0] assms(3) by simp
qed

text \<open>A chain of the first kind has a member that fails the Fermat test.\<close>

lemma first_kind_fails:
  assumes "1 < n"
  shows "\<exists>k. \<not> fermat_prp (member True n k)"
proof -
  define M where "M = nat (n + 1)"
  have M: "0 < M" "int M = n + 1" using assms by (simp_all add: M_def)
  obtain k where k: "\<not> (2 ^ k * M - 1 dvd 2 ^ (2 ^ k * M - 2) - (1::nat))"
    using chain_finite [OF M(1), of 0] by blast
  have m: "member True n k = int (2 ^ k * M - 1)"
    using M by (simp add: member_eq of_nat_diff Suc_le_eq)
  have "1 < 2 ^ k * M - 1" using member_gt_1 [OF assms, of True k] unfolding m by simp
  moreover have "2 ^ k * M - 1 - 1 = 2 ^ k * M - 2" by simp
  ultimately have "\<not> fermat_prp (member True n k)"
    unfolding m using k by (simp only: fermat_prp_nat simp_thms)
  then show ?thesis by blast
qed

lemma chain_test_members:
  assumes "mod_exp_law me" "1 < n" "ProbableCunninghamChainTest me n sg ff = Some r"
  shows "\<exists>b l. r = Inr (b, l) \<and> (\<forall>k < unat (TargetGetLength l). fermat_prp (member sg n k))"
proof -
  obtain k where k: "\<not> member_passes me sg ff n k" "\<And>i. i < k \<Longrightarrow> member_passes me sg ff n i"
    using chain_test_None [OF assms(1,2), of sg ff] assms(3)
      exists_least_iff [of "\<lambda>k. \<not> member_passes me sg ff n k"] by auto
  obtain l where "ProbableCunninghamChainTest me n sg ff = Some (Inr (2 \<le> k mod 256, l))"
    "unat (TargetGetLength l) = k mod 256"
    using chain_test_fails_at [OF assms(1,2) k(2) k(1)] by blast
  moreover have "fermat_prp (member sg n i)" if "i < k mod 256" for i
    using member_passes_fermat [OF assms(1,2) k(2)] that mod_less_eq_dividend [of k 256] by simp
  ultimately show ?thesis using assms(3) by auto
qed

section \<open>Certificates\<close>

lemma obind_Some: "obind m f = Some (Inr y) \<longleftrightarrow> (\<exists>x. m = Some (Inr x) \<and> f x = Some (Inr y))"
  by (auto simp: obind_def split: option.splits sum.splits)

lemma bitwin_length_le:
  defines "L \<equiv> \<lambda>l. unat (TargetGetLength l)"
  shows "L (bitwin_length l1 l2) \<le> (if L l1 > L l2 then 2 * L l2 + 1 else 2 * L l1)"
proof -
  have x: "unat (TargetGetLength l2 + 1) \<le> L l2 + 1" by (simp add: L_def unat_word_ariths)
  have "L (l2 + TargetFromInt (TargetGetLength l2 + 1)) \<le> L l2 + unat (TargetGetLength l2 + 1)"
    "L (l1 + TargetFromInt (TargetGetLength l1)) \<le> L l1 + L l1"
    unfolding L_def length_add by simp_all
  with x show ?thesis by (simp add: bitwin_length_def L_def word_less_nat_alt)
qed

lemma ProbablePrimeChainTest_members:
  assumes "mod_exp_law me" "2 < origin" "ProbablePrimeChainTest me origin nBits ff = Some (Inr (ok, l1, l2, lBT))"
  defines "L \<equiv> \<lambda>l. unat (TargetGetLength l)"
  shows "\<forall>k < L l1. fermat_prp (2 ^ k * origin - 1)" "\<forall>k < L l2. fermat_prp (2 ^ k * origin + 1)"
    "L lBT \<le> (if L l1 > L l2 then 2 * L l2 + 1 else 2 * L l1)"
proof -
  obtain b1 b2 where t: "ProbableCunninghamChainTest me (origin - 1) True ff = Some (Inr (b1, l1))"
    "ProbableCunninghamChainTest me (origin + 1) False ff = Some (Inr (b2, l2))" "lBT = bitwin_length l1 l2"
    using assms(3) by (auto simp: ProbablePrimeChainTest_def obind_Some Let_def)
  have "1 < origin - 1" "1 < origin + 1" using assms(2) by simp_all
  then show "\<forall>k < L l1. fermat_prp (2 ^ k * origin - 1)" "\<forall>k < L l2. fermat_prp (2 ^ k * origin + 1)"
    using chain_test_members [OF assms(1) _ t(1)] chain_test_members [OF assms(1) _ t(2)]
    by (auto simp: member_eq L_def)
  show "L lBT \<le> (if L l1 > L l2 then 2 * L l2 + 1 else 2 * L l1)"
    unfolding t(3) L_def by (rule bitwin_length_le)
qed

lemma select_chain_cert:
  defines "L \<equiv> \<lambda>l. unat (TargetGetLength l)"
  assumes "\<forall>k < L l1. fermat_prp (2 ^ k * origin - 1)" "\<forall>k < L l2. fermat_prp (2 ^ k * origin + 1)"
    "L lBT \<le> (if L l1 > L l2 then 2 * L l2 + 1 else 2 * L l1)" "select_chain l1 l2 lBT = (t, l)"
  shows "chain_cert origin t (L l)" "l1 \<le> l \<and> l2 \<le> l \<and> lBT \<le> l"
proof -
  show "l1 \<le> l \<and> l2 \<le> l \<and> lBT \<le> l"
    using assms(5) by (auto simp: select_chain_def split: if_splits)
  have "(t = PRIME_CHAIN_CUNNINGHAM1 \<and> l = l1) \<or> (t = PRIME_CHAIN_CUNNINGHAM2 \<and> l = l2) \<or> (t = PRIME_CHAIN_BI_TWIN \<and> l = lBT)"
    using assms(5) by (auto simp: select_chain_def split: if_splits)
  moreover have "(L lBT + 1) div 2 \<le> L l1" "L lBT div 2 \<le> L l2"
    using assms(4) by (auto split: if_splits)
  ultimately show "chain_cert origin t (L l)"
    using assms(2,3) unfolding chain_cert_def by (auto dest: less_le_trans)
qed

section \<open>An example certificate\<close>

lemma pow2_mod_cycle:
  assumes "2 ^ d mod N = (1::int)"
  shows "2 ^ e mod N = 2 ^ (e mod d) mod N"
proof -
  have N1: "1 mod N = 1" using assms by (metis mod_mod_trivial)
  have "2 ^ e = (2 ^ d) ^ (e div d) * (2::int) ^ (e mod d)"
    by (simp flip: power_mult power_add)
  also have "\<dots> mod N = ((2 ^ d) ^ (e div d) mod N) * 2 ^ (e mod d) mod N" by (simp add: mod_mult_left_eq)
  also have "(2 ^ d) ^ (e div d) mod N = (2 ^ d mod N) ^ (e div d) mod N" by (simp add: power_mod)
  finally show ?thesis by (simp add: assms N1)
qed

lemma fermat_prp_plus:
  assumes "0 < s"
  shows "fermat_prp (2 ^ s + 1) \<longleftrightarrow> 2 ^ (2 ^ s mod (2 * s)) mod (2 ^ s + 1) = (1::int)"
proof -
  have p: "(2::int) ^ s > 0" by simp
  have "(2::int) ^ (2 * s) = (2 ^ s + 1) * (2 ^ s - 1) + 1" by (simp add: power_mult power2_eq_square algebra_simps mult_2 power_add)
  also have "\<dots> mod (2 ^ s + 1) = 1" using p by (simp add: mod_pos_pos_trivial)
  finally have "2 ^ (2 ^ s) mod (2 ^ s + 1) = 2 ^ (2 ^ s mod (2 * s)) mod (2 ^ s + (1::int))"
    by (rule pow2_mod_cycle)
  then show ?thesis by (simp add: fermat_prp_def nat_power_eq)
qed

lemma fermat_prp_minus:
  assumes "1 < s"
  shows "fermat_prp (2 ^ s - 1) \<longleftrightarrow> 2 ^ ((2 ^ s - 2) mod s) mod (2 ^ s - 1) = (1::int)"
proof -
  have "(2::int) ^ 2 \<le> 2 ^ s" using assms by (intro power_increasing) simp_all
  then have p: "(1::int) < 2 ^ s - 1" by simp
  have "(2::int) ^ s = (2 ^ s - 1) + 1" by simp
  also have "\<dots> mod (2 ^ s - 1) = 1" using p unfolding mod_add_self1 by simp
  finally have "2 ^ (2 ^ s - 2) mod (2 ^ s - 1) = 2 ^ ((2 ^ s - 2) mod s) mod (2 ^ s - (1::int))"
    by (rule pow2_mod_cycle)
  then show ?thesis using p by (simp add: fermat_prp_def nat_diff_distrib' nat_power_eq)
qed

lemma chain_test_mode:
  assumes "mod_exp_law me" "1 < n" "\<not> (fermat_prp n \<and> fermat_prp (next_member sg n))"
    and "let m = next_member sg n mod 8 in if sg then m = 7 \<or> m = 3 else m = 5 \<or> m = 1"
  shows "ProbableCunninghamChainTest me n sg ff = ProbableCunninghamChainTest me n sg False"
proof (cases "fermat_prp n")
  case True
  have n: "1 < next_member sg n" using member_gt_1 [OF assms(2), of sg 1] by (simp add: member_Suc)
  have f: "\<not> fermat_prp (next_member sg n)" using True assms(3) by blast
  have "chain_member_test me sg ff (next_member sg n) l = FermatProbablePrimalityTest me (next_member sg n) l" for ff l
    using ELL_eq_Fermat [OF assms(1) n _ f, of sg l] assms(4) by (simp add: chain_member_test_def Let_def)
  moreover have "\<exists>l'. FermatProbablePrimalityTest me (next_member sg n) l = Inr (False, l')" for l
    using Fermat_ok [OF assms(1), of "next_member sg n" l] n f by auto
  ultimately have t: "\<exists>l'. \<forall>ff. chain_member_test me sg ff (next_member sg n) l = Inr (False, l')" for l
    by simp
  have "cunningham_loop me sg ff n l = cunningham_loop me sg False n l" for l
    using t [of "TargetIncrementLength l"]
    by (auto simp: cunningham_loop.simps [of me sg ff n] cunningham_loop.simps [of me sg False n])
  then have e: "cunningham_loop me sg ff n = cunningham_loop me sg False n" by (rule ext)
  show ?thesis unfolding ProbableCunninghamChainTest_def e by (rule refl)
next
  case False
  then show ?thesis
    using Fermat_ok [OF assms(1), of n 0] assms(2) by (auto simp: ProbableCunninghamChainTest_def)
qed

lemma chain_test_not_prp:
  assumes "mod_exp_law me" "1 < n" "\<not> fermat_prp n"
  shows "\<exists>l. ProbableCunninghamChainTest me n sg ff = Some (Inr (False, l)) \<and> unat (TargetGetLength l) = 0"
  using chain_test_fails_at [OF assms(1,2), of 0 sg ff] member_passes_0 [OF assms(1), of n sg ff] assms(2,3)
  by auto

lemma chain_test_pair:
  assumes "ProbableCunninghamChainTest me (origin - 1) True ff = Some (Inr (b1, l1))"
    "ProbableCunninghamChainTest me (origin + 1) False ff = Some (Inr (b2, l2))"
    "unat (TargetGetLength l1) = 0"
  shows "ProbablePrimeChainTest me origin nBits ff = Some (Inr (l1 \<ge> nBits \<or> l2 \<ge> nBits, l1, l2, l1))"
proof -
  have z: "TargetGetLength l1 = 0" using assms(3) by (simp add: unat_eq_zero)
  have "bitwin_length l1 l2 = l1" by (simp add: bitwin_length_def z TargetFromInt_def)
  then show ?thesis using assms(1,2) by (auto simp: ProbablePrimeChainTest_def obind_def)
qed

text \<open>The numbers of the example: the eighth Fermat number is a Fermat probable prime.\<close>

lemma example_prp:
  "fermat_prp (2 ^ 256 + 1)" "\<not> fermat_prp (2 ^ 257 + 1)" "\<not> fermat_prp (2 ^ 256 - 1)"
  "\<not> fermat_prp (2 ^ 255 - 1)" "\<not> fermat_prp (2 ^ 255 + 1)"
proof -
  show "fermat_prp (2 ^ 256 + 1)" "\<not> fermat_prp (2 ^ 257 + 1)" "\<not> fermat_prp (2 ^ 255 + 1)"
    by (subst fermat_prp_plus; simp)+
  show "\<not> fermat_prp (2 ^ 256 - 1)" "\<not> fermat_prp (2 ^ 255 - 1)"
    by (subst fermat_prp_minus; simp)+
qed

section \<open>Properties\<close>

text \<open>
  C2. \<^verbatim>\<open>ProbableCunninghamChainTest\<close> for chains of the first kind always returns, although its
  loop has no bound: no number starts an infinite chain of Fermat probable primes, so whatever
  certificate a peer sends, the test of \<open>n, 2 n + 1, 4 n + 3, ...\<close> ends, in both modes, without an
  exception.
\<close>

theorem first_kind_test_returns:
  assumes "mod_exp_law me" "1 < n"
  shows "\<exists>b l. ProbableCunninghamChainTest me n True fFermatTest = Some (Inr (b, l))"
proof -
  obtain k where "\<not> fermat_prp (member True n k)" using first_kind_fails [OF assms(2)] by blast
  then have "\<not> member_passes me True fFermatTest n k" using member_passes_fermat [OF assms] by blast
  then have "ProbableCunninghamChainTest me n True fFermatTest \<noteq> None"
    using chain_test_None [OF assms] by blast
  then show ?thesis using chain_test_members [OF assms] by blast
qed

theorem first_kind_test_returns_witness:
  "\<exists>b l. ProbableCunninghamChainTest (\<lambda>a e m. a ^ nat e mod m) 89 True False = Some (Inr (b, l))"
  by (rule first_kind_test_returns) (simp_all add: mod_exp_law_def)

text \<open>
  C3. The chain test computes the chain length: when the first \<open>k\<close> members pass their test and
  member \<open>k\<close> does not, for \<open>k\<close> below 256, the test returns the length \<open>k\<close>, and it accepts exactly
  from length 2.  It does not return if and only if every member passes.
\<close>

theorem chain_test_length:
  assumes "mod_exp_law me" "1 < n"
  shows "(ProbableCunninghamChainTest me n sg ff = None \<longleftrightarrow> (\<forall>k. member_passes me sg ff n k)) \<and>
    (\<forall>k<256. (\<forall>i<k. member_passes me sg ff n i) \<longrightarrow> \<not> member_passes me sg ff n k \<longrightarrow>
      (\<exists>l. ProbableCunninghamChainTest me n sg ff = Some (Inr (2 \<le> k, l)) \<and> unat (TargetGetLength l) = k))"
proof (intro conjI allI impI)
  show "ProbableCunninghamChainTest me n sg ff = None \<longleftrightarrow> (\<forall>k. member_passes me sg ff n k)"
    by (rule chain_test_None [OF assms])
  fix k :: nat
  assume "k < 256" "\<forall>i<k. member_passes me sg ff n i" "\<not> member_passes me sg ff n k"
  then show "\<exists>l. ProbableCunninghamChainTest me n sg ff = Some (Inr (2 \<le> k, l)) \<and> unat (TargetGetLength l) = k"
    using chain_test_fails_at [OF assms, of k sg ff] by simp
qed

theorem chain_test_length_witness:
  "\<exists>l. ProbableCunninghamChainTest (\<lambda>a e m. a ^ nat e mod m) 5 True False = Some (Inr (2 \<le> (4::nat), l)) \<and>
     unat (TargetGetLength l) = 4"
proof -
  let ?me = "\<lambda>a e m. a ^ nat e mod m :: int"
  note ds = member_passes_def FermatProbablePrimalityTest_def chain_member_test_def member_eq
    EulerLagrangeLifchitzPrimalityTest_def bn_rshift_def bn_lshift_def bn_mod_def smod_nonneg
  have "member_passes ?me True False 5 i" if "i < 4" for i
  proof -
    have "i = 0 \<or> i = 1 \<or> i = 2 \<or> i = 3" using that by auto
    then show ?thesis by (elim disjE) (simp_all add: ds)
  qed
  moreover have "\<not> member_passes ?me True False 5 4"
  proof -
    have "(2::int) ^ 47 mod 95 \<noteq> 1" by simp
    then show ?thesis by (simp add: ds fractional_length_def bn_div_def Let_def split: if_split)
  qed
  moreover have "mod_exp_law ?me" "1 < (5::int)" "4 < (256::nat)" by (simp_all add: mod_exp_law_def)
  ultimately show ?thesis
    using chain_test_length [of ?me 5 True False, THEN conjunct2, rule_format, of 4] by blast
qed

text \<open>
  C4. The faster Euler-Lagrange-Lifchitz test is a refinement of the Fermat test on the residues
  modulo 8 it is used for: what it accepts the Fermat test accepts, and on a number that fails
  the Fermat test both return false with the same fractional length.
\<close>

theorem ELL_refines_Fermat:
  assumes "mod_exp_law me" "1 < n" "if sg then n mod 8 = 7 \<or> n mod 8 = 3 else n mod 8 = 5 \<or> n mod 8 = 1"
  shows "(EulerLagrangeLifchitzPrimalityTest me n sg l = Inr (True, l') \<longrightarrow>
      FermatProbablePrimalityTest me n l = Inr (True, l')) \<and>
    (FermatProbablePrimalityTest me n l = Inr (False, l') \<longrightarrow>
      EulerLagrangeLifchitzPrimalityTest me n sg l = Inr (False, l'))"
proof -
  have n: "0 < n" using assms(2) by simp
  obtain lf where F: "FermatProbablePrimalityTest me n l = Inr (fermat_prp n, lf)" "fermat_prp n \<longrightarrow> lf = l"
    using Fermat_ok [OF assms(1) n] by blast
  have E: "\<not> fermat_prp n \<Longrightarrow> EulerLagrangeLifchitzPrimalityTest me n sg l = FermatProbablePrimalityTest me n l"
    by (rule ELL_eq_Fermat [OF assms])
  obtain ok le where "EulerLagrangeLifchitzPrimalityTest me n sg l = Inr (ok, le)" "ok \<longrightarrow> le = l \<and> fermat_prp n"
    using ELL_ok [OF assms(1,2)] by blast
  then show ?thesis using F E by auto
qed

theorem ELL_refines_Fermat_witness:
  "EulerLagrangeLifchitzPrimalityTest (\<lambda>a e m. a ^ nat e mod m) 95 True 0 = Inr (False, 0x6E7BF5) \<and>
   FermatProbablePrimalityTest (\<lambda>a e m. a ^ nat e mod m) 95 0 = Inr (False, 0x6E7BF5)"
proof -
  let ?me = "\<lambda>a e m. a ^ nat e mod m :: int"
  have "FermatProbablePrimalityTest ?me 95 0 = Inr (False, 0x6E7BF5)"
    by (simp add: FermatProbablePrimalityTest_def fractional_length_def bn_div_def bn_lshift_def sdiv_nonneg
        nFractionalBits_def bn_getuint_def bn_get_word_def)
  then show ?thesis
    using ELL_refines_Fermat [of ?me 95 True 0 "0x6E7BF5"] by (simp add: mod_exp_law_def)
qed

text \<open>
  C1. Soundness of the proof-of-work check: if \<^verbatim>\<open>CheckPrimeProofOfWork\<close> accepts with a chain type
  and length, then the header hash is at least \<open>2 ^ 255\<close>, the origin lies between the caps, the
  reported length meets \<^verbatim>\<open>nBits\<close>, and as many numbers as the whole part of that length says,
  of the form the chain type prescribes, all pass the Fermat test.
\<close>

theorem CheckPrimeProofOfWork_sound:
  assumes "mod_exp_law me" "CheckPrimeProofOfWork me P h nBits mult = Some (Inr (Some (t, l)))"
  shows "2 ^ 255 \<le> uint h \<and> 2 ^ 255 \<le> uint h * mult \<and> uint h * mult < 2 ^ 2000 \<and>
    nTargetMinLength P \<le> TargetGetLength nBits \<and> TargetGetLength nBits \<le> 99 \<and> nBits \<le> l \<and>
    chain_cert (uint h * mult) t (unat (TargetGetLength l))"
proof -
  let ?o = "uint h * mult"
  have g: "nTargetMinLength P \<le> TargetGetLength nBits" "TargetGetLength nBits \<le> 99" "hashBlockHeaderLimit \<le> h"
    "bnPrimeMin \<le> ?o" "?o \<le> bnPrimeMax"
    using assms(2) by (auto simp: CheckPrimeProofOfWork_def Let_def split: if_splits)
  then obtain ok l1 l2 lBT where t: "ProbablePrimeChainTest me ?o nBits False = Some (Inr (ok, l1, l2, lBT))"
    "\<not> (l1 < nBits \<and> l2 < nBits \<and> lBT < nBits)" "select_chain l1 l2 lBT = (t, l)"
    using assms(2)
    by (auto simp: CheckPrimeProofOfWork_def Let_def obind_Some not_less split_def split: if_splits)
  have lim: "2 ^ 255 \<le> uint h" using g(3) by (simp add: hashBlockHeaderLimit_def word_le_def)
  have cap: "2 ^ 255 \<le> ?o" "?o < 2 ^ 2000" "2 < ?o"
    using g(4,5) by (simp_all add: bnPrimeMin_def bnPrimeMax_def bn_lshift_def)
  note m = ProbablePrimeChainTest_members [OF assms(1) cap(3) t(1)]
  note s = select_chain_cert [OF m t(3)]
  have "nBits \<le> l1 \<or> nBits \<le> l2 \<or> nBits \<le> lBT" using t(2) by (simp add: not_less)
  then have "nBits \<le> l" using s(2) by (elim disjE conjE) (rule order_trans, assumption+)+
  with g(1,2) lim cap(1,2) s(1) show ?thesis by (intro conjI)
qed

theorem CheckPrimeProofOfWork_sound_witness:
  "\<exists>t l. CheckPrimeProofOfWork (\<lambda>a e m. a ^ nat e mod m) \<lparr>nTargetInitialLength = 7, nTargetMinLength = 1\<rparr>
      (2 ^ 255) 0x01000000 2 = Some (Inr (Some (t, l))) \<and> (0x01000000 :: u32) \<le> l \<and>
    chain_cert (uint (2 ^ 255 :: uint256) * 2) t (unat (TargetGetLength l))"
proof -
  let ?me = "\<lambda>a e m. a ^ nat e mod m :: int"
  have law: "mod_exp_law ?me" by (simp add: mod_exp_law_def)
  obtain me where me: "me = ?me" "mod_exp_law me" using law by blast
  obtain l1 where l1: "ProbableCunninghamChainTest me (2 ^ 256 - 1) True False = Some (Inr (False, l1))"
    "unat (TargetGetLength l1) = 0"
    using chain_test_not_prp [OF me(2) _ example_prp(3)] by fastforce
  obtain e1 e2 where e: "ProbableCunninghamChainTest me (2 ^ 255 - 1) True False = Some (Inr (False, e1))"
    "unat (TargetGetLength e1) = 0" "ProbableCunninghamChainTest me (2 ^ 255 + 1) False False = Some (Inr (False, e2))"
    "unat (TargetGetLength e2) = 0"
    using chain_test_not_prp [OF me(2) _ example_prp(4)] chain_test_not_prp [OF me(2) _ example_prp(5)] by fastforce
  obtain l2 where l2: "ProbableCunninghamChainTest me (2 ^ 256 + 1) False False = Some (Inr (False, l2))"
    "unat (TargetGetLength l2) = 1"
  proof -
    have "\<not> member_passes me False False (2 ^ 256 + 1) 1"
      using member_passes_fermat [OF me(2), of "2 ^ 256 + 1" False False 1] example_prp(2)
      by (auto simp: member_eq)
    then show ?thesis
      using that chain_test_fails_at [OF me(2), of "2 ^ 256 + 1" 1 False False] example_prp(1)
        member_passes_0 [OF me(2), of "2 ^ 256 + 1"] by auto
  qed
  have f: "ProbableCunninghamChainTest me (2 ^ 256 - 1) True True = Some (Inr (False, l1))"
    "ProbableCunninghamChainTest me (2 ^ 256 + 1) False True = Some (Inr (False, l2))"
    using chain_test_mode [OF me(2), of "2 ^ 256 - 1" True True] chain_test_mode [OF me(2), of "2 ^ 256 + 1" False True]
      example_prp(2,3) l1(1) l2(1) by (simp_all add: next_member_def)
  note t = chain_test_pair [OF l1(1) l2(1) l1(2), of "0x01000000"] chain_test_pair [OF f l1(2), of "0x01000000"]
    chain_test_pair [OF e(1,3,2), of "0x01000000"]
  have lens: "unat l1 < 2 ^ 24" "unat e1 < 2 ^ 24" "unat e2 < 2 ^ 24" "2 ^ 24 \<le> unat l2"
    using l1(2) l2(2) e(2,4) by (simp_all add: unat_TargetGetLength div_eq_0_iff)
  have cmp: "\<not> 0x01000000 \<le> l1" "\<not> 0x01000000 \<le> e1" "\<not> 0x01000000 \<le> e2" "0x01000000 \<le> l2" "l1 < l2" "\<not> l2 < l1" "\<not> l2 < 0x01000000"
    using lens by (simp_all add: word_le_nat_alt word_less_nat_alt)
  have sel: "select_chain l1 l2 l1 = (PRIME_CHAIN_CUNNINGHAM2, l2)"
    using cmp by (simp add: select_chain_def)
  have len: "TargetGetLength 0x01000000 = 1" by (simp add: word_unat_eq_iff unat_TargetGetLength)
  have o: "uint (2 ^ 255 :: uint256) * 2 = 2 ^ 256" "(2 ^ 256 :: int) sdiv 2 = 2 ^ 255" by simp_all
  have "CheckPrimeProofOfWork me \<lparr>nTargetInitialLength = 7, nTargetMinLength = 1\<rparr> (2 ^ 255) 0x01000000 2
      = Some (Inr (Some (PRIME_CHAIN_CUNNINGHAM2, l2)))"
    unfolding CheckPrimeProofOfWork_def o Let_def t len obind_def
    using cmp sel by (simp add: hashBlockHeaderLimit_def bnPrimeMin_def bnPrimeMax_def bn_lshift_def o(2) t obind_def)
  then show ?thesis
    using CheckPrimeProofOfWork_sound [OF me(2)] unfolding me(1) by blast
qed

end
