(* ===== verification/MiningSieve.thy ===== *)
theory MiningSieve
  imports PrimeChain
begin

text \<open>
  The sieve of the miner: the class \<^verbatim>\<open>CSieveOfEratosthenes\<close> (\<^verbatim>\<open>src/src/prime.h\<close> lines 99 to 183,
  \<^verbatim>\<open>src/src/prime.cpp\<close> lines 602 to 650) and the tuning state \<^verbatim>\<open>CPrimeMiner\<close>.  OpenSSL's
  \<^verbatim>\<open>BN_mod_inverse\<close> is the parameter \<open>mi\<close>, \<open>None\<close> being its failure; its documented behaviour is
  \<^verbatim>\<open>mod_inverse_law\<close>.
\<close>

section \<open>Definitions\<close>

type_synonym mod_inverse = "int \<Rightarrow> int \<Rightarrow> int option"

definition mod_inverse_law :: "mod_inverse \<Rightarrow> bool" where
  "mod_inverse_law mi \<longleftrightarrow> (\<forall>a p. 1 < p \<longrightarrow> (case mi a p of
     Some x \<Rightarrow> 0 \<le> x \<and> x < p \<and> p dvd a * x - 1 | None \<Rightarrow> \<not> coprime a p))"

record sieve =
  nSieveSize :: nat
  sv_nBits :: u32
  sv_hashBlockHeader :: uint256
  bnFixedFactor :: int
  vfCompositeCunningham1 :: "bool list"
  vfCompositeCunningham2 :: "bool list"
  vfCompositeBiTwin :: "bool list"
  nPrimeSeq :: nat
  nCandidateMultiplier :: nat

definition CSieveOfEratosthenes :: "nat \<Rightarrow> u32 \<Rightarrow> uint256 \<Rightarrow> int \<Rightarrow> sieve" where
  "CSieveOfEratosthenes sz nBits hash bnFixedMultiplier =
     \<lparr>nSieveSize = sz, sv_nBits = nBits, sv_hashBlockHeader = hash,
      bnFixedFactor = bnFixedMultiplier * uint hash,
      vfCompositeCunningham1 = replicate nMaxSieveSize False,
      vfCompositeCunningham2 = replicate nMaxSieveSize False,
      vfCompositeBiTwin = replicate nMaxSieveSize False,
      nPrimeSeq = 0, nCandidateMultiplier = 0\<rparr>"

definition GetCandidateCount :: "sieve \<Rightarrow> nat" where
  "GetCandidateCount s =
     fold (\<lambda>nMultiplier nCandidates.
             if \<not> vfCompositeCunningham1 s ! nMultiplier \<or> \<not> vfCompositeCunningham2 s ! nMultiplier \<or>
                \<not> vfCompositeBiTwin s ! nMultiplier
             then nCandidates + 1 else nCandidates)
       [0..<nSieveSize s] 0"

text \<open>
  The scan for the next candidate: the result is the multiplier and its chain type, or \<open>None\<close>
  when the scan is complete and starts over.
\<close>

function GetNextCandidateMultiplier :: "sieve \<Rightarrow> sieve \<times> (nat \<times> u32) option" where
  "GetNextCandidateMultiplier s =
     (let c = nCandidateMultiplier s + 1; s' = s\<lparr>nCandidateMultiplier := c\<rparr> in
      if c \<ge> nSieveSize s then (s\<lparr>nCandidateMultiplier := 0\<rparr>, None)
      else if \<not> vfCompositeBiTwin s ! c then (s', Some (c, PRIME_CHAIN_BI_TWIN))
      else if \<not> vfCompositeCunningham1 s ! c then (s', Some (c, PRIME_CHAIN_CUNNINGHAM1))
      else if \<not> vfCompositeCunningham2 s ! c then (s', Some (c, PRIME_CHAIN_CUNNINGHAM2))
      else GetNextCandidateMultiplier s')"
  by auto
termination
  by (relation "measure (\<lambda>s. nSieveSize s - nCandidateMultiplier s)") auto

declare GetNextCandidateMultiplier.simps [simp del]

text \<open>One round of the loop of \<^verbatim>\<open>Weave\<close>: the inverse of the fixed factor and the three bitmaps.\<close>

type_synonym weave_state = "int \<times> bool list \<times> bool list \<times> bool list"

definition weave_round :: "nat \<Rightarrow> nat \<Rightarrow> nat \<Rightarrow> int \<Rightarrow> nat \<Rightarrow> weave_state \<Rightarrow> weave_state" where
  "weave_round sz nPrime nChainLength bnTwoInverse nBiTwinSeq = (\<lambda>(bnFixedInverse, c1, c2, bt).
     let p = int nPrime;
         nDelta = (if nBiTwinSeq mod 2 = 0 then -1 else 1);
         nSolvedMultiplier = unat (bn_getuint ((bnFixedInverse * (p - nDelta)) smod p));
         bnFixedInverse = (if nBiTwinSeq mod 2 = 1 then bnFixedInverse * bnTwoInverse else bnFixedInverse);
         bt = (if nBiTwinSeq < nChainLength then mark_multiples sz nPrime nSolvedMultiplier bt else bt);
         c1 = (if nBiTwinSeq mod 2 = 0 then mark_multiples sz nPrime nSolvedMultiplier c1 else c1);
         c2 = (if nBiTwinSeq mod 2 = 1 then mark_multiples sz nPrime nSolvedMultiplier c2 else c2)
     in (bnFixedInverse, c1, c2, bt))"

definition Weave :: "mod_inverse \<Rightarrow> nat list \<Rightarrow> sieve \<Rightarrow> sieve \<times> bool" where
  "Weave mi vPrimes s =
     (if nPrimeSeq s \<ge> length vPrimes \<or> vPrimes ! nPrimeSeq s \<ge> nSieveSize s then (s, False)
      else let nPrime = vPrimes ! nPrimeSeq s; p = int nPrime in
      if bnFixedFactor s smod p = 0 then (s\<lparr>nPrimeSeq := nPrimeSeq s + 1\<rparr>, True)
      else case mi (bnFixedFactor s) p of
        None \<Rightarrow> (s, False)
      | Some bnFixedInverse \<Rightarrow> (case mi 2 p of
          None \<Rightarrow> (s, False)
        | Some bnTwoInverse \<Rightarrow>
          let nChainLength = unat (TargetGetLength (sv_nBits s));
              (_, c1, c2, bt) =
                fold (weave_round (nSieveSize s) nPrime nChainLength bnTwoInverse) [0..<2 * nChainLength]
                  (bnFixedInverse, vfCompositeCunningham1 s, vfCompositeCunningham2 s, vfCompositeBiTwin s)
          in (s\<lparr>vfCompositeCunningham1 := c1, vfCompositeCunningham2 := c2, vfCompositeBiTwin := bt,
               nPrimeSeq := nPrimeSeq s + 1\<rparr>, True)))"

text \<open>The tuning state of the miner.\<close>

definition nSieveWeaveInitial :: nat where
  "nSieveWeaveInitial = 1000"

record prime_miner =
  fSieveRoundShrink :: bool
  nSieveCandidateCount :: nat
  nTimeSieveReady :: int
  nPrimalityTestCost :: int
  nPrimorialMultiplier :: nat
  nSieveWeaveOptimal :: nat

definition CPrimeMiner :: prime_miner where
  "CPrimeMiner = \<lparr>fSieveRoundShrink = True, nSieveCandidateCount = 0, nTimeSieveReady = 0,
     nPrimalityTestCost = 0, nPrimorialMultiplier = 7, nSieveWeaveOptimal = nSieveWeaveInitial\<rparr>"

definition GetSieveWeaveOptimalPrime :: "nat list \<Rightarrow> prime_miner \<Rightarrow> nat" where
  "GetSieveWeaveOptimalPrime vPrimes m =
     (if nSieveWeaveOptimal m < length vPrimes then vPrimes ! nSieveWeaveOptimal m else nPrimeTableLimit)"

definition SetSieveWeaveCost :: "int \<Rightarrow> nat \<Rightarrow> prime_miner \<Rightarrow> prime_miner" where
  "SetSieveWeaveCost nSieveWeaveCost nSieveWeaveComposites m =
     m\<lparr>fSieveRoundShrink := (nSieveWeaveCost > int nSieveWeaveComposites * nPrimalityTestCost m)\<rparr>"

definition SetSieveWeaveCount :: "nat \<Rightarrow> prime_miner \<Rightarrow> prime_miner" where
  "SetSieveWeaveCount nSieveWeaveCount m =
     (if nSieveWeaveCount < nSieveWeaveOptimal m
      then m\<lparr>nSieveWeaveOptimal := max nSieveWeaveCount nSieveWeaveInitial\<rparr> else m)"

definition AdjustSieveWeaveOptimal :: "nat list \<Rightarrow> prime_miner \<Rightarrow> prime_miner" where
  "AdjustSieveWeaveOptimal vPrimes m =
     (if fSieveRoundShrink m
      then m\<lparr>nSieveWeaveOptimal := max (nSieveWeaveOptimal m * 95 div 100 + 1) nSieveWeaveInitial\<rparr>
      else m\<lparr>nSieveWeaveOptimal := min (nSieveWeaveOptimal m * 100 div 95) (length vPrimes)\<rparr>)"

definition TimerSetSieveReady :: "nat \<Rightarrow> int \<Rightarrow> prime_miner \<Rightarrow> prime_miner" where
  "TimerSetSieveReady nCandidateCount nTimestampMicro m =
     m\<lparr>nSieveCandidateCount := nCandidateCount, nTimeSieveReady := nTimestampMicro\<rparr>"

definition TimerSetPrimalityDone :: "int \<Rightarrow> prime_miner \<Rightarrow> prime_miner" where
  "TimerSetPrimalityDone nTimestampMicro m =
     (if nTimestampMicro > nTimeSieveReady m \<and> nSieveCandidateCount m > 0
      then m\<lparr>nPrimalityTestCost := (nTimestampMicro - nTimeSieveReady m) div int (nSieveCandidateCount m)\<rparr>
      else m)"

text \<open>The members of the chains of a multiplier that the sieve sifts, in the order of the rounds.\<close>

definition sifted_number :: "int \<Rightarrow> nat \<Rightarrow> nat \<Rightarrow> int" where
  "sifted_number F nBiTwinSeq m =
     2 ^ (nBiTwinSeq div 2) * F * int m + (if nBiTwinSeq mod 2 = 0 then -1 else 1)"

text \<open>
  What a number of rounds has marked: the multipliers for which the prime divides one of the
  numbers that those rounds sift.
\<close>

definition woven :: "int \<Rightarrow> int \<Rightarrow> nat set \<Rightarrow> nat \<Rightarrow> bool" where
  "woven F p seqs m \<longleftrightarrow> (\<exists>i\<in>seqs. p dvd sifted_number F i m)"

text \<open>A reference implementation of the modular inverse, by search.\<close>

definition ref_mod_inverse :: mod_inverse where
  "ref_mod_inverse a p = find (\<lambda>x. p dvd a * x - 1) [0..p - 1]"

section \<open>Weaving\<close>

lemma dvd_shift:
  fixes p a x d v m :: int
  assumes "p dvd a * v - 1" "p dvd a * x + d"
  shows "p dvd a * m + d \<longleftrightarrow> p dvd m - x"
proof
  assume "p dvd m - x"
  then have "p dvd a * (m - x) + (a * x + d)" using assms(2) by simp
  then show "p dvd a * m + d" by (simp add: right_diff_distrib)
next
  assume "p dvd a * m + d"
  then have "p dvd v * ((a * m + d) - (a * x + d))" using assms(2) by (intro dvd_mult dvd_diff)
  then have "p dvd (m - x) + (a * v - 1) * (m - x)" by (simp add: algebra_simps)
  then show "p dvd m - x" using assms(1) by (metis dvd_add_left_iff dvd_mult2)
qed

lemma nat_residue:
  fixes p :: int
  assumes "1 < p" "int s < p"
  shows "p dvd int m - int s \<longleftrightarrow> s \<le> m \<and> nat p dvd m - s"
proof (cases "s \<le> m")
  case True
  then have "int m - int s = int (m - s)" by simp
  then show ?thesis using True assms(1) int_dvd_int_iff [of "nat p" "m - s"] by simp
next
  case False
  have "\<not> p dvd int s - int m" using False assms(2) by (intro zdvd_not_zless) simp_all
  then show ?thesis using False by (simp add: dvd_diff_commute)
qed

lemma solved_multiplier:
  fixes p F v :: int
  assumes p: "1 < p" "p < 2 ^ 32" and v: "0 \<le> v" "p dvd 2 ^ (i div 2) * F * v - 1"
  defines "d \<equiv> (if i mod 2 = 0 then -1 else 1)"
  defines "s \<equiv> unat (bn_getuint ((v * (p - d)) smod p))"
  shows "(s \<le> m \<and> nat p dvd m - s) \<longleftrightarrow> p dvd sifted_number F i m"
proof -
  let ?a = "2 ^ (i div 2) * F"
  define x where "x = v * (p - d) mod p"
  have x: "0 \<le> x" "x < p" using p by (simp_all add: x_def)
  have "0 \<le> v * (p - d)" using p v by (simp add: d_def)
  then have e: "(v * (p - d)) smod p = x" using p by (simp add: smod_nonneg x_def)
  have w: "bn_get_word x = nat x" using x p by (simp add: bn_get_word_def)
  have "unat (bn_getuint x) = nat x"
    unfolding bn_getuint_def w unat_of_nat using x p by (simp add: nat_less_iff)
  then have s: "int s = x" using x by (simp add: s_def e)
  obtain q where q: "x = v * (p - d) - p * q" unfolding x_def by (metis minus_mult_div_eq_mod)
  have "?a * x + d = p * (?a * v - ?a * q) - d * (?a * v - 1)" unfolding q by (simp add: algebra_simps)
  then have "p dvd ?a * x + d" using v(2) by (metis dvd_diff dvd_mult dvd_triv_left)
  then have "p dvd ?a * int m + d \<longleftrightarrow> p dvd int m - x" by (rule dvd_shift [OF v(2)])
  then show ?thesis
    using nat_residue [of p s m] x p s by (simp add: sifted_number_def d_def mult.assoc)
qed

lemma weave_rounds:
  fixes F v ti :: int and nPrime sz n :: nat
  defines "p \<equiv> int nPrime"
  assumes p: "1 < nPrime" "nPrime < 2 ^ 32" and v: "0 \<le> v" "p dvd F * v - 1" and ti: "0 \<le> ti" "p dvd 2 * ti - 1"
    and len: "length c1 = L" "length c2 = L" "length bt = L" "sz \<le> L" and m: "m < sz"
  shows "\<exists>v' c1' c2' bt'. fold (weave_round sz nPrime n ti) [0..<k] (v, c1, c2, bt) = (v', c1', c2', bt') \<and>
    0 \<le> v' \<and> p dvd 2 ^ (k div 2) * F * v' - 1 \<and> length c1' = L \<and> length c2' = L \<and> length bt' = L \<and>
    (c1' ! m \<longleftrightarrow> c1 ! m \<or> woven F p {i. i < k \<and> even i} m) \<and>
    (c2' ! m \<longleftrightarrow> c2 ! m \<or> woven F p {i. i < k \<and> odd i} m) \<and>
    (bt' ! m \<longleftrightarrow> bt ! m \<or> woven F p {i. i < k \<and> i < n} m)"
proof (induction k)
  case 0
  then show ?case using v len by (simp add: woven_def)
next
  case (Suc k)
  then obtain v' c1' c2' bt' where IH: "fold (weave_round sz nPrime n ti) [0..<k] (v, c1, c2, bt) = (v', c1', c2', bt')"
    "0 \<le> v'" "p dvd 2 ^ (k div 2) * F * v' - 1" "length c1' = L" "length c2' = L" "length bt' = L"
    "c1' ! m \<longleftrightarrow> c1 ! m \<or> woven F p {i. i < k \<and> even i} m"
    "c2' ! m \<longleftrightarrow> c2 ! m \<or> woven F p {i. i < k \<and> odd i} m"
    "bt' ! m \<longleftrightarrow> bt ! m \<or> woven F p {i. i < k \<and> i < n} m" by blast
  define s where "s = unat (bn_getuint ((v' * (p - (if k mod 2 = 0 then -1 else 1))) smod p))"
  have pp: "1 < p" "p < 2 ^ 32" "nat p = nPrime" using p by (simp_all add: p_def)
  have mark: "mark_multiples sz nPrime s vf ! m \<longleftrightarrow> vf ! m \<or> p dvd sifted_number F k m" if "length vf = L" for vf
    using that len m p solved_multiplier [OF pp(1,2) IH(2,3), of m, folded s_def]
    by (simp add: nth_mark_multiples pp(3))
  have vnext: "p dvd 2 ^ (Suc k div 2) * F * (if k mod 2 = 1 then v' * ti else v') - 1"
  proof (cases "k mod 2 = 1")
    case True
    then have "Suc k div 2 = Suc (k div 2)" by presburger
    then have e: "2 ^ (Suc k div 2) * F * (v' * ti) - 1
        = (2 ^ (k div 2) * F * v' - 1) * (2 * ti) + (2 * ti - 1)" by (simp add: algebra_simps)
    have "p dvd 2 ^ (Suc k div 2) * F * (v' * ti) - 1" unfolding e by (intro dvd_add dvd_mult2 IH(3) ti(2))
    then show ?thesis using True by simp
  next
    case False
    then have "Suc k div 2 = k div 2" by presburger
    then show ?thesis using False IH(3) by simp
  qed
  have w: "woven F p (insert k S) m \<longleftrightarrow> woven F p S m \<or> p dvd sifted_number F k m" for S
    by (auto simp: woven_def)
  have sets: "{i. i < Suc k \<and> Q i} = (if Q k then insert k {i. i < k \<and> Q i} else {i. i < k \<and> Q i})" for Q
    by (auto simp: less_Suc_eq)
  have "fold (weave_round sz nPrime n ti) [0..<Suc k] (v, c1, c2, bt)
      = weave_round sz nPrime n ti k (v', c1', c2', bt')" using IH(1) by simp
  also have "\<dots> = (if k mod 2 = 1 then v' * ti else v', if k mod 2 = 0 then mark_multiples sz nPrime s c1' else c1',
      if k mod 2 = 1 then mark_multiples sz nPrime s c2' else c2', if k < n then mark_multiples sz nPrime s bt' else bt')"
    by (simp add: weave_round_def Let_def s_def p_def)
  finally show ?case
    using IH(2,4-) ti(1) vnext mark w unfolding sets
    by (auto simp: even_iff_mod_2_eq_zero odd_iff_mod_2_eq_one)
qed

lemma is_prime_coprime:
  assumes "is_prime q" "\<not> int q dvd a"
  shows "coprime a (int q)"
proof -
  have "gcd a (int q) = int (nat (gcd a (int q)))" by simp
  moreover have "int (nat (gcd a (int q))) dvd int q" by simp
  then have "nat (gcd a (int q)) dvd q" by (simp only: int_dvd_int_iff)
  then have "nat (gcd a (int q)) = 1 \<or> nat (gcd a (int q)) = q" using assms(1) by (auto simp: is_prime_def)
  ultimately show ?thesis using assms(2) by (metis coprime_iff_gcd_eq_1 gcd_dvd1 of_nat_1)
qed

lemma mod_inverse_Some:
  assumes "mod_inverse_law mi" "1 < p" "coprime a p"
  shows "\<exists>x. mi a p = Some x \<and> 0 \<le> x \<and> x < p \<and> p dvd a * x - 1"
proof (cases "mi a p")
  case None
  have "case mi a p of Some x \<Rightarrow> 0 \<le> x \<and> x < p \<and> p dvd a * x - 1 | None \<Rightarrow> \<not> coprime a p"
    using assms(1,2) unfolding mod_inverse_law_def by blast
  with None assms(3) show ?thesis by simp
next
  case (Some x)
  have "case mi a p of Some x \<Rightarrow> 0 \<le> x \<and> x < p \<and> p dvd a * x - 1 | None \<Rightarrow> \<not> coprime a p"
    using assms(1,2) unfolding mod_inverse_law_def by blast
  with Some show ?thesis by simp
qed

lemma ref_mod_inverse_law: "mod_inverse_law ref_mod_inverse"
  unfolding mod_inverse_law_def
proof (intro allI impI)
  fix a p :: int assume p: "1 < p"
  show "case ref_mod_inverse a p of Some x \<Rightarrow> 0 \<le> x \<and> x < p \<and> p dvd a * x - 1 | None \<Rightarrow> \<not> coprime a p"
  proof (cases "ref_mod_inverse a p")
    case (Some x)
    then obtain i where i: "i < length [0..p - 1]" "p dvd a * x - 1" "x = [0..p - 1] ! i"
      unfolding ref_mod_inverse_def find_Some_iff by blast
    then have "x \<in> set [0..p - 1]" unfolding i(3) by (intro nth_mem)
    with i(2) Some show ?thesis by simp
  next
    case None
    have "\<not> coprime a p"
    proof
      assume "coprime a p"
      then obtain u v where uv: "u * a + v * p = 1" using bezout_int [of a p] by (auto simp: coprime_iff_gcd_eq_1)
      have "u mod p \<in> set [0..p - 1]" using p by simp
      moreover have "a * (u mod p) - 1 = - (v + a * (u div p)) * p"
        using uv by (simp add: minus_mult_div_eq_mod [symmetric] algebra_simps)
      then have "p dvd a * (u mod p) - 1" by simp
      ultimately show False using None unfolding ref_mod_inverse_def find_None_iff by blast
    qed
    with None show ?thesis by simp
  qed
qed

lemma woven_even: "woven F p {i. i < 2 * n \<and> even i} m \<longleftrightarrow> (\<exists>k<n. p dvd 2 ^ k * F * int m - 1)"
proof
  assume "woven F p {i. i < 2 * n \<and> even i} m"
  then obtain i where "i < 2 * n" "even i" "p dvd sifted_number F i m" by (auto simp: woven_def)
  then show "\<exists>k<n. p dvd 2 ^ k * F * int m - 1"
    by (intro exI [of _ "i div 2"]) (auto simp: sifted_number_def)
next
  assume "\<exists>k<n. p dvd 2 ^ k * F * int m - 1"
  then obtain k where "k < n" "p dvd 2 ^ k * F * int m - 1" by blast
  then show "woven F p {i. i < 2 * n \<and> even i} m"
    unfolding woven_def by (intro bexI [of _ "2 * k"]) (auto simp: sifted_number_def)
qed

lemma woven_odd: "woven F p {i. i < 2 * n \<and> odd i} m \<longleftrightarrow> (\<exists>k<n. p dvd 2 ^ k * F * int m + 1)"
proof
  assume "woven F p {i. i < 2 * n \<and> odd i} m"
  then obtain i where "i < 2 * n" "odd i" "p dvd sifted_number F i m" by (auto simp: woven_def)
  then show "\<exists>k<n. p dvd 2 ^ k * F * int m + 1"
    by (intro exI [of _ "i div 2"]) (auto simp: sifted_number_def odd_iff_mod_2_eq_one)
next
  assume "\<exists>k<n. p dvd 2 ^ k * F * int m + 1"
  then obtain k where "k < n" "p dvd 2 ^ k * F * int m + 1" by blast
  then show "woven F p {i. i < 2 * n \<and> odd i} m"
    unfolding woven_def by (intro bexI [of _ "2 * k + 1"]) (auto simp: sifted_number_def)
qed

lemma woven_both: "woven F p {i. i < 2 * n \<and> i < n} m \<longleftrightarrow>
  (\<exists>k<(n + 1) div 2. p dvd 2 ^ k * F * int m - 1) \<or> (\<exists>k<n div 2. p dvd 2 ^ k * F * int m + 1)"
proof
  assume "woven F p {i. i < 2 * n \<and> i < n} m"
  then obtain i where i: "i < n" "p dvd sifted_number F i m" by (auto simp: woven_def)
  show "(\<exists>k<(n + 1) div 2. p dvd 2 ^ k * F * int m - 1) \<or> (\<exists>k<n div 2. p dvd 2 ^ k * F * int m + 1)"
  proof (cases "even i")
    case True
    then have "i div 2 < (n + 1) div 2" using i(1) by presburger
    then show ?thesis using True i(2) by (auto simp: sifted_number_def)
  next
    case False
    then have "i div 2 < n div 2" using i(1) by presburger
    then show ?thesis using False i(2) by (auto simp: sifted_number_def odd_iff_mod_2_eq_one)
  qed
next
  assume "(\<exists>k<(n + 1) div 2. p dvd 2 ^ k * F * int m - 1) \<or> (\<exists>k<n div 2. p dvd 2 ^ k * F * int m + 1)"
  then consider k where "k < (n + 1) div 2" "p dvd 2 ^ k * F * int m - 1"
    | k where "k < n div 2" "p dvd 2 ^ k * F * int m + 1" by blast
  then show "woven F p {i. i < 2 * n \<and> i < n} m"
  proof cases
    case (1 k)
    then show ?thesis unfolding woven_def
      by (intro bexI [of _ "2 * k"]) (auto simp: sifted_number_def)
  next
    case (2 k)
    then show ?thesis unfolding woven_def
      by (intro bexI [of _ "2 * k + 1"]) (auto simp: sifted_number_def)
  qed
qed

section \<open>Properties\<close>

text \<open>
  C7. One \<^verbatim>\<open>Weave\<close> step is exact: for an odd prime that does not divide the fixed factor, it
  marks in each bitmap precisely the multipliers whose chain of that type, up to the target
  length, has a member divisible by the prime, and nothing else.
\<close>

theorem Weave_exact:
  fixes s :: sieve and vPrimes :: "nat list"
  defines "p \<equiv> int (vPrimes ! nPrimeSeq s)" and "F \<equiv> bnFixedFactor s" and "n \<equiv> unat (TargetGetLength (sv_nBits s))"
  assumes "mod_inverse_law mi" "nPrimeSeq s < length vPrimes" "is_prime (vPrimes ! nPrimeSeq s)" "odd (vPrimes ! nPrimeSeq s)"
    and "vPrimes ! nPrimeSeq s < nSieveSize s" "nSieveSize s < 2 ^ 32" "0 \<le> F" "\<not> p dvd F"
    and "length (vfCompositeCunningham1 s) = L" "length (vfCompositeCunningham2 s) = L"
    and "length (vfCompositeBiTwin s) = L" "nSieveSize s \<le> L" "m < nSieveSize s"
  shows "\<exists>s'. Weave mi vPrimes s = (s', True) \<and> nPrimeSeq s' = nPrimeSeq s + 1 \<and>
    (vfCompositeCunningham1 s' ! m \<longleftrightarrow> vfCompositeCunningham1 s ! m \<or> (\<exists>k<n. p dvd 2 ^ k * F * int m - 1)) \<and>
    (vfCompositeCunningham2 s' ! m \<longleftrightarrow> vfCompositeCunningham2 s ! m \<or> (\<exists>k<n. p dvd 2 ^ k * F * int m + 1)) \<and>
    (vfCompositeBiTwin s' ! m \<longleftrightarrow> vfCompositeBiTwin s ! m \<or>
       (\<exists>k<(n + 1) div 2. p dvd 2 ^ k * F * int m - 1) \<or> (\<exists>k<n div 2. p dvd 2 ^ k * F * int m + 1))"
proof -
  have p1: "1 < vPrimes ! nPrimeSeq s" using assms(6) by (simp add: is_prime_def)
  then have p2: "1 < p" by (simp add: p_def)
  have "\<not> p dvd 2"
  proof
    assume "p dvd 2"
    then have "p \<le> 2" by (rule zdvd_imp_le) simp
    then have "vPrimes ! nPrimeSeq s = 2" using p2 by (simp add: p_def)
    then show False using assms(7) by simp
  qed
  then have "coprime 2 p" "coprime F p"
    using is_prime_coprime [OF assms(6)] assms(7,11) by (simp_all add: p_def)
  then obtain v ti where v: "mi F p = Some v" "0 \<le> v" "p dvd F * v - 1"
    and ti: "mi 2 p = Some ti" "0 \<le> ti" "p dvd 2 * ti - 1"
    using mod_inverse_Some [OF assms(4) p2] by metis
  have nz: "F smod p \<noteq> 0" using assms(10,11) p2 by (simp add: smod_nonneg dvd_eq_mod_eq_0)
  obtain v' c1 c2 bt where f: "fold (weave_round (nSieveSize s) (vPrimes ! nPrimeSeq s) n ti) [0..<2 * n]
      (v, vfCompositeCunningham1 s, vfCompositeCunningham2 s, vfCompositeBiTwin s) = (v', c1, c2, bt)"
    and w: "c1 ! m \<longleftrightarrow> vfCompositeCunningham1 s ! m \<or> woven F p {i. i < 2 * n \<and> even i} m"
    "c2 ! m \<longleftrightarrow> vfCompositeCunningham2 s ! m \<or> woven F p {i. i < 2 * n \<and> odd i} m"
    "bt ! m \<longleftrightarrow> vfCompositeBiTwin s ! m \<or> woven F p {i. i < 2 * n \<and> i < n} m"
    using weave_rounds [OF p1 _ v(2) v(3) [unfolded p_def] ti(2) ti(3) [unfolded p_def] assms(12-16), of n "2 * n"] assms(8,9)
    by (auto simp: p_def)
  have "Weave mi vPrimes s = (s\<lparr>vfCompositeCunningham1 := c1, vfCompositeCunningham2 := c2,
      vfCompositeBiTwin := bt, nPrimeSeq := nPrimeSeq s + 1\<rparr>, True)"
    using assms(5,8) nz v(1) ti(1) f by (simp add: Weave_def Let_def p_def F_def n_def)
  then show ?thesis using w by (simp add: woven_even woven_odd woven_both)
qed

theorem Weave_exact_witness:
  "\<exists>s'. Weave ref_mod_inverse [2, 3, 5, 7] ((CSieveOfEratosthenes 20 0x07000000 (2 ^ 255) 1)\<lparr>nPrimeSeq := 1\<rparr>) = (s', True)
     \<and> nPrimeSeq s' = 2"
proof -
  let ?s = "(CSieveOfEratosthenes 20 0x07000000 (2 ^ 255) 1)\<lparr>nPrimeSeq := 1\<rparr>"
  have "d = 1 \<or> d = 3" if "d dvd 3" for d :: nat
  proof -
    have "d \<le> 3" using that by (rule dvd_imp_le) simp
    then have "d = 0 \<or> d = 1 \<or> d = 2 \<or> d = 3" by arith
    then show ?thesis using that by auto
  qed
  then have p: "is_prime 3" by (auto simp: is_prime_def)
  have f: "bnFixedFactor ?s = 2 ^ 255" "\<not> 3 dvd (2 ^ 255 :: int)" by (simp_all add: CSieveOfEratosthenes_def)
  have n: "20 \<le> nMaxSieveSize" by (simp add: nMaxSieveSize_def)
  have l: "nSieveSize ?s = 20" "nPrimeSeq ?s = 1" "length (vfCompositeCunningham1 ?s) = nMaxSieveSize"
    "length (vfCompositeCunningham2 ?s) = nMaxSieveSize" "length (vfCompositeBiTwin ?s) = nMaxSieveSize"
    by (simp_all add: CSieveOfEratosthenes_def)
  have "\<exists>s'. Weave ref_mod_inverse [2, 3, 5, 7] ?s = (s', True) \<and> nPrimeSeq s' = nPrimeSeq ?s + 1"
    using Weave_exact [OF ref_mod_inverse_law, of ?s "[2, 3, 5, 7]", unfolded l f(1), OF _ _ _ _ _ _ _ refl refl refl n, of 0]
      p f(2) by auto
  then show ?thesis by (simp add: l numeral_2_eq_2)
qed

text \<open>
  C8. \<^verbatim>\<open>GetNextCandidateMultiplier\<close> moves to the least multiplier above the current one that some
  bitmap leaves unmarked, prefers a bi-twin chain over one of the first and that over one of
  the second kind, and reports the end of the scan exactly when there is none.
\<close>

theorem next_candidate_exact:
  fixes s :: sieve
  defines "cand \<equiv> \<lambda>c. \<not> (vfCompositeBiTwin s ! c \<and> vfCompositeCunningham1 s ! c \<and> vfCompositeCunningham2 s ! c)"
  defines "typ \<equiv> \<lambda>c. if \<not> vfCompositeBiTwin s ! c then PRIME_CHAIN_BI_TWIN
     else if \<not> vfCompositeCunningham1 s ! c then PRIME_CHAIN_CUNNINGHAM1 else PRIME_CHAIN_CUNNINGHAM2"
  defines "C \<equiv> {c. nCandidateMultiplier s < c \<and> c < nSieveSize s \<and> cand c}"
  shows "GetNextCandidateMultiplier s =
    (if C = {} then (s\<lparr>nCandidateMultiplier := 0\<rparr>, None)
     else (s\<lparr>nCandidateMultiplier := Min C\<rparr>, Some (Min C, typ (Min C))))"
  unfolding C_def typ_def cand_def de_Morgan_conj
proof (induction s rule: GetNextCandidateMultiplier.induct)
  case (1 s)
  define c where "c = nCandidateMultiplier s + 1"
  let ?cand = "\<lambda>c. \<not> vfCompositeBiTwin s ! c \<or> \<not> vfCompositeCunningham1 s ! c \<or> \<not> vfCompositeCunningham2 s ! c"
  let ?C = "\<lambda>b. {c. b < c \<and> c < nSieveSize s \<and> ?cand c}"
  consider (stop) "nSieveSize s \<le> c" | (hit) "c < nSieveSize s" "?cand c" | (skip) "c < nSieveSize s" "\<not> ?cand c"
    by linarith
  then show ?case
  proof cases
    case stop
    then have "?C (nCandidateMultiplier s) = {}" by (auto simp: c_def)
    then show ?thesis
      using stop unfolding c_def by (subst GetNextCandidateMultiplier.simps) (simp add: Let_def del: Collect_empty_eq)
  next
    case hit
    then have "Min (?C (nCandidateMultiplier s)) = c" by (intro Min_eqI) (auto simp: c_def)
    moreover have "c \<in> ?C (nCandidateMultiplier s)" using hit by (auto simp: c_def)
    then have "?C (nCandidateMultiplier s) \<noteq> {}" by blast
    ultimately show ?thesis
      using hit unfolding c_def by (subst GetNextCandidateMultiplier.simps) (auto simp add: Let_def simp del: Collect_empty_eq)
  next
    case skip
    have e: "?C (nCandidateMultiplier s) = ?C c" using skip by (auto simp: c_def) (metis Suc_lessI)+
    have "GetNextCandidateMultiplier s = GetNextCandidateMultiplier (s\<lparr>nCandidateMultiplier := c\<rparr>)"
      using skip unfolding c_def by (subst GetNextCandidateMultiplier.simps) (simp add: Let_def)
    also have "\<dots> = (if ?C c = {} then (s\<lparr>nCandidateMultiplier := 0\<rparr>, None)
       else (s\<lparr>nCandidateMultiplier := Min (?C c)\<rparr>, Some (Min (?C c), if \<not> vfCompositeBiTwin s ! Min (?C c) then PRIME_CHAIN_BI_TWIN
     else if \<not> vfCompositeCunningham1 s ! Min (?C c) then PRIME_CHAIN_CUNNINGHAM1 else PRIME_CHAIN_CUNNINGHAM2)))"
      using 1 [OF c_def refl] skip by (simp add: c_def)
    finally show ?thesis unfolding e .
  qed
qed

end
