(* ===== verification/Serialize.thy ===== *)
theory Serialize
  imports Prelude
begin

text \<open>
  The stream formats of \<^verbatim>\<open>src/src/serialize.h\<close>: plain integers, compact sizes, variable
  length integers and vectors.  A stream is the list of its remaining bytes; reading past
  the end throws, as \<^verbatim>\<open>CDataStream::read\<close> does with its default exception mask.  The locale
  \<^verbatim>\<open>codec\<close> is the contract that every \<^verbatim>\<open>IMPLEMENT_SERIALIZE\<close> class of the program meets:
  reading what was written gives the value and the rest of the stream.
\<close>

section \<open>Definitions\<close>

type_synonym 'a reader = "byte list \<Rightarrow> ('a \<times> byte list) res"

definition stream_read :: "nat \<Rightarrow> byte list reader" where
  "stream_read nSize is =
     (if nSize > length is then Inl Ios_failure else Inr (take nSize is, drop nSize is))"

definition write_le :: "nat \<Rightarrow> nat \<Rightarrow> byte list" where
  "write_le k n = le_bytes k n"

definition read_le :: "nat \<Rightarrow> nat reader" where
  "read_le k is = rbind (stream_read k is) (\<lambda>(bs, is). Inr (le_val bs, is))"

definition MAX_SIZE :: nat where
  "MAX_SIZE = 0x02000000"

definition GetSizeOfCompactSize :: "nat \<Rightarrow> nat" where
  "GetSizeOfCompactSize nSize =
     (if nSize < 253 then 1 else if nSize \<le> 0xFFFF then 1 + 2
      else if nSize \<le> 0xFFFFFFFF then 1 + 4 else 1 + 8)"

definition WriteCompactSize :: "nat \<Rightarrow> byte list" where
  "WriteCompactSize nSize =
     (if nSize < 253 then write_le 1 nSize
      else if nSize \<le> 0xFFFF then write_le 1 253 @ write_le 2 nSize
      else if nSize \<le> 0xFFFFFFFF then write_le 1 254 @ write_le 4 nSize
      else write_le 1 255 @ write_le 8 nSize)"

definition ReadCompactSize :: "nat reader" where
  "ReadCompactSize is =
     rbind (read_le 1 is) (\<lambda>(chSize, is).
     rbind (if chSize < 253 then Inr (chSize, is)
            else if chSize = 253 then read_le 2 is
            else if chSize = 254 then read_le 4 is
            else read_le 8 is) (\<lambda>(nSizeRet, is).
     if nSizeRet > MAX_SIZE then Inl Ios_failure else Inr (nSizeRet, is)))"

text \<open>
  Variable length integers.  The writer is given a value of an unsigned type; \<^verbatim>\<open>tmp\<close> is filled
  from the least significant digit and written backwards, and \<open>first\<close> tells whether this is the
  digit with \<^verbatim>\<open>len == 0\<close>.  The reader computes in a type of \<open>w\<close> bits: the shift and the increment
  wrap around, and the low seven bits that the shift frees make the disjunction a sum.
\<close>

fun GetSizeOfVarInt :: "nat \<Rightarrow> nat" where
  "GetSizeOfVarInt n = (if n \<le> 0x7F then 1 else 1 + GetSizeOfVarInt (n div 128 - 1))"

fun WriteVarInt_tmp :: "nat \<Rightarrow> bool \<Rightarrow> byte list" where
  "WriteVarInt_tmp n first =
     (let d = (of_nat (n mod 128) :: byte) OR (if first then 0 else 0x80)
      in if n \<le> 0x7F then [d] else d # WriteVarInt_tmp (n div 128 - 1) False)"

declare GetSizeOfVarInt.simps [simp del] WriteVarInt_tmp.simps [simp del]

definition WriteVarInt :: "nat \<Rightarrow> byte list" where
  "WriteVarInt n = rev (WriteVarInt_tmp n True)"

fun ReadVarInt_loop :: "nat \<Rightarrow> nat \<Rightarrow> nat reader" where
  "ReadVarInt_loop w n [] = Inl Ios_failure"
| "ReadVarInt_loop w n (chData # is) =
     (let n = (n * 128 + unat (chData AND 0x7F)) mod 2 ^ w
      in if chData AND 0x80 \<noteq> 0 then ReadVarInt_loop w ((n + 1) mod 2 ^ w) is else Inr (n, is))"

definition ReadVarInt :: "nat \<Rightarrow> nat reader" where
  "ReadVarInt w is = ReadVarInt_loop w 0 is"

text \<open>Vectors of bytes are read in blocks, vectors of objects one element after the other.\<close>

definition Serialize_bytes :: "byte list \<Rightarrow> byte list" where
  "Serialize_bytes v = WriteCompactSize (length v) @ v"

function read_blocks :: "nat \<Rightarrow> nat \<Rightarrow> byte list \<Rightarrow> byte list reader" where
  "read_blocks nSize i v is =
     (if i < nSize then
        let blk = min (nSize - i) (1 + 4999999)
        in rbind (stream_read blk is) (\<lambda>(bs, is). read_blocks nSize (i + blk) (v @ bs) is)
      else Inr (v, is))"
  by auto
termination
  by (relation "measure (\<lambda>(nSize, i, v, is). nSize - i)") auto

declare read_blocks.simps [simp del]

definition Unserialize_bytes :: "byte list reader" where
  "Unserialize_bytes is = rbind (ReadCompactSize is) (\<lambda>(nSize, is). read_blocks nSize 0 [] is)"

definition Serialize_vector :: "('a \<Rightarrow> byte list) \<Rightarrow> 'a list \<Rightarrow> byte list" where
  "Serialize_vector ser v = WriteCompactSize (length v) @ concat (map ser v)"

fun read_elements :: "'a reader \<Rightarrow> nat \<Rightarrow> 'a list reader" where
  "read_elements rd 0 is = Inr ([], is)"
| "read_elements rd (Suc n) is =
     rbind (rd is) (\<lambda>(x, is). rbind (read_elements rd n is) (\<lambda>(xs, is). Inr (x # xs, is)))"

definition Unserialize_vector :: "'a reader \<Rightarrow> 'a list reader" where
  "Unserialize_vector rd is = rbind (ReadCompactSize is) (\<lambda>(nSize, is). read_elements rd nSize is)"

section \<open>The contract of a serializer\<close>

locale codec =
  fixes ser :: "'a \<Rightarrow> byte list"
    and unser :: "'a reader"
    and valid :: "'a \<Rightarrow> bool"
  assumes unser_ser: "valid x \<Longrightarrow> unser (ser x @ rest) = Inr (x, rest)"
begin

lemma ser_prefix_free:
  assumes "valid x" "valid y" "ser x @ r = ser y @ s"
  shows "x = y \<and> r = s"
  using unser_ser [OF assms(1), of r] unser_ser [OF assms(2), of s]
  unfolding assms(3) by simp

lemma ser_inj: "valid x \<Longrightarrow> valid y \<Longrightarrow> ser x = ser y \<Longrightarrow> x = y"
  using ser_prefix_free [of x y "[]" "[]"] by simp

lemma read_elements_ser:
  "\<forall>x\<in>set xs. valid x \<Longrightarrow> read_elements unser (length xs) (concat (map ser xs) @ rest) = Inr (xs, rest)"
  by (induction xs) (auto simp: unser_ser)

lemma vector_codec:
  assumes "\<And>n r. n \<le> MAX_SIZE \<Longrightarrow> ReadCompactSize (WriteCompactSize n @ r) = Inr (n, r)"
  shows "codec (Serialize_vector ser) (Unserialize_vector unser) (\<lambda>xs. length xs \<le> MAX_SIZE \<and> (\<forall>x\<in>set xs. valid x))"
  by unfold_locales (simp add: Serialize_vector_def Unserialize_vector_def assms read_elements_ser)

end

section \<open>Integers and sizes\<close>

lemma stream_read_append [simp]: "stream_read (length bs) (bs @ rest) = Inr (bs, rest)"
  by (simp add: stream_read_def)

lemma read_le_write [simp]: "n < 256 ^ k \<Longrightarrow> read_le k (write_le k n @ rest) = Inr (n, rest)"
  using stream_read_append [of "le_bytes k n" rest]
  by (simp add: read_le_def write_le_def length_le_bytes del: stream_read_append)

interpretation le4: codec "write_le 4" "read_le 4" "\<lambda>n. n < 2 ^ 32"
  by unfold_locales simp

interpretation le8: codec "write_le 8" "read_le 8" "\<lambda>n. n < 2 ^ 64"
  by unfold_locales simp

lemma ReadCompactSize_write:
  "n \<le> MAX_SIZE \<Longrightarrow> ReadCompactSize (WriteCompactSize n @ rest) = Inr (n, rest)"
  by (simp add: ReadCompactSize_def WriteCompactSize_def MAX_SIZE_def)

interpretation csize: codec WriteCompactSize ReadCompactSize "\<lambda>n. n \<le> MAX_SIZE"
  by unfold_locales (rule ReadCompactSize_write)

lemma length_WriteCompactSize: "length (WriteCompactSize n) = GetSizeOfCompactSize n"
  by (simp add: WriteCompactSize_def GetSizeOfCompactSize_def write_le_def length_le_bytes)

lemma read_blocks_eq:
  "i \<le> nSize \<Longrightarrow> length bs = nSize - i \<Longrightarrow> read_blocks nSize i v (bs @ rest) = Inr (v @ bs, rest)"
proof (induction nSize i v "bs @ rest" arbitrary: bs rule: read_blocks.induct)
  case (1 nSize i v)
  show ?case
  proof (cases "i < nSize")
    case True
    define blk where "blk = min (nSize - i) (1 + 4999999)"
    have b: "blk \<le> length bs" "i + blk \<le> nSize" using 1(3) True by (auto simp: blk_def)
    then have "stream_read blk (bs @ rest) = Inr (take blk bs, drop blk bs @ rest)"
      by (simp add: stream_read_def)
    moreover have "read_blocks nSize (i + blk) (v @ take blk bs) (drop blk bs @ rest) = Inr ((v @ take blk bs) @ drop blk bs, rest)"
      using 1(1) [OF True blk_def] b 1(3) by simp
    ultimately show ?thesis
      using True unfolding blk_def by (subst read_blocks.simps) (simp add: Let_def)
  next
    case False
    then show ?thesis using 1(3) by (subst read_blocks.simps) simp
  qed
qed

interpretation bytes: codec Serialize_bytes Unserialize_bytes "\<lambda>v. length v \<le> MAX_SIZE"
proof
  fix v rest :: "byte list"
  assume "length v \<le> MAX_SIZE"
  then show "Unserialize_bytes (Serialize_bytes v @ rest) = Inr (v, rest)"
    using read_blocks_eq [of 0 "length v" v "[]" rest]
    by (simp add: Unserialize_bytes_def Serialize_bytes_def ReadCompactSize_write)
qed

section \<open>Variable length integers\<close>

lemma digit_bits:
  fixes d :: byte
  assumes "unat d < 128"
  shows "unat ((d OR 0x80) AND 0x7F) = unat d" "(d OR 0x80) AND 0x80 \<noteq> 0"
    "unat (d AND 0x7F) = unat d" "d AND 0x80 = 0"
proof -
  have o: "unat (d OR 0x80) = unat d + 128" using assms by (rule byte_or_80)
  show "unat ((d OR 0x80) AND 0x7F) = unat d" "unat (d AND 0x7F) = unat d"
    using assms by (simp_all add: byte_and_7f o)
  show "(d OR 0x80) AND 0x80 \<noteq> 0" "d AND 0x80 = 0"
    using assms o by (simp_all add: byte_and_80)
qed

lemma read_digit:
  assumes "k < 128" "a * 128 + k < 2 ^ w"
  shows "ReadVarInt_loop w a (((of_nat k :: byte) OR 0x80) # is) = ReadVarInt_loop w ((a * 128 + k + 1) mod 2 ^ w) is"
    "ReadVarInt_loop w a ((of_nat k :: byte) # is) = Inr (a * 128 + k, is)"
  using assms digit_bits [of "of_nat k"] by (simp_all add: Let_def)

lemma read_digits_more:
  assumes "n < 2 ^ w"
  shows "ReadVarInt_loop w 0 (rev (WriteVarInt_tmp n False) @ rest) = ReadVarInt_loop w ((n + 1) mod 2 ^ w) rest"
  using assms
proof (induction n arbitrary: rest rule: less_induct)
  case (less n)
  show ?case
  proof (cases "n \<le> 0x7F")
    case True
    then show ?thesis
      using less.prems read_digit(1) [of n 0 w rest]
      by (subst WriteVarInt_tmp.simps) (simp add: Let_def)
  next
    case False
    let ?m = "n div 128 - 1"
    have m: "?m < n" "?m + 1 = n div 128" "n div 128 * 128 + n mod 128 = n" using False by auto
    have lt: "n div 128 < 2 ^ w" using less.prems by (meson div_le_dividend le_less_trans)
    have "ReadVarInt_loop w 0 (rev (WriteVarInt_tmp n False) @ rest)
        = ReadVarInt_loop w 0 (rev (WriteVarInt_tmp ?m False) @ ((of_nat (n mod 128) :: byte) OR 0x80) # rest)"
      using False by (subst WriteVarInt_tmp.simps) (simp add: Let_def)
    also have "\<dots> = ReadVarInt_loop w (n div 128) (((of_nat (n mod 128) :: byte) OR 0x80) # rest)"
      using less.IH [OF m(1)] m(1) less.prems lt unfolding m(2) by simp
    also have "\<dots> = ReadVarInt_loop w ((n + 1) mod 2 ^ w) rest"
      using read_digit(1) [of "n mod 128" "n div 128" w rest] m(3) less.prems by simp
    finally show ?thesis .
  qed
qed

lemma ReadVarInt_write:
  assumes "n < 2 ^ w"
  shows "ReadVarInt w (WriteVarInt n @ rest) = Inr (n, rest)"
proof (cases "n \<le> 0x7F")
  case True
  then show ?thesis
    using assms read_digit(2) [of n 0 w rest]
    by (simp add: ReadVarInt_def WriteVarInt_def WriteVarInt_tmp.simps [of n] Let_def)
next
  case False
  let ?m = "n div 128 - 1"
  have m: "?m + 1 = n div 128" "n div 128 * 128 + n mod 128 = n" using False by auto
  have lt: "?m < 2 ^ w" "n div 128 < 2 ^ w" using assms by (meson diff_le_self div_le_dividend le_less_trans)+
  have "ReadVarInt w (WriteVarInt n @ rest)
      = ReadVarInt_loop w 0 (rev (WriteVarInt_tmp ?m False) @ (of_nat (n mod 128) :: byte) # rest)"
    using False by (simp add: ReadVarInt_def WriteVarInt_def WriteVarInt_tmp.simps [of n] Let_def)
  also have "\<dots> = ReadVarInt_loop w (n div 128) ((of_nat (n mod 128) :: byte) # rest)"
    using read_digits_more [OF lt(1)] lt(2) unfolding m(1) by simp
  also have "\<dots> = Inr (n, rest)"
    using read_digit(2) [of "n mod 128" "n div 128" w rest] m(2) assms by simp
  finally show ?thesis .
qed

interpretation varint32: codec WriteVarInt "ReadVarInt 32" "\<lambda>n. n < 2 ^ 32"
  by unfold_locales (rule ReadVarInt_write)

interpretation varint64: codec WriteVarInt "ReadVarInt 64" "\<lambda>n. n < 2 ^ 64"
  by unfold_locales (rule ReadVarInt_write)

lemma length_WriteVarInt_tmp: "length (WriteVarInt_tmp n f) = GetSizeOfVarInt n"
proof (induction n f rule: WriteVarInt_tmp.induct)
  case (1 n f)
  then show ?case
    by (subst WriteVarInt_tmp.simps, subst GetSizeOfVarInt.simps) (simp add: Let_def)
qed

lemma GetSizeOfVarInt_le: "n < 2 ^ (7 * k) \<Longrightarrow> 0 < k \<Longrightarrow> GetSizeOfVarInt n \<le> k"
proof (induction k arbitrary: n)
  case (Suc k)
  show ?case
  proof (cases "n \<le> 0x7F")
    case True
    then show ?thesis by (subst GetSizeOfVarInt.simps) simp
  next
    case False
    then have k: "0 < k" using Suc.prems by (cases k) simp_all
    have "n div 128 < 2 ^ (7 * k)"
      using Suc.prems by (intro less_mult_imp_div_less) (simp add: power_add mult.commute)
    then have "n div 128 - 1 < 2 ^ (7 * k)" by simp
    then have "GetSizeOfVarInt (n div 128 - 1) \<le> k" using k by (rule Suc.IH)
    then show ?thesis using False by (subst GetSizeOfVarInt.simps) simp
  qed
qed simp

section \<open>Properties\<close>

text \<open>
  C21. Variable length integers: for every value of a \<open>w\<close> bit type, \<^verbatim>\<open>ReadVarInt\<close> reads back what
  \<^verbatim>\<open>WriteVarInt\<close> wrote and leaves the rest of the stream, the number of bytes is the one
  \<^verbatim>\<open>GetSizeOfVarInt\<close> announces, and it never exceeds the \<^verbatim>\<open>(w + 6) / 7\<close> bytes of the buffer \<^verbatim>\<open>tmp\<close>.
\<close>

theorem VarInt_roundtrip:
  assumes "n < 2 ^ w" "0 < w"
  shows "ReadVarInt w (WriteVarInt n @ rest) = Inr (n, rest) \<and>
    length (WriteVarInt n) = GetSizeOfVarInt n \<and> length (WriteVarInt n) \<le> (w + 6) div 7"
proof -
  have "w \<le> 7 * ((w + 6) div 7)" by presburger
  then have "(2::nat) ^ w \<le> 2 ^ (7 * ((w + 6) div 7))" by (rule power_increasing) simp
  with assms(1) have "n < 2 ^ (7 * ((w + 6) div 7))" by (rule less_le_trans)
  moreover have "0 < (w + 6) div 7" using assms(2) by presburger
  ultimately have "GetSizeOfVarInt n \<le> (w + 6) div 7" by (rule GetSizeOfVarInt_le)
  then show ?thesis
    using ReadVarInt_write [OF assms(1)] by (simp add: WriteVarInt_def length_WriteVarInt_tmp)
qed

theorem VarInt_roundtrip_witness:
  "ReadVarInt 64 (WriteVarInt (2 ^ 32) @ [1, 2]) = Inr (2 ^ 32, [1, 2]) \<and>
   length (WriteVarInt (2 ^ 32)) = GetSizeOfVarInt (2 ^ 32) \<and> length (WriteVarInt (2 ^ 32)) \<le> (64 + 6) div 7"
  by (rule VarInt_roundtrip) simp_all

end
