(* ===== verification/Transaction.thy ===== *)
theory Transaction
  imports Serialize Target
begin

text \<open>
  Transactions: the classes \<^verbatim>\<open>COutPoint\<close>, \<^verbatim>\<open>CTxIn\<close>, \<^verbatim>\<open>CTxOut\<close> and \<^verbatim>\<open>CTransaction\<close> of
  \<^verbatim>\<open>src/src/main.h\<close> with their serialization and the checks of \<^verbatim>\<open>src/src/main.cpp\<close> that need
  no context, and \<^verbatim>\<open>CValidationState\<close>, which collects the verdict of a check.  Amounts are
  \<^verbatim>\<open>int64\<close> values, here integers with explicit wrap-around; the hash function is a
  parameter where a hash is computed.
\<close>

section \<open>Definitions\<close>

record COutPoint =
  op_hash :: uint256
  op_n :: u32

record CTxIn =
  prevout :: COutPoint
  scriptSig :: "byte list"
  nSequence :: u32

record CTxOut =
  nValue :: int
  scriptPubKey :: "byte list"

record CTransaction =
  tx_nVersion :: int
  vin :: "CTxIn list"
  vout :: "CTxOut list"
  nLockTime :: u32

datatype mode_state = MODE_VALID | MODE_INVALID | MODE_ERROR

record CValidationState =
  vs_mode :: mode_state
  nDoS :: int
  corruptionPossible :: bool

definition CValidationState_init :: CValidationState where
  "CValidationState_init = \<lparr>vs_mode = MODE_VALID, nDoS = 0, corruptionPossible = False\<rparr>"

definition DoS :: "int \<Rightarrow> bool \<Rightarrow> bool \<Rightarrow> CValidationState \<Rightarrow> bool \<times> CValidationState" where
  "DoS level ret corruptionIn state =
     (if vs_mode state = MODE_ERROR then (ret, state)
      else (ret, state\<lparr>nDoS := nDoS state + level, vs_mode := MODE_INVALID,
                       corruptionPossible := corruptionIn\<rparr>))"

definition Invalid :: "bool \<Rightarrow> CValidationState \<Rightarrow> bool \<times> CValidationState" where
  "Invalid ret state = DoS 0 ret False state"

definition Error :: "CValidationState \<Rightarrow> bool \<times> CValidationState" where
  "Error state = (False, state\<lparr>vs_mode := MODE_ERROR\<rparr>)"

text \<open>\<^verbatim>\<open>Abort\<close> also calls \<^verbatim>\<open>AbortNode\<close>, which shows a message and asks the node to shut down.\<close>

definition Abort :: "CValidationState \<Rightarrow> bool \<times> CValidationState" where
  "Abort state = Error state"

definition IsInvalid :: "CValidationState \<Rightarrow> int \<Rightarrow> bool \<times> int" where
  "IsInvalid state nDoSOut = (if vs_mode state = MODE_INVALID then (True, nDoS state) else (False, nDoSOut))"

text \<open>Constants of \<^verbatim>\<open>main.h\<close>.\<close>

definition MAX_BLOCK_SIZE :: nat where "MAX_BLOCK_SIZE = 1000000"
definition MAX_BLOCK_SIZE_GEN :: nat where "MAX_BLOCK_SIZE_GEN = MAX_BLOCK_SIZE div 2"
definition DEFAULT_BLOCK_PRIORITY_SIZE :: nat where "DEFAULT_BLOCK_PRIORITY_SIZE = 30000"
definition MAX_MONEY :: int where "MAX_MONEY = 2000000000 * COIN"
definition MIN_TXOUT_AMOUNT :: int where "MIN_TXOUT_AMOUNT = CENT"
definition LOCKTIME_THRESHOLD :: int where "LOCKTIME_THRESHOLD = 500000000"

definition MoneyRange :: "int \<Rightarrow> bool" where
  "MoneyRange n \<longleftrightarrow> n \<ge> 0 \<and> n \<le> MAX_MONEY"

text \<open>Null values and predicates.\<close>

definition COutPoint_null :: COutPoint where
  "COutPoint_null = \<lparr>op_hash = 0, op_n = - 1\<rparr>"

definition COutPoint_IsNull :: "COutPoint \<Rightarrow> bool" where
  "COutPoint_IsNull p \<longleftrightarrow> op_hash p = 0 \<and> op_n p = - 1"

definition COutPoint_less :: "COutPoint \<Rightarrow> COutPoint \<Rightarrow> bool" where
  "COutPoint_less a b \<longleftrightarrow> op_hash a < op_hash b \<or> (op_hash a = op_hash b \<and> op_n a < op_n b)"

definition CTxIn_IsFinal :: "CTxIn \<Rightarrow> bool" where
  "CTxIn_IsFinal i \<longleftrightarrow> nSequence i = 0xFFFFFFFF"

definition CTxOut_null :: CTxOut where
  "CTxOut_null = \<lparr>nValue = -1, scriptPubKey = []\<rparr>"

definition CTxOut_IsNull :: "CTxOut \<Rightarrow> bool" where
  "CTxOut_IsNull o' \<longleftrightarrow> nValue o' = -1"

definition CTransaction_null :: CTransaction where
  "CTransaction_null = \<lparr>tx_nVersion = 1, vin = [], vout = [], nLockTime = 0\<rparr>"

definition CTransaction_IsNull :: "CTransaction \<Rightarrow> bool" where
  "CTransaction_IsNull tx \<longleftrightarrow> vin tx = [] \<and> vout tx = []"

definition IsCoinBase :: "CTransaction \<Rightarrow> bool" where
  "IsCoinBase tx \<longleftrightarrow> length (vin tx) = 1 \<and> COutPoint_IsNull (prevout (vin tx ! 0))"

text \<open>
  \<^verbatim>\<open>IsFinal\<close>: the global best height and the adjusted time, which replace an argument of 0,
  are the first two parameters.
\<close>

definition IsFinal :: "int \<Rightarrow> int \<Rightarrow> CTransaction \<Rightarrow> int \<Rightarrow> int \<Rightarrow> bool" where
  "IsFinal nBestHeight adjustedTime tx nBlockHeight nBlockTime =
     (if nLockTime tx = 0 then True
      else let nBlockHeight = (if nBlockHeight = 0 then nBestHeight else nBlockHeight);
               nBlockTime = (if nBlockTime = 0 then adjustedTime else nBlockTime)
           in if uint (nLockTime tx) < (if uint (nLockTime tx) < LOCKTIME_THRESHOLD then nBlockHeight else nBlockTime)
              then True
              else (\<forall>txin\<in>set (vin tx). CTxIn_IsFinal txin))"

text \<open>The second loop of \<^verbatim>\<open>IsNewerThan\<close>, with the variables \<^verbatim>\<open>fNewer\<close> and \<^verbatim>\<open>nLowest\<close>.\<close>

fun newer_loop :: "CTxIn list \<Rightarrow> CTxIn list \<Rightarrow> bool \<Rightarrow> u32 \<Rightarrow> bool" where
  "newer_loop (a # as) (b # bs) fNewer nLowest =
     (if nSequence a \<noteq> nSequence b then
        let (fNewer, nLowest) = (if nSequence a \<le> nLowest then (False, nSequence a) else (fNewer, nLowest));
            (fNewer, nLowest) = (if nSequence b < nLowest then (True, nSequence b) else (fNewer, nLowest))
        in newer_loop as bs fNewer nLowest
      else newer_loop as bs fNewer nLowest)"
| "newer_loop _ _ fNewer nLowest = fNewer"

definition IsNewerThan :: "CTransaction \<Rightarrow> CTransaction \<Rightarrow> bool" where
  "IsNewerThan tx old =
     (if length (vin tx) \<noteq> length (vin old) then False
      else if map prevout (vin tx) \<noteq> map prevout (vin old) then False
      else newer_loop (vin tx) (vin old) False 0xFFFFFFFF)"

fun value_out_loop :: "CTxOut list \<Rightarrow> int \<Rightarrow> int res" where
  "value_out_loop [] nValueOut = Inr nValueOut"
| "value_out_loop (txout # outs) nValueOut =
     (let nValueOut = wrap64 (nValueOut + nValue txout)
      in if \<not> MoneyRange (nValue txout) \<or> \<not> MoneyRange nValueOut then Inl Runtime_error
         else value_out_loop outs nValueOut)"

definition GetValueOut :: "CTransaction \<Rightarrow> int res" where
  "GetValueOut tx = value_out_loop (vout tx) 0"

text \<open>Serialization.  A signed integer is stored in two's complement.\<close>

definition to_unsigned :: "nat \<Rightarrow> int \<Rightarrow> nat" where
  "to_unsigned w v = nat (v mod 2 ^ w)"

definition to_signed :: "nat \<Rightarrow> nat \<Rightarrow> int" where
  "to_signed w n = (if int n < 2 ^ (w - 1) then int n else int n - 2 ^ w)"

definition ser_outpoint :: "COutPoint \<Rightarrow> byte list" where
  "ser_outpoint p = write_le 32 (unat (op_hash p)) @ write_le 4 (unat (op_n p))"

definition unser_outpoint :: "COutPoint reader" where
  "unser_outpoint is =
     rbind (read_le 32 is) (\<lambda>(h, is). rbind (read_le 4 is) (\<lambda>(n, is).
     Inr (\<lparr>op_hash = of_nat h, op_n = of_nat n\<rparr>, is)))"

definition ser_txin :: "CTxIn \<Rightarrow> byte list" where
  "ser_txin i = ser_outpoint (prevout i) @ Serialize_bytes (scriptSig i) @ write_le 4 (unat (nSequence i))"

definition unser_txin :: "CTxIn reader" where
  "unser_txin is =
     rbind (unser_outpoint is) (\<lambda>(p, is). rbind (Unserialize_bytes is) (\<lambda>(s, is).
     rbind (read_le 4 is) (\<lambda>(n, is). Inr (\<lparr>prevout = p, scriptSig = s, nSequence = of_nat n\<rparr>, is))))"

definition ser_txout :: "CTxOut \<Rightarrow> byte list" where
  "ser_txout o' = write_le 8 (to_unsigned 64 (nValue o')) @ Serialize_bytes (scriptPubKey o')"

definition unser_txout :: "CTxOut reader" where
  "unser_txout is =
     rbind (read_le 8 is) (\<lambda>(v, is). rbind (Unserialize_bytes is) (\<lambda>(s, is).
     Inr (\<lparr>nValue = to_signed 64 v, scriptPubKey = s\<rparr>, is)))"

definition ser_tx :: "CTransaction \<Rightarrow> byte list" where
  "ser_tx tx = write_le 4 (to_unsigned 32 (tx_nVersion tx)) @ Serialize_vector ser_txin (vin tx) @
     Serialize_vector ser_txout (vout tx) @ write_le 4 (unat (nLockTime tx))"

definition unser_tx :: "CTransaction reader" where
  "unser_tx is =
     rbind (read_le 4 is) (\<lambda>(v, is). rbind (Unserialize_vector unser_txin is) (\<lambda>(i, is).
     rbind (Unserialize_vector unser_txout is) (\<lambda>(o', is). rbind (read_le 4 is) (\<lambda>(l, is).
     Inr (\<lparr>tx_nVersion = to_signed 32 v, vin = i, vout = o', nLockTime = of_nat l\<rparr>, is)))))"

definition tx_size :: "CTransaction \<Rightarrow> nat" where
  "tx_size tx = length (ser_tx tx) mod 2 ^ 32"

text \<open>\<^verbatim>\<open>SerializeHash\<close>, over the hash function \<open>H\<close> of byte strings.\<close>

definition tx_hash :: "(byte list \<Rightarrow> uint256) \<Rightarrow> CTransaction \<Rightarrow> uint256" where
  "tx_hash H tx = H (ser_tx tx)"

text \<open>The context independent checks.  The loops return the verdict and the state.\<close>

fun check_outputs :: "CTxOut list \<Rightarrow> int \<Rightarrow> CValidationState \<Rightarrow> bool \<times> CValidationState" where
  "check_outputs [] nValueOut state = (True, state)"
| "check_outputs (txout # outs) nValueOut state =
     (if nValue txout < MIN_TXOUT_AMOUNT then DoS 100 False False state
      else if nValue txout > MAX_MONEY then DoS 100 False False state
      else let nValueOut = wrap64 (nValueOut + nValue txout) in
           if \<not> MoneyRange nValueOut then DoS 100 False False state
           else check_outputs outs nValueOut state)"

fun check_duplicates :: "CTxIn list \<Rightarrow> COutPoint set \<Rightarrow> CValidationState \<Rightarrow> bool \<times> CValidationState" where
  "check_duplicates [] vInOutPoints state = (True, state)"
| "check_duplicates (txin # ins) vInOutPoints state =
     (if prevout txin \<in> vInOutPoints then DoS 100 False False state
      else check_duplicates ins (insert (prevout txin) vInOutPoints) state)"

definition CheckTransaction :: "CTransaction \<Rightarrow> CValidationState \<Rightarrow> bool \<times> CValidationState" where
  "CheckTransaction tx state =
     (if vin tx = [] then DoS 10 False False state
      else if vout tx = [] then DoS 10 False False state
      else if tx_size tx > MAX_BLOCK_SIZE then DoS 100 False False state
      else let (ok, state) = check_outputs (vout tx) 0 state in
      if \<not> ok then (False, state)
      else let (ok, state) = check_duplicates (vin tx) {} state in
      if \<not> ok then (False, state)
      else if IsCoinBase tx then
        if length (scriptSig (vin tx ! 0)) < 2 \<or> length (scriptSig (vin tx ! 0)) > 100
        then DoS 100 False False state else (True, state)
      else if \<exists>txin\<in>set (vin tx). COutPoint_IsNull (prevout txin) then DoS 10 False False state
      else (True, state))"

datatype GetMinFee_mode = GMF_BLOCK | GMF_RELAY | GMF_SEND

text \<open>\<^verbatim>\<open>GetMinFee\<close>; \<^verbatim>\<open>nMinTxFee\<close> and \<^verbatim>\<open>nMinRelayTxFee\<close>, which options set, are arguments.\<close>

definition GetMinFee :: "int \<Rightarrow> int \<Rightarrow> CTransaction \<Rightarrow> nat \<Rightarrow> bool \<Rightarrow> GetMinFee_mode \<Rightarrow> int" where
  "GetMinFee nMinTxFee nMinRelayTxFee tx nBlockSize fAllowFree mode =
     (let nBaseFee = (if mode = GMF_RELAY then nMinRelayTxFee else nMinTxFee);
          nBytes = tx_size tx;
          nNewBlockSize = (nBlockSize + nBytes) mod 2 ^ 32;
          nMinFee = wrap64 ((1 + int (nBytes div 1000)) * nBaseFee);
          nMinFee = (if fAllowFree \<and> nBytes < (if mode = GMF_SEND then 1000 else DEFAULT_BLOCK_PRIORITY_SIZE - 1000)
                     then 0 else nMinFee);
          nMinFee = (if nMinFee < nBaseFee \<and> mode = GMF_SEND \<and> (\<exists>txout\<in>set (vout tx). nValue txout < CENT)
                     then nBaseFee else nMinFee)
      in if nBlockSize \<noteq> 1 \<and> nNewBlockSize \<ge> MAX_BLOCK_SIZE_GEN div 2 \<and> nNewBlockSize \<ge> MAX_BLOCK_SIZE_GEN
         then MAX_MONEY
         else let nMinFee = (if nBlockSize \<noteq> 1 \<and> nNewBlockSize \<ge> MAX_BLOCK_SIZE_GEN div 2
                             then wrap64 (nMinFee * int (MAX_BLOCK_SIZE_GEN div (MAX_BLOCK_SIZE_GEN - nNewBlockSize)))
                             else nMinFee)
              in if \<not> MoneyRange nMinFee then MAX_MONEY else nMinFee)"

text \<open>
  \<^verbatim>\<open>CTxOut::IsDust\<close>.  The product and the quotient are \<^verbatim>\<open>int64\<close>; the serialized size is the
  length of the stream format.
\<close>

definition IsDust :: "int \<Rightarrow> CTxOut \<Rightarrow> bool" where
  "IsDust nMinRelayTxFee o' \<longleftrightarrow>
     wrap64 (nValue o' * 1000) sdiv (3 * (int (length (ser_txout o')) + 148)) < nMinRelayTxFee"

section \<open>Serialization is a codec\<close>

definition valid_txin :: "CTxIn \<Rightarrow> bool" where
  "valid_txin i \<longleftrightarrow> length (scriptSig i) \<le> MAX_SIZE"

definition valid_txout :: "CTxOut \<Rightarrow> bool" where
  "valid_txout o' \<longleftrightarrow> - (2 ^ 63) \<le> nValue o' \<and> nValue o' < 2 ^ 63 \<and> length (scriptPubKey o') \<le> MAX_SIZE"

definition valid_tx :: "CTransaction \<Rightarrow> bool" where
  "valid_tx tx \<longleftrightarrow> - (2 ^ 31) \<le> tx_nVersion tx \<and> tx_nVersion tx < 2 ^ 31 \<and>
     length (vin tx) \<le> MAX_SIZE \<and> length (vout tx) \<le> MAX_SIZE \<and>
     (\<forall>i\<in>set (vin tx). valid_txin i) \<and> (\<forall>o'\<in>set (vout tx). valid_txout o')"

lemma unsigned_roundtrip:
  assumes "- (2 ^ w) \<le> v" "v < 2 ^ w"
  shows "to_signed (Suc w) (to_unsigned (Suc w) v) = v" "to_unsigned (Suc w) v < 2 ^ Suc w"
proof -
  have m: "v mod 2 ^ Suc w = (if v < 0 then v + 2 ^ Suc w else v)"
  proof (cases "v < 0")
    case True
    have "(v + 2 ^ Suc w) mod 2 ^ Suc w = v + 2 ^ Suc w" using True assms by (intro mod_pos_pos_trivial) simp_all
    with True show ?thesis by (simp del: power_Suc)
  next
    case False
    then show ?thesis using assms by (simp add: mod_pos_pos_trivial)
  qed
  show "to_signed (Suc w) (to_unsigned (Suc w) v) = v"
    using assms m by (auto simp: to_signed_def to_unsigned_def)
  have "0 \<le> v mod 2 ^ Suc w" "v mod 2 ^ Suc w < 2 ^ Suc w" by simp_all
  then show "to_unsigned (Suc w) v < 2 ^ Suc w"
    unfolding to_unsigned_def by (simp add: nat_less_iff del: power_Suc)
qed

lemma signed_words:
  "- (2 ^ 63) \<le> v \<Longrightarrow> v < 2 ^ 63 \<Longrightarrow> to_signed 64 (to_unsigned 64 v) = v \<and> to_unsigned 64 v < 256 ^ 8"
  "- (2 ^ 31) \<le> v \<Longrightarrow> v < 2 ^ 31 \<Longrightarrow> to_signed 32 (to_unsigned 32 v) = v \<and> to_unsigned 32 v < 256 ^ 4"
  using unsigned_roundtrip [of 63 v] unsigned_roundtrip [of 31 v] by simp_all

lemma unat_bounds: "unat (h :: uint256) < 256 ^ 32" "unat (n :: u32) < 256 ^ 4"
  using unat_less_len [of h] unat_less_len [of n] by simp_all

interpretation outpoint: codec ser_outpoint unser_outpoint "\<lambda>_. True"
  by unfold_locales (simp add: ser_outpoint_def unser_outpoint_def unat_bounds del: power_numeral)

interpretation txin: codec ser_txin unser_txin valid_txin
  by unfold_locales
    (simp add: ser_txin_def unser_txin_def valid_txin_def outpoint.unser_ser bytes.unser_ser unat_bounds del: power_numeral)

interpretation txout: codec ser_txout unser_txout valid_txout
  by unfold_locales
    (simp add: ser_txout_def unser_txout_def valid_txout_def bytes.unser_ser signed_words del: power_numeral)

interpretation txins: codec "Serialize_vector ser_txin" "Unserialize_vector unser_txin"
    "\<lambda>xs. length xs \<le> MAX_SIZE \<and> (\<forall>x\<in>set xs. valid_txin x)"
  by (rule txin.vector_codec) (rule csize.unser_ser)

interpretation txouts: codec "Serialize_vector ser_txout" "Unserialize_vector unser_txout"
    "\<lambda>xs. length xs \<le> MAX_SIZE \<and> (\<forall>x\<in>set xs. valid_txout x)"
  by (rule txout.vector_codec) (rule csize.unser_ser)

interpretation tx: codec ser_tx unser_tx valid_tx
  by unfold_locales
    (simp add: ser_tx_def unser_tx_def valid_tx_def txins.unser_ser txouts.unser_ser signed_words unat_bounds del: power_numeral)

section \<open>Checks\<close>

lemma DoS_False [simp]: "fst (DoS n False c st) = False"
  by (simp add: DoS_def)

lemma MAX_MONEY_eq: "MAX_MONEY = 200000000000000000"
  by (simp add: MAX_MONEY_def COIN_def)

lemma check_outputs_iff:
  assumes "0 \<le> a" "a \<le> MAX_MONEY"
  shows "fst (check_outputs outs a st) \<longleftrightarrow>
    (\<forall>o'\<in>set outs. MIN_TXOUT_AMOUNT \<le> nValue o' \<and> nValue o' \<le> MAX_MONEY) \<and> a + sum_list (map nValue outs) \<le> MAX_MONEY"
  using assms
proof (induction outs arbitrary: a)
  case (Cons x outs)
  show ?case
  proof (cases "MIN_TXOUT_AMOUNT \<le> nValue x \<and> nValue x \<le> MAX_MONEY")
    case True
    then have w: "wrap64 (a + nValue x) = a + nValue x" "0 \<le> a + nValue x"
      using Cons.prems by (auto simp: MIN_TXOUT_AMOUNT_def CENT_def MAX_MONEY_eq intro!: wrap64_id)
    have pos: "0 \<le> sum_list (map nValue outs)" if "\<forall>o'\<in>set outs. MIN_TXOUT_AMOUNT \<le> nValue o'"
      using that by (intro sum_list_nonneg) (auto simp: MIN_TXOUT_AMOUNT_def CENT_def)
    show ?thesis
    proof (cases "a + nValue x \<le> MAX_MONEY")
      case True': True
      then show ?thesis using True w Cons.IH [of "a + nValue x"] by (auto simp: MoneyRange_def add.assoc)
    next
      case False
      then show ?thesis using True w pos by (auto simp: MoneyRange_def)
    qed
  next
    case False
    then show ?thesis by (auto simp: not_le)
  qed
qed (simp add: MAX_MONEY_eq)

lemma check_outputs_state: "fst (check_outputs outs a st) \<Longrightarrow> snd (check_outputs outs a st) = st"
  by (induction outs a st rule: check_outputs.induct) (auto simp: Let_def split: if_splits)

lemma check_duplicates_iff:
  "fst (check_duplicates ins S st) \<longleftrightarrow> distinct (map prevout ins) \<and> set (map prevout ins) \<inter> S = {}"
  by (induction ins arbitrary: S) auto

lemma check_duplicates_state: "fst (check_duplicates ins S st) \<Longrightarrow> snd (check_duplicates ins S st) = st"
  by (induction ins S st rule: check_duplicates.induct) (auto split: if_splits)

lemma CheckTransaction_accepts:
  "fst (CheckTransaction tx st) \<longleftrightarrow>
    vin tx \<noteq> [] \<and> vout tx \<noteq> [] \<and> tx_size tx \<le> MAX_BLOCK_SIZE \<and>
    (\<forall>o'\<in>set (vout tx). CENT \<le> nValue o' \<and> nValue o' \<le> MAX_MONEY) \<and> sum_list (map nValue (vout tx)) \<le> MAX_MONEY \<and>
    distinct (map prevout (vin tx)) \<and>
    (if IsCoinBase tx then 2 \<le> length (scriptSig (vin tx ! 0)) \<and> length (scriptSig (vin tx ! 0)) \<le> 100
     else \<forall>i\<in>set (vin tx). \<not> COutPoint_IsNull (prevout i))"
  using check_outputs_iff [of 0 "vout tx" st] check_duplicates_iff [of "vin tx" "{}"]
  by (auto simp: CheckTransaction_def split_def Let_def MAX_MONEY_eq MIN_TXOUT_AMOUNT_def not_le not_less)

lemma CheckTransaction_state: "fst (CheckTransaction tx st) \<Longrightarrow> snd (CheckTransaction tx st) = st"
  using check_outputs_state [of "vout tx" 0 st] check_duplicates_state [of "vin tx" "{}"]
  by (auto simp: CheckTransaction_def split_def Let_def split: if_splits)

lemma value_out_loop_sum:
  assumes "0 \<le> a" "\<forall>o'\<in>set outs. 0 \<le> nValue o'" "a + sum_list (map nValue outs) \<le> MAX_MONEY"
  shows "value_out_loop outs a = Inr (a + sum_list (map nValue outs))"
  using assms
proof (induction outs arbitrary: a)
  case (Cons x outs)
  have "0 \<le> sum_list (map nValue outs)" using Cons.prems(2) by (intro sum_list_nonneg) auto
  then have "MoneyRange (nValue x)" "MoneyRange (a + nValue x)" "wrap64 (a + nValue x) = a + nValue x"
    using Cons.prems by (auto simp: MoneyRange_def MAX_MONEY_eq intro!: wrap64_id)
  then show ?case using Cons.IH [of "a + nValue x"] Cons.prems by (simp add: add.assoc)
qed simp

lemma GetMinFee_range: "MoneyRange (GetMinFee fee rfee tx nBlockSize fAllowFree mode)"
proof -
  have "MoneyRange MAX_MONEY" by (simp add: MoneyRange_def MAX_MONEY_eq)
  then show ?thesis unfolding GetMinFee_def Let_def by (simp split: if_split)
qed

section \<open>Properties\<close>

text \<open>
  C20. A transaction survives the stream format: for every transaction with fields in the range
  of their types and vectors within \<^verbatim>\<open>MAX_SIZE\<close>, unserializing the serialization followed by any
  bytes gives the transaction and those bytes.  So no transaction's encoding is a prefix of
  another's, and two different transactions never have the same preimage of their hash.
\<close>

theorem tx_serialization_roundtrip:
  assumes "valid_tx tx" "valid_tx tx'"
  shows "unser_tx (ser_tx tx @ rest) = Inr (tx, rest) \<and> (ser_tx tx @ r = ser_tx tx' @ r' \<longrightarrow> tx = tx')"
  using tx.unser_ser [OF assms(1)] tx.ser_prefix_free [OF assms] by blast

theorem tx_serialization_roundtrip_witness:
  fixes a :: CTransaction
  defines "a \<equiv> \<lparr>tx_nVersion = 1, vin = [\<lparr>prevout = \<lparr>op_hash = 7, op_n = 0\<rparr>, scriptSig = [0x51], nSequence = - 1\<rparr>],
     vout = [\<lparr>nValue = -1, scriptPubKey = [0xAC]\<rparr>], nLockTime = 3\<rparr>"
  shows "unser_tx (ser_tx a @ [9]) = Inr (a, [9])"
proof -
  have "valid_tx a"
    by (simp add: a_def valid_tx_def valid_txin_def valid_txout_def MAX_SIZE_def)
  then show ?thesis using tx_serialization_roundtrip [of a a "[9]"] by blast
qed

text \<open>
  C19. \<^verbatim>\<open>CheckTransaction\<close> accepts exactly the transactions with inputs and outputs, at most the
  maximal block size, every output between a cent and the money limit, the outputs together
  within the limit, no outpoint spent twice, a coinbase script of 2 to 100 bytes, and no null
  input outside a coinbase; on acceptance it leaves the validation state alone and
  \<^verbatim>\<open>GetValueOut\<close> is the plain sum of the outputs, without overflow or exception.
\<close>

theorem CheckTransaction_iff:
  "(fst (CheckTransaction tx st) \<longleftrightarrow>
     vin tx \<noteq> [] \<and> vout tx \<noteq> [] \<and> tx_size tx \<le> MAX_BLOCK_SIZE \<and>
     (\<forall>o'\<in>set (vout tx). CENT \<le> nValue o' \<and> nValue o' \<le> MAX_MONEY) \<and> sum_list (map nValue (vout tx)) \<le> MAX_MONEY \<and>
     distinct (map prevout (vin tx)) \<and>
     (if IsCoinBase tx then 2 \<le> length (scriptSig (vin tx ! 0)) \<and> length (scriptSig (vin tx ! 0)) \<le> 100
      else \<forall>i\<in>set (vin tx). \<not> COutPoint_IsNull (prevout i))) \<and>
   (fst (CheckTransaction tx st) \<longrightarrow>
     snd (CheckTransaction tx st) = st \<and> GetValueOut tx = Inr (sum_list (map nValue (vout tx))))"
proof (rule conjI [OF CheckTransaction_accepts], intro impI conjI)
  assume a: "fst (CheckTransaction tx st)"
  then show "snd (CheckTransaction tx st) = st" by (rule CheckTransaction_state)
  show "GetValueOut tx = Inr (sum_list (map nValue (vout tx)))"
    using a value_out_loop_sum [of 0 "vout tx"] unfolding CheckTransaction_accepts
    by (force simp: GetValueOut_def CENT_def)
qed

theorem CheckTransaction_iff_witness:
  fixes a :: CTransaction
  defines "a \<equiv> \<lparr>tx_nVersion = 1, vin = [\<lparr>prevout = \<lparr>op_hash = 7, op_n = 0\<rparr>, scriptSig = [0x51], nSequence = - 1\<rparr>],
     vout = [\<lparr>nValue = 2000000, scriptPubKey = [0xAC]\<rparr>], nLockTime = 3\<rparr>"
  shows "fst (CheckTransaction a CValidationState_init) \<and> GetValueOut a = Inr 2000000"
proof -
  have s: "tx_size a \<le> MAX_BLOCK_SIZE"
    by (simp add: a_def tx_size_def ser_tx_def ser_txin_def ser_txout_def ser_outpoint_def Serialize_vector_def
        Serialize_bytes_def WriteCompactSize_def write_le_def MAX_BLOCK_SIZE_def)
  have "fst (CheckTransaction a CValidationState_init)"
    unfolding CheckTransaction_iff [THEN conjunct1] using s
    by (simp add: a_def CENT_def MAX_MONEY_eq IsCoinBase_def COutPoint_IsNull_def)
  then show ?thesis
    using CheckTransaction_iff [of a CValidationState_init, THEN conjunct2] by (simp add: a_def)
qed

end
