(* ===== verification/Key.thy ===== *)
theory Key
  imports Prelude
begin

text \<open>
  Keys and hashes: \<^verbatim>\<open>src/src/hash.h\<close>, \<^verbatim>\<open>src/src/key.h\<close>, \<^verbatim>\<open>src/src/key.cpp\<close> and the key store
  \<^verbatim>\<open>CBasicKeyStore\<close> of \<^verbatim>\<open>src/src/keystore.h\<close> and \<^verbatim>\<open>keystore.cpp\<close>.  The digests and the
  elliptic curve of OpenSSL are parameters: the record \<open>digests\<close> holds SHA-256, SHA-1 and
  RIPEMD-160 as functions of byte strings, the record \<open>curve\<close> the operations of the curve
  secp256k1 on points of a type \<open>'p\<close>.  An \<^verbatim>\<open>EC_KEY\<close> is the private number, the public point and
  the point conversion form.  Failing allocations are not modelled.
\<close>

section \<open>Hashes\<close>

record digests =
  SHA256 :: "byte list \<Rightarrow> byte list"
  SHA1 :: "byte list \<Rightarrow> byte list"
  RIPEMD160 :: "byte list \<Rightarrow> byte list"

text \<open>The documented output sizes.\<close>

definition digest_laws :: "digests \<Rightarrow> bool" where
  "digest_laws D \<longleftrightarrow> (\<forall>m. length (SHA256 D m) = 32 \<and> length (SHA1 D m) = 20 \<and> length (RIPEMD160 D m) = 20)"

text \<open>The memory image of a \<^verbatim>\<open>uint256\<close> or \<^verbatim>\<open>uint160\<close>, and an integer from its image.\<close>

definition image256 :: "uint256 \<Rightarrow> byte list" where
  "image256 h = le_bytes 32 (unat h)"

definition image160 :: "uint160 \<Rightarrow> byte list" where
  "image160 h = le_bytes 20 (unat h)"

definition of_image256 :: "byte list \<Rightarrow> uint256" where
  "of_image256 bs = of_nat (le_val bs)"

definition of_image160 :: "byte list \<Rightarrow> uint160" where
  "of_image160 bs = of_nat (le_val bs)"

definition Hash :: "digests \<Rightarrow> byte list \<Rightarrow> uint256" where
  "Hash D bs = of_image256 (SHA256 D (image256 (of_image256 (SHA256 D bs))))"

definition Hash2 :: "digests \<Rightarrow> byte list \<Rightarrow> byte list \<Rightarrow> uint256" where
  "Hash2 D bs cs = of_image256 (SHA256 D (image256 (of_image256 (SHA256 D (bs @ cs)))))"

definition Hash160 :: "digests \<Rightarrow> byte list \<Rightarrow> uint160" where
  "Hash160 D bs = of_image160 (RIPEMD160 D (image256 (of_image256 (SHA256 D bs))))"

section \<open>Keys\<close>

record 'p curve =
  EC_POINT_mul :: "nat \<Rightarrow> 'p"
  EC_POINT_oct2point :: "byte list \<Rightarrow> 'p option"
  EC_POINT_point2oct :: "'p \<Rightarrow> bool \<Rightarrow> byte list"
  ECDSA_sign :: "byte list \<Rightarrow> nat \<Rightarrow> byte list option"
  ECDSA_verify :: "byte list \<Rightarrow> byte list \<Rightarrow> 'p \<Rightarrow> bool"

record 'p EC_KEY =
  priv_key :: "nat option"
  pub_key :: "'p option"
  conv_compressed :: bool

definition EC_KEY_new :: "'p EC_KEY" where
  "EC_KEY_new = \<lparr>priv_key = None, pub_key = None, conv_compressed = False\<rparr>"

record 'p CKey =
  pkey :: "'p EC_KEY"
  fSet :: bool
  fCompressedPubKey :: bool

definition EC_KEY_regenerate_key :: "'p curve \<Rightarrow> 'p EC_KEY \<Rightarrow> nat \<Rightarrow> 'p EC_KEY" where
  "EC_KEY_regenerate_key E eckey d = eckey\<lparr>priv_key := Some d, pub_key := Some (EC_POINT_mul E d)\<rparr>"

definition SetCompressedPubKey :: "bool \<Rightarrow> 'p CKey \<Rightarrow> 'p CKey" where
  "SetCompressedPubKey fCompressed k =
     k\<lparr>pkey := (pkey k)\<lparr>conv_compressed := fCompressed\<rparr>, fCompressedPubKey := True\<rparr>"

definition CKey_Reset :: "'p CKey \<Rightarrow> 'p CKey" where
  "CKey_Reset k = k\<lparr>fCompressedPubKey := False, pkey := EC_KEY_new, fSet := False\<rparr>"

definition CKey_new :: "'p CKey" where
  "CKey_new = \<lparr>pkey = EC_KEY_new, fSet = False, fCompressedPubKey = False\<rparr>"

definition CKey_IsNull :: "'p CKey \<Rightarrow> bool" where
  "CKey_IsNull k \<longleftrightarrow> \<not> fSet k"

definition CKey_IsCompressed :: "'p CKey \<Rightarrow> bool" where
  "CKey_IsCompressed k \<longleftrightarrow> fCompressedPubKey k"

definition CKey_assign :: "'p CKey \<Rightarrow> 'p CKey \<Rightarrow> 'p CKey" where
  "CKey_assign k b = k\<lparr>pkey := pkey b, fSet := fSet b\<rparr>"

text \<open>\<open>d\<close> is the number that \<^verbatim>\<open>EC_KEY_generate_key\<close> draws.\<close>

definition MakeNewKey :: "'p curve \<Rightarrow> nat \<Rightarrow> bool \<Rightarrow> 'p CKey \<Rightarrow> 'p CKey" where
  "MakeNewKey E d fCompressed k =
     (let k1 = k\<lparr>pkey := EC_KEY_regenerate_key E (pkey k) d\<rparr>;
          k2 = (if fCompressed then SetCompressedPubKey True k1 else k1)
      in k2\<lparr>fSet := True\<rparr>)"

definition SetSecret :: "'p curve \<Rightarrow> byte list \<Rightarrow> bool \<Rightarrow> 'p CKey \<Rightarrow> 'p CKey res" where
  "SetSecret E vchSecret fCompressed k =
     (if length vchSecret \<noteq> 32 then Inl Runtime_error
      else let k1 = k\<lparr>pkey := EC_KEY_regenerate_key E EC_KEY_new (le_val (rev vchSecret)), fSet := True\<rparr>
           in Inr (if fCompressed \<or> fCompressedPubKey k1 then SetCompressedPubKey True k1 else k1))"

text \<open>
  \<^verbatim>\<open>GetSecret\<close> reads the private number and its size before the null test, so a key without a
  private number ends the process; a number of more than 32 bytes has no image.
\<close>

definition GetSecret :: "'p CKey \<Rightarrow> (byte list \<times> bool) res" where
  "GetSecret k = (case priv_key (pkey k) of
     None \<Rightarrow> Inl Assert_failed
   | Some d \<Rightarrow> if d < 256 ^ 32 then Inr (rev (le_bytes 32 d), fCompressedPubKey k) else Inl Assert_failed)"

text \<open>\<^verbatim>\<open>o2i_ECPublicKey\<close> takes the conversion form from the first octet, 2 and 3 being compressed.\<close>

definition o2i_ECPublicKey :: "'p curve \<Rightarrow> 'p EC_KEY \<Rightarrow> byte list \<Rightarrow> 'p EC_KEY option" where
  "o2i_ECPublicKey E eckey bs = (case bs of [] \<Rightarrow> None | b # _ \<Rightarrow>
     (case EC_POINT_oct2point E bs of None \<Rightarrow> None
      | Some p \<Rightarrow> Some (eckey\<lparr>pub_key := Some p, conv_compressed := (b = 2 \<or> b = 3)\<rparr>)))"

definition SetPubKey :: "'p curve \<Rightarrow> byte list \<Rightarrow> 'p CKey \<Rightarrow> bool \<times> 'p CKey" where
  "SetPubKey E vchPubKey k = (case o2i_ECPublicKey E (pkey k) vchPubKey of
     Some eckey \<Rightarrow>
       (let k1 = k\<lparr>pkey := eckey, fSet := True\<rparr>
        in (True, if length vchPubKey = 33 then SetCompressedPubKey True k1 else k1))
   | None \<Rightarrow> (False, CKey_Reset k))"

definition GetPubKey :: "'p curve \<Rightarrow> 'p CKey \<Rightarrow> byte list res" where
  "GetPubKey E k = (case pub_key (pkey k) of
     None \<Rightarrow> Inl Runtime_error
   | Some p \<Rightarrow> Inr (EC_POINT_point2oct E p (conv_compressed (pkey k))))"

definition CKey_Sign :: "'p curve \<Rightarrow> 'p CKey \<Rightarrow> uint256 \<Rightarrow> byte list option" where
  "CKey_Sign E k hash = (case priv_key (pkey k) of
     None \<Rightarrow> None | Some d \<Rightarrow> ECDSA_sign E (image256 hash) d)"

definition CKey_Verify :: "'p curve \<Rightarrow> 'p CKey \<Rightarrow> uint256 \<Rightarrow> byte list \<Rightarrow> bool" where
  "CKey_Verify E k hash vchSig = (case pub_key (pkey k) of
     None \<Rightarrow> False | Some p \<Rightarrow> ECDSA_verify E (image256 hash) vchSig p)"

text \<open>The class \<^verbatim>\<open>CPubKey\<close> wraps the octets.\<close>

definition CPubKey_GetID :: "digests \<Rightarrow> byte list \<Rightarrow> uint160" where
  "CPubKey_GetID D vchPubKey = Hash160 D vchPubKey"

definition CPubKey_GetHash :: "digests \<Rightarrow> byte list \<Rightarrow> uint256" where
  "CPubKey_GetHash D vchPubKey = Hash D vchPubKey"

definition CPubKey_IsValid :: "byte list \<Rightarrow> bool" where
  "CPubKey_IsValid vchPubKey \<longleftrightarrow> length vchPubKey = 33 \<or> length vchPubKey = 65"

definition CPubKey_IsCompressed :: "byte list \<Rightarrow> bool" where
  "CPubKey_IsCompressed vchPubKey \<longleftrightarrow> length vchPubKey = 33"

section \<open>The key store\<close>

record CBasicKeyStore =
  mapKeys :: "uint160 \<rightharpoonup> byte list \<times> bool"
  mapScripts :: "uint160 \<rightharpoonup> byte list"

definition AddKey :: "digests \<Rightarrow> 'p curve \<Rightarrow> 'p CKey \<Rightarrow> CBasicKeyStore \<Rightarrow> CBasicKeyStore res" where
  "AddKey D E key ks = rbind (GetSecret key) (\<lambda>secret. rbind (GetPubKey E key) (\<lambda>pk.
     Inr (ks\<lparr>mapKeys := (mapKeys ks)(CPubKey_GetID D pk \<mapsto> secret)\<rparr>)))"

definition HaveKey :: "CBasicKeyStore \<Rightarrow> uint160 \<Rightarrow> bool" where
  "HaveKey ks address \<longleftrightarrow> mapKeys ks address \<noteq> None"

definition GetKeys :: "CBasicKeyStore \<Rightarrow> uint160 set" where
  "GetKeys ks = dom (mapKeys ks)"

definition GetKey :: "'p curve \<Rightarrow> CBasicKeyStore \<Rightarrow> uint160 \<Rightarrow> 'p CKey \<Rightarrow> (bool \<times> 'p CKey) res" where
  "GetKey E ks address keyOut = (case mapKeys ks address of
     Some (secret, fCompressed) \<Rightarrow>
       rbind (SetSecret E secret fCompressed (CKey_Reset keyOut)) (\<lambda>k. Inr (True, k))
   | None \<Rightarrow> Inr (False, keyOut))"

definition KeyStore_GetPubKey :: "'p curve \<Rightarrow> CBasicKeyStore \<Rightarrow> uint160 \<Rightarrow> byte list \<Rightarrow> (bool \<times> byte list) res" where
  "KeyStore_GetPubKey E ks address vchPubKeyOut =
     rbind (GetKey E ks address CKey_new) (\<lambda>(found, key).
       if \<not> found then Inr (False, vchPubKeyOut)
       else rbind (GetPubKey E key) (\<lambda>pk. Inr (True, pk)))"

definition KeyStore_GetSecret :: "'p curve \<Rightarrow> CBasicKeyStore \<Rightarrow> uint160 \<Rightarrow> (byte list \<times> bool) option res" where
  "KeyStore_GetSecret E ks address =
     rbind (GetKey E ks address CKey_new) (\<lambda>(found, key).
       if \<not> found then Inr None else rbind (GetSecret key) (\<lambda>s. Inr (Some s)))"

definition AddCScript :: "digests \<Rightarrow> byte list \<Rightarrow> CBasicKeyStore \<Rightarrow> bool \<times> CBasicKeyStore" where
  "AddCScript D redeemScript ks = (True, ks\<lparr>mapScripts := (mapScripts ks)(Hash160 D redeemScript \<mapsto> redeemScript)\<rparr>)"

definition HaveCScript :: "CBasicKeyStore \<Rightarrow> uint160 \<Rightarrow> bool" where
  "HaveCScript ks hash \<longleftrightarrow> mapScripts ks hash \<noteq> None"

definition GetCScript :: "CBasicKeyStore \<Rightarrow> uint160 \<Rightarrow> byte list \<Rightarrow> bool \<times> byte list" where
  "GetCScript ks hash redeemScriptOut = (case mapScripts ks hash of
     Some s \<Rightarrow> (True, s) | None \<Rightarrow> (False, redeemScriptOut))"

text \<open>
  A key as the wallet makes it: its number fits 32 bytes, its point belongs to the number,
  and the compression flag agrees with the conversion form.
\<close>

definition key_ok :: "'p curve \<Rightarrow> 'p CKey \<Rightarrow> bool" where
  "key_ok E k \<longleftrightarrow> fSet k \<and> fCompressedPubKey k = conv_compressed (pkey k) \<and>
     (case priv_key (pkey k) of None \<Rightarrow> False | Some d \<Rightarrow> d < 256 ^ 32 \<and> pub_key (pkey k) = Some (EC_POINT_mul E d))"

text \<open>The invariant of a store: every entry is a 32 byte secret filed under the address of its key.\<close>

definition keystore_ok :: "digests \<Rightarrow> 'p curve \<Rightarrow> CBasicKeyStore \<Rightarrow> bool" where
  "keystore_ok D E ks \<longleftrightarrow>
     (\<forall>a s c. mapKeys ks a = Some (s, c) \<longrightarrow> length s = 32 \<and>
        a = CPubKey_GetID D (EC_POINT_point2oct E (EC_POINT_mul E (le_val (rev s))) c)) \<and>
     (\<forall>a s. mapScripts ks a = Some s \<longrightarrow> a = Hash160 D s)"

text \<open>The basic key store, with the key that \<^verbatim>\<open>GetKey\<close> puts into a fresh \<^verbatim>\<open>CKey\<close>.\<close>

definition stored_key :: "'p curve \<Rightarrow> CBasicKeyStore \<Rightarrow> uint160 \<Rightarrow> 'p CKey option" where
  "stored_key E ks a = (case GetKey E ks a CKey_new of Inr (True, k) \<Rightarrow> Some k | _ \<Rightarrow> None)"

definition key_address :: "digests \<Rightarrow> 'p curve \<Rightarrow> 'p CKey \<Rightarrow> uint160" where
  "key_address D E k = (case GetPubKey E k of Inr pk \<Rightarrow> CPubKey_GetID D pk | Inl _ \<Rightarrow> 0)"

text \<open>Concrete parameters: a digest that pads, and the numbers below \<open>2\<^sup>8\<close> as a curve.\<close>

definition toy_digests :: digests where
  "toy_digests = \<lparr>SHA256 = (\<lambda>m. take 32 (m @ replicate 32 0)), SHA1 = (\<lambda>m. take 20 (m @ replicate 20 0)),
     RIPEMD160 = (\<lambda>m. take 20 (m @ replicate 20 0))\<rparr>"

definition toy_curve :: "nat curve" where
  "toy_curve = \<lparr>EC_POINT_mul = (\<lambda>d. d mod 256), EC_POINT_oct2point = (\<lambda>bs. if 2 \<le> length bs then Some (unat (bs ! 1)) else None),
     EC_POINT_point2oct = (\<lambda>p c. (if c then 2 else 4) # of_nat p # replicate (if c then 31 else 63) 0),
     ECDSA_sign = (\<lambda>h d. Some [of_nat (d mod 256)]), ECDSA_verify = (\<lambda>h s p. s = [of_nat p])\<rparr>"

section \<open>Lemmas\<close>

lemma image_roundtrip [simp]:
  "length bs = 32 \<Longrightarrow> image256 (of_image256 bs) = bs"
  "length cs = 20 \<Longrightarrow> image160 (of_image160 cs) = cs"
  "of_image256 (image256 h) = h"
  "of_image160 (image160 g) = g"
proof -
  show "image256 (of_image256 bs) = bs" if "length bs = 32"
    using that le_val_less [of bs] le_bytes_le_val [of bs]
    unfolding image256_def of_image256_def unat_of_nat by simp
  show "image160 (of_image160 cs) = cs" if "length cs = 20"
    using that le_val_less [of cs] le_bytes_le_val [of cs]
    unfolding image160_def of_image160_def unat_of_nat by simp
  show "of_image256 (image256 h) = h" "of_image160 (image160 g) = g"
    using unat_less_len [of h] unat_less_len [of g]
    by (simp_all add: image256_def image160_def of_image256_def of_image160_def)
qed

lemma length_images [simp]: "length (image256 h) = 32" "length (image160 g) = 20"
  by (simp_all add: image256_def image160_def)

lemma image160_inj: "image160 a = image160 b \<longleftrightarrow> a = b"
  by (metis image_roundtrip(4))

lemma key_ok_MakeNewKey: "d < 256 ^ 32 \<Longrightarrow> key_ok E (MakeNewKey E d c CKey_new)"
  by (simp add: key_ok_def MakeNewKey_def SetCompressedPubKey_def CKey_new_def EC_KEY_new_def
      EC_KEY_regenerate_key_def Let_def)

lemma key_ok_parts:
  assumes "key_ok E k"
  obtains d c where "d < 256 ^ 32" "k = \<lparr>pkey = \<lparr>priv_key = Some d, pub_key = Some (EC_POINT_mul E d),
    conv_compressed = c\<rparr>, fSet = True, fCompressedPubKey = c\<rparr>"
  using assms by (cases k; cases "pkey k") (auto simp: key_ok_def split: option.splits)

lemma SetSecret_GetSecret:
  assumes "key_ok E k" "GetSecret k = Inr (s, c)"
  shows "SetSecret E s c (CKey_Reset k') = Inr k"
proof -
  from assms(1) obtain d c' where d: "d < 256 ^ 32" and k: "k = \<lparr>pkey = \<lparr>priv_key = Some d,
    pub_key = Some (EC_POINT_mul E d), conv_compressed = c'\<rparr>, fSet = True, fCompressedPubKey = c'\<rparr>"
    by (rule key_ok_parts)
  then have s: "s = rev (le_bytes 32 d)" "c = c'"
    using assms(2) by (auto simp: GetSecret_def)
  from d have "le_val (rev s) = d" unfolding s by simp
  moreover have "length s = 32" by (simp add: s(1))
  ultimately show ?thesis
    unfolding SetSecret_def s(2) k CKey_Reset_def EC_KEY_regenerate_key_def EC_KEY_new_def SetCompressedPubKey_def Let_def
    by simp
qed

section \<open>The interface \<^verbatim>\<open>CKeyStore\<close>\<close>

text \<open>
  What the abstract class promises its clients: a stored key is found under its address, other
  addresses are not disturbed, and whatever is found under an address is a key of that address.
\<close>

locale key_store =
  fixes invar :: "'s \<Rightarrow> bool" and good :: "'k \<Rightarrow> bool" and addr :: "'k \<Rightarrow> 'a"
    and add :: "'k \<Rightarrow> 's \<Rightarrow> 's res" and has :: "'s \<Rightarrow> 'a \<Rightarrow> bool" and get :: "'s \<Rightarrow> 'a \<Rightarrow> 'k option"
  assumes add_get: "invar s \<Longrightarrow> good k \<Longrightarrow>
      \<exists>s'. add k s = Inr s' \<and> invar s' \<and> (\<forall>a. get s' a = (if a = addr k then Some k else get s a))"
    and has_get: "invar s \<Longrightarrow> has s a \<longleftrightarrow> get s a \<noteq> None"
    and get_addr: "invar s \<Longrightarrow> get s a = Some k \<Longrightarrow> good k \<and> addr k = a"
begin

lemma add_all:
  assumes "invar s" "\<And>k. k \<in> set ks \<Longrightarrow> good k"
  shows "\<exists>s'. fold (\<lambda>k m. rbind m (add k)) ks (Inr s) = Inr s' \<and> invar s' \<and>
    (\<forall>a. has s' a \<longleftrightarrow> has s a \<or> a \<in> addr ` set ks) \<and>
    (\<forall>a k. get s' a = Some k \<longrightarrow> good k \<and> addr k = a)"
  using assms
proof (induction ks arbitrary: s)
  case Nil
  then show ?case using get_addr by auto
next
  case (Cons k ks)
  then obtain s1 where s1: "add k s = Inr s1" "invar s1"
    "\<forall>a. get s1 a = (if a = addr k then Some k else get s a)"
    using add_get [of s k] by auto
  then have h: "has s1 a \<longleftrightarrow> has s a \<or> a = addr k" for a by (simp add: has_get Cons.prems(1))
  from Cons.IH [OF s1(2)] Cons.prems(2) show ?case by (auto simp: s1(1) h)
qed

end

lemma stored_keyI: "GetKey E ks a CKey_new = Inr (True, k) \<Longrightarrow> stored_key E ks a = Some k"
  by (simp add: stored_key_def)

lemma SetSecret_ok:
  assumes "length s = 32"
  shows "\<exists>k. SetSecret E s c (CKey_Reset k0) = Inr k \<and> key_ok E k \<and>
    key_address D E k = CPubKey_GetID D (EC_POINT_point2oct E (EC_POINT_mul E (le_val (rev s))) c)"
  using assms le_val_less [of "rev s"]
  by (simp add: SetSecret_def CKey_Reset_def EC_KEY_regenerate_key_def EC_KEY_new_def SetCompressedPubKey_def
      key_ok_def key_address_def GetPubKey_def Let_def)

lemma stored_key_addr:
  assumes "keystore_ok D E ks" "stored_key E ks a = Some k"
  shows "key_ok E k \<and> key_address D E k = a"
proof -
  obtain s c where m: "mapKeys ks a = Some (s, c)"
    using assms(2) by (auto simp: stored_key_def GetKey_def split: option.splits sum.splits)
  then have "length s = 32" "a = CPubKey_GetID D (EC_POINT_point2oct E (EC_POINT_mul E (le_val (rev s))) c)"
    using assms(1) by (auto simp: keystore_ok_def)
  then show ?thesis
    using assms(2) m SetSecret_ok [of s E c CKey_new D] by (auto simp: stored_key_def GetKey_def)
qed

lemma AddKey_step:
  assumes "keystore_ok D E ks" "key_ok E k"
  shows "\<exists>ks'. AddKey D E k ks = Inr ks' \<and> keystore_ok D E ks' \<and>
    (\<forall>a. stored_key E ks' a = (if a = key_address D E k then Some k else stored_key E ks a))"
proof -
  obtain d c where d: "d < 256 ^ 32" and k: "k = \<lparr>pkey = \<lparr>priv_key = Some d, pub_key = Some (EC_POINT_mul E d),
    conv_compressed = c\<rparr>, fSet = True, fCompressedPubKey = c\<rparr>"
    using assms(2) by (rule key_ok_parts)
  let ?s = "rev (le_bytes 32 d)" and ?c = c
  have s: "GetSecret k = Inr (?s, ?c)" using d by (simp add: k GetSecret_def)
  have p: "GetPubKey E k = Inr (EC_POINT_point2oct E (EC_POINT_mul E d) ?c)" by (simp add: k GetPubKey_def)
  let ?a = "key_address D E k"
  have a: "?a = CPubKey_GetID D (EC_POINT_point2oct E (EC_POINT_mul E (le_val (rev ?s))) ?c)"
    using d by (simp add: key_address_def p)
  let ?ks = "ks\<lparr>mapKeys := (mapKeys ks)(?a \<mapsto> (?s, ?c))\<rparr>"
  have "AddKey D E k ks = Inr ?ks" by (simp add: AddKey_def s p key_address_def)
  moreover have "keystore_ok D E ?ks"
    using assms(1) a by (auto simp: keystore_ok_def)
  moreover have "stored_key E ?ks b = (if b = ?a then Some k else stored_key E ks b)" for b
    using SetSecret_GetSecret(1) [OF assms(2) s] by (simp add: stored_key_def GetKey_def)
  ultimately show ?thesis by blast
qed

lemma HaveKey_stored:
  assumes "keystore_ok D E ks"
  shows "HaveKey ks a \<longleftrightarrow> stored_key E ks a \<noteq> None"
proof (cases "mapKeys ks a")
  case None
  then show ?thesis by (simp add: HaveKey_def stored_key_def GetKey_def)
next
  case (Some sc)
  obtain s c where sc: "sc = (s, c)" by fastforce
  have "length s = 32" using assms Some unfolding sc keystore_ok_def by blast
  then obtain k where "SetSecret E s c (CKey_Reset CKey_new) = Inr k"
    using SetSecret_ok [of s E c CKey_new D] by blast
  then show ?thesis by (simp add: HaveKey_def stored_key_def GetKey_def Some sc)
qed

interpretation basic_store: key_store "keystore_ok D E" "key_ok E" "key_address D E" "AddKey D E" HaveKey "stored_key E"
  for D :: digests and E :: "'p curve"
  by unfold_locales (rule AddKey_step HaveKey_stored stored_key_addr; assumption)+

text \<open>
  C24. The key store: adding any keys made by the wallet to a well-formed store succeeds and keeps it
  well-formed; afterwards \<^verbatim>\<open>HaveKey\<close> knows exactly the old addresses and those of the new keys, and the
  key \<^verbatim>\<open>GetKey\<close> returns for an address is a complete key that hashes to that very address.
\<close>

theorem keystore_adds_keys:
  assumes "keystore_ok D E ks" "\<And>k. k \<in> set keys \<Longrightarrow> key_ok E k"
  shows "\<exists>ks'. fold (\<lambda>k m. rbind m (AddKey D E k)) keys (Inr ks) = Inr ks' \<and> keystore_ok D E ks' \<and>
    (\<forall>a. HaveKey ks' a \<longleftrightarrow> HaveKey ks a \<or> a \<in> key_address D E ` set keys) \<and>
    (\<forall>a k. GetKey E ks' a CKey_new = Inr (True, k) \<longrightarrow> key_ok E k \<and> key_address D E k = a)"
proof -
  obtain ks' where 1: "fold (\<lambda>k m. rbind m (AddKey D E k)) keys (Inr ks) = Inr ks'" "keystore_ok D E ks'"
    "\<forall>a. HaveKey ks' a \<longleftrightarrow> HaveKey ks a \<or> a \<in> key_address D E ` set keys"
    and 2: "\<forall>a k. stored_key E ks' a = Some k \<longrightarrow> key_ok E k \<and> key_address D E k = a"
    using basic_store.add_all [OF assms] by blast
  have "key_ok E k \<and> key_address D E k = a" if "GetKey E ks' a CKey_new = Inr (True, k)" for a k
    using 2 stored_keyI [OF that] by simp
  with 1 show ?thesis by (intro exI [of _ ks']) simp
qed

theorem keystore_adds_keys_witness:
  fixes k :: "nat CKey" and s0 :: CBasicKeyStore
  defines "k \<equiv> MakeNewKey toy_curve 7 True CKey_new" and "s0 \<equiv> \<lparr>mapKeys = Map.empty, mapScripts = Map.empty\<rparr>"
  shows "\<exists>ks'. fold (\<lambda>k m. rbind m (AddKey toy_digests toy_curve k)) [k] (Inr s0) = Inr ks' \<and>
    keystore_ok toy_digests toy_curve ks' \<and> HaveKey ks' (key_address toy_digests toy_curve k)"
proof -
  have "keystore_ok toy_digests toy_curve s0" by (simp add: s0_def keystore_ok_def)
  moreover have "key_ok toy_curve k'" if "k' \<in> set [k]" for k'
    using that by (simp add: k_def key_ok_MakeNewKey)
  ultimately show ?thesis
    using keystore_adds_keys [of toy_digests toy_curve s0 "[k]"] by fastforce
qed

end
