(* ===== verification/Merkle.thy ===== *)
theory Merkle
  imports Transaction Key
begin

text \<open>
  Blocks and merkle trees: \<^verbatim>\<open>CBlockHeader\<close>, \<^verbatim>\<open>CBlock\<close> with its merkle tree and branches, and the partial merkle
  trees by which a light client is shown that a transaction is in a block (\<^verbatim>\<open>src/src/main.h\<close> 1193 to 1437,
  \<^verbatim>\<open>src/src/main.cpp\<close> 2325 to 2437).  Hashes are over the digests \<open>D\<close>.  The reference definitions are the recursive merkle root
  and the list of the selected transactions.
\<close>

section \<open>Block headers\<close>

record CBlockHeader =
  blk_nVersion :: int
  hashPrevBlock :: uint256
  hashMerkleRoot :: uint256
  blk_nTime :: u32
  blk_nBits :: u32
  blk_nNonce :: u32
  bnPrimeChainMultiplier :: int

record CBlock = CBlockHeader +
  vtx :: "CTransaction list"
  vMerkleTree :: "uint256 list"
  blk_nPrimeChainType :: u32
  blk_nPrimeChainLength :: u32

definition CBlockHeader_null :: CBlockHeader where
  "CBlockHeader_null = \<lparr>blk_nVersion = 2, hashPrevBlock = 0, hashMerkleRoot = 0, blk_nTime = 0, blk_nBits = 0,
     blk_nNonce = 0, bnPrimeChainMultiplier = 0\<rparr>"

definition CBlockHeader_IsNull :: "'a CBlockHeader_scheme \<Rightarrow> bool" where
  "CBlockHeader_IsNull b \<longleftrightarrow> blk_nBits b = 0"

definition header_image :: "'a CBlockHeader_scheme \<Rightarrow> byte list" where
  "header_image b = write_le 4 (to_unsigned 32 (blk_nVersion b)) @ write_le 32 (unat (hashPrevBlock b)) @
     write_le 32 (unat (hashMerkleRoot b)) @ write_le 4 (unat (blk_nTime b)) @ write_le 4 (unat (blk_nBits b)) @
     write_le 4 (unat (blk_nNonce b))"

text \<open>A \<^verbatim>\<open>CBigNum\<close> is serialized as the vector \<^verbatim>\<open>getvch\<close>; the other fields as their memory image.\<close>

definition ser_header :: "bn_mpi \<Rightarrow> 'a CBlockHeader_scheme \<Rightarrow> byte list" where
  "ser_header M b = header_image b @ Serialize_bytes (getvch M (bnPrimeChainMultiplier b))"

definition unser_header :: "bn_mpi \<Rightarrow> CBlockHeader reader" where
  "unser_header M is =
     rbind (read_le 4 is) (\<lambda>(v, is). rbind (read_le 32 is) (\<lambda>(p, is). rbind (read_le 32 is) (\<lambda>(m, is).
     rbind (read_le 4 is) (\<lambda>(t, is). rbind (read_le 4 is) (\<lambda>(b, is). rbind (read_le 4 is) (\<lambda>(n, is).
     rbind (Unserialize_bytes is) (\<lambda>(vch, is).
     Inr (\<lparr>blk_nVersion = to_signed 32 v, hashPrevBlock = of_nat p, hashMerkleRoot = of_nat m, blk_nTime = of_nat t,
           blk_nBits = of_nat b, blk_nNonce = of_nat n, bnPrimeChainMultiplier = setvch M vch\<rparr>, is))))))))"

definition GetHeaderHash :: "digests \<Rightarrow> 'a CBlockHeader_scheme \<Rightarrow> uint256" where
  "GetHeaderHash D b = Hash D (header_image b)"

definition block_GetHash :: "digests \<Rightarrow> bn_mpi \<Rightarrow> 'a CBlockHeader_scheme \<Rightarrow> uint256" where
  "block_GetHash D M b = Hash D (ser_header M b)"

definition GetBlockTime :: "'a CBlockHeader_scheme \<Rightarrow> int" where
  "GetBlockTime b = uint (blk_nTime b)"

section \<open>Blocks\<close>

definition CBlock_of :: "CBlockHeader \<Rightarrow> CBlock" where
  "CBlock_of h = CBlockHeader.extend h \<lparr>vtx = [], vMerkleTree = [], blk_nPrimeChainType = 0, blk_nPrimeChainLength = 0\<rparr>"

definition CBlock_null :: CBlock where
  "CBlock_null = CBlock_of CBlockHeader_null"

definition ser_block :: "bn_mpi \<Rightarrow> CBlock \<Rightarrow> byte list" where
  "ser_block M b = ser_header M b @ Serialize_vector ser_tx (vtx b)"

definition unser_block :: "bn_mpi \<Rightarrow> CBlock reader" where
  "unser_block M is =
     rbind (unser_header M is) (\<lambda>(h, is). rbind (Unserialize_vector unser_tx is) (\<lambda>(txs, is).
     Inr ((CBlock_of h)\<lparr>vtx := txs\<rparr>, is)))"

text \<open>\<^verbatim>\<open>GetBlockHeader\<close> leaves the certificate at its initial value.\<close>

definition GetBlockHeader :: "CBlock \<Rightarrow> CBlockHeader" where
  "GetBlockHeader b = CBlockHeader_null\<lparr>blk_nVersion := blk_nVersion b, hashPrevBlock := hashPrevBlock b,
     hashMerkleRoot := hashMerkleRoot b, blk_nTime := blk_nTime b, blk_nBits := blk_nBits b, blk_nNonce := blk_nNonce b\<rparr>"

definition hash_pair :: "digests \<Rightarrow> uint256 \<Rightarrow> uint256 \<Rightarrow> uint256" where
  "hash_pair D l r = Hash2 D (image256 l) (image256 r)"

text \<open>The hashes one pass of the outer loop of \<^verbatim>\<open>BuildMerkleTree\<close> appends, and the loop.\<close>

definition merkle_row :: "digests \<Rightarrow> uint256 list \<Rightarrow> nat \<Rightarrow> nat \<Rightarrow> uint256 list" where
  "merkle_row D tree j nSize =
     map (\<lambda>k. let i = 2 * k; i2 = min (i + 1) (nSize - 1) in hash_pair D (tree ! (j + i)) (tree ! (j + i2))) [0..<(nSize + 1) div 2]"

function merkle_loop :: "digests \<Rightarrow> uint256 list \<Rightarrow> nat \<Rightarrow> nat \<Rightarrow> uint256 list" where
  "merkle_loop D tree j nSize =
     (if nSize > 1 then merkle_loop D (tree @ merkle_row D tree j nSize) (j + nSize) ((nSize + 1) div 2) else tree)"
  by auto
termination by (relation "measure (\<lambda>(D, tree, j, nSize). nSize)") auto

declare merkle_loop.simps [simp del]

definition BuildMerkleTree :: "digests \<Rightarrow> CBlock \<Rightarrow> uint256 \<times> CBlock" where
  "BuildMerkleTree D b =
     (let tree = merkle_loop D (map (tx_hash (Hash D)) (vtx b)) 0 (length (vtx b))
      in (if tree = [] then 0 else last tree, b\<lparr>vMerkleTree := tree\<rparr>))"

definition GetTxHash :: "CBlock \<Rightarrow> nat \<Rightarrow> uint256 res" where
  "GetTxHash b nIndex =
     (if vMerkleTree b = [] then Inl Assert_failed
      else if nIndex < length (vtx b) then Inr (vMerkleTree b ! nIndex) else Inl Assert_failed)"

text \<open>\<^verbatim>\<open>GetMerkleBranch\<close> with the index of a transaction of the block; it builds the tree if it is empty.\<close>

function branch_loop :: "uint256 list \<Rightarrow> nat \<Rightarrow> nat \<Rightarrow> nat \<Rightarrow> uint256 list" where
  "branch_loop tree nIndex j nSize =
     (if nSize > 1 then tree ! (j + min (nIndex XOR 1) (nSize - 1)) # branch_loop tree (nIndex div 2) (j + nSize) ((nSize + 1) div 2)
      else [])"
  by auto
termination by (relation "measure (\<lambda>(tree, nIndex, j, nSize). nSize)") auto

declare branch_loop.simps [simp del]

definition GetMerkleBranch :: "digests \<Rightarrow> CBlock \<Rightarrow> nat \<Rightarrow> uint256 list \<times> CBlock" where
  "GetMerkleBranch D b nIndex =
     (let b = (if vMerkleTree b = [] then snd (BuildMerkleTree D b) else b)
      in (branch_loop (vMerkleTree b) nIndex 0 (length (vtx b)), b))"

text \<open>\<^verbatim>\<open>CheckMerkleBranch\<close>; the index is a signed integer, and -1 stands for no index.\<close>

fun check_branch_loop :: "digests \<Rightarrow> uint256 \<Rightarrow> uint256 list \<Rightarrow> int \<Rightarrow> uint256" where
  "check_branch_loop D hash [] nIndex = hash"
| "check_branch_loop D hash (otherside # branch) nIndex =
     check_branch_loop D (if nIndex AND 1 \<noteq> 0 then hash_pair D otherside hash else hash_pair D hash otherside) branch (drop_bit 1 nIndex)"

definition CheckMerkleBranch :: "digests \<Rightarrow> uint256 \<Rightarrow> uint256 list \<Rightarrow> int \<Rightarrow> uint256" where
  "CheckMerkleBranch D hash vMerkleBranch nIndex =
     (if nIndex = - 1 then 0 else check_branch_loop D hash vMerkleBranch nIndex)"

section \<open>Partial merkle trees\<close>

text \<open>
  Numbers of transactions and positions are naturals.  \<^verbatim>\<open>nTransactions\<close> comes from the network, so the sum in
  \<^verbatim>\<open>CalcTreeWidth\<close> is taken modulo \<open>2 ^ 32\<close>.
\<close>

record CPartialMerkleTree =
  nTransactions :: nat
  vBits :: "bool list"
  vHash :: "uint256 list"
  fBad :: bool

definition CalcTreeWidth :: "nat \<Rightarrow> nat \<Rightarrow> nat" where
  "CalcTreeWidth n height = (n + 2 ^ height - 1) mod 2 ^ 32 div 2 ^ height"

fun CalcHash :: "digests \<Rightarrow> nat \<Rightarrow> nat \<Rightarrow> nat \<Rightarrow> uint256 list \<Rightarrow> uint256" where
  "CalcHash D n 0 pos vTxid = vTxid ! pos"
| "CalcHash D n (Suc height) pos vTxid =
     (let left = CalcHash D n height (pos * 2) vTxid;
          right = (if pos * 2 + 1 < CalcTreeWidth n height then CalcHash D n height (pos * 2 + 1) vTxid else left)
      in hash_pair D left right)"

definition parent_of_match :: "nat \<Rightarrow> nat \<Rightarrow> nat \<Rightarrow> bool list \<Rightarrow> bool" where
  "parent_of_match n height pos vMatch = list_ex (\<lambda>p. vMatch ! p) [pos * 2 ^ height..<min ((pos + 1) * 2 ^ height) n]"

fun TraverseAndBuild :: "digests \<Rightarrow> nat \<Rightarrow> nat \<Rightarrow> uint256 list \<Rightarrow> bool list \<Rightarrow> CPartialMerkleTree \<Rightarrow> CPartialMerkleTree" where
  "TraverseAndBuild D 0 pos vTxid vMatch t =
     t\<lparr>vBits := vBits t @ [parent_of_match (nTransactions t) 0 pos vMatch],
       vHash := vHash t @ [CalcHash D (nTransactions t) 0 pos vTxid]\<rparr>"
| "TraverseAndBuild D (Suc height) pos vTxid vMatch t =
     (let fParentOfMatch = parent_of_match (nTransactions t) (Suc height) pos vMatch;
          t = t\<lparr>vBits := vBits t @ [fParentOfMatch]\<rparr>
      in if \<not> fParentOfMatch then t\<lparr>vHash := vHash t @ [CalcHash D (nTransactions t) (Suc height) pos vTxid]\<rparr>
         else let t = TraverseAndBuild D height (pos * 2) vTxid vMatch t
              in if pos * 2 + 1 < CalcTreeWidth (nTransactions t) height
                 then TraverseAndBuild D height (pos * 2 + 1) vTxid vMatch t else t)"

text \<open>The variables that \<^verbatim>\<open>TraverseAndExtract\<close> changes.\<close>

record extract_state =
  ex_fBad :: bool
  nBitsUsed :: nat
  nHashUsed :: nat
  ex_vMatch :: "uint256 list"

fun TraverseAndExtract :: "digests \<Rightarrow> CPartialMerkleTree \<Rightarrow> nat \<Rightarrow> nat \<Rightarrow> extract_state \<Rightarrow> uint256 \<times> extract_state" where
  "TraverseAndExtract D t height pos st =
     (if nBitsUsed st \<ge> length (vBits t) then (0, st\<lparr>ex_fBad := True\<rparr>)
      else let fParentOfMatch = vBits t ! nBitsUsed st; st = st\<lparr>nBitsUsed := nBitsUsed st + 1\<rparr>
      in if height = 0 \<or> \<not> fParentOfMatch then
           if nHashUsed st \<ge> length (vHash t) then (0, st\<lparr>ex_fBad := True\<rparr>)
           else let hash = vHash t ! nHashUsed st; st = st\<lparr>nHashUsed := nHashUsed st + 1\<rparr>
           in (hash, if height = 0 \<and> fParentOfMatch then st\<lparr>ex_vMatch := ex_vMatch st @ [hash]\<rparr> else st)
         else let (left, st) = TraverseAndExtract D t (height - 1) (pos * 2) st;
                  (right, st) = (if pos * 2 + 1 < CalcTreeWidth (nTransactions t) (height - 1)
                                 then TraverseAndExtract D t (height - 1) (pos * 2 + 1) st else (left, st))
              in (hash_pair D left right, st))"

declare TraverseAndExtract.simps [simp del]

lemma CalcTreeWidth_top: "31 \<le> height \<Longrightarrow> CalcTreeWidth n height \<le> 1"
proof -
  assume "31 \<le> height"
  then have "(2::nat) ^ 32 \<le> 2 * 2 ^ height" using power_increasing [of 31 height "2::nat"] by simp
  moreover have "(n + 2 ^ height - 1) mod 2 ^ 32 < 2 ^ 32" by simp
  ultimately have "(n + 2 ^ height - 1) mod 2 ^ 32 < 2 * 2 ^ height" by linarith
  then have "CalcTreeWidth n height < 2" unfolding CalcTreeWidth_def by (rule less_mult_imp_div_less)
  then show ?thesis by simp
qed

function tree_height :: "nat \<Rightarrow> nat \<Rightarrow> nat" where
  "tree_height n nHeight = (if CalcTreeWidth n nHeight > 1 then tree_height n (nHeight + 1) else nHeight)"
  by auto
termination
proof (relation "measure (\<lambda>(n, nHeight). 31 - nHeight)")
  fix n nHeight assume "1 < CalcTreeWidth n nHeight"
  then show "((n, nHeight + 1), n, nHeight) \<in> measure (\<lambda>(n, nHeight). 31 - nHeight)"
    using CalcTreeWidth_top [of nHeight n] by (cases "31 \<le> nHeight") simp_all
qed simp

declare tree_height.simps [simp del]

definition CPartialMerkleTree_of :: "digests \<Rightarrow> uint256 list \<Rightarrow> bool list \<Rightarrow> CPartialMerkleTree" where
  "CPartialMerkleTree_of D vTxid vMatch =
     (let n = length vTxid mod 2 ^ 32
      in TraverseAndBuild D (tree_height n 0) 0 vTxid vMatch \<lparr>nTransactions = n, vBits = [], vHash = [], fBad = False\<rparr>)"

definition ExtractMatches :: "digests \<Rightarrow> CPartialMerkleTree \<Rightarrow> uint256 \<times> uint256 list" where
  "ExtractMatches D t =
     (if nTransactions t = 0 then (0, [])
      else if nTransactions t > MAX_BLOCK_SIZE div 60 then (0, [])
      else if length (vHash t) > nTransactions t then (0, [])
      else if length (vBits t) < length (vHash t) then (0, [])
      else let (root, st) = TraverseAndExtract D t (tree_height (nTransactions t) 0) 0
                              \<lparr>ex_fBad = fBad t, nBitsUsed = 0, nHashUsed = 0, ex_vMatch = []\<rparr>
      in if ex_fBad st then (0, ex_vMatch st)
         else if (nBitsUsed st + 7) div 8 \<noteq> (length (vBits t) + 7) div 8 then (0, ex_vMatch st)
         else if nHashUsed st \<noteq> length (vHash t) then (0, ex_vMatch st)
         else (root, ex_vMatch st))"

text \<open>The serialization packs the bits into bytes, the least significant first.\<close>

definition pack_byte :: "bool list \<Rightarrow> nat \<Rightarrow> byte" where
  "pack_byte bits b = fold (\<lambda>i ch. if b * 8 + i < length bits \<and> bits ! (b * 8 + i) then ch OR push_bit i 1 else ch) [0..<8] 0"

definition pack_bits :: "bool list \<Rightarrow> byte list" where
  "pack_bits bits = map (pack_byte bits) [0..<(length bits + 7) div 8]"

definition unpack_bits :: "byte list \<Rightarrow> bool list" where
  "unpack_bits bs = map (\<lambda>p. bs ! (p div 8) AND push_bit (p mod 8) 1 \<noteq> 0) [0..<length bs * 8]"

definition ser_pmt :: "CPartialMerkleTree \<Rightarrow> byte list" where
  "ser_pmt t = write_le 4 (nTransactions t) @ Serialize_vector (\<lambda>h. write_le 32 (unat h)) (vHash t) @
     Serialize_bytes (pack_bits (vBits t))"

definition read_uint256 :: "uint256 reader" where
  "read_uint256 is = rbind (read_le 32 is) (\<lambda>(h, is). Inr (of_nat h, is))"

definition unser_pmt :: "CPartialMerkleTree reader" where
  "unser_pmt is =
     rbind (read_le 4 is) (\<lambda>(n, is). rbind (Unserialize_vector read_uint256 is) (\<lambda>(hs, is).
     rbind (Unserialize_bytes is) (\<lambda>(vBytes, is).
     Inr (\<lparr>nTransactions = n, vBits = unpack_bits vBytes, vHash = hs, fBad = False\<rparr>, is))))"

section \<open>Reference definitions\<close>

fun pair_up :: "digests \<Rightarrow> uint256 list \<Rightarrow> uint256 list" where
  "pair_up D [] = []"
| "pair_up D [x] = [hash_pair D x x]"
| "pair_up D (x # y # r) = hash_pair D x y # pair_up D r"

lemma length_pair_up [simp]: "length (pair_up D xs) = (length xs + 1) div 2"
  by (induction D xs rule: pair_up.induct) auto

function merkle_root :: "digests \<Rightarrow> uint256 list \<Rightarrow> uint256" where
  "merkle_root D [] = 0"
| "merkle_root D [x] = x"
| "merkle_root D (x # y # r) = merkle_root D (pair_up D (x # y # r))"
  by pat_completeness auto
termination by (relation "measure (\<lambda>(D, xs). length xs)") auto

text \<open>
  Two branches that lead from different hashes to the same root: going up, the first place where different pairs
  have the same hash.
\<close>

definition node_pair :: "nat \<Rightarrow> uint256 \<Rightarrow> uint256 \<Rightarrow> uint256 \<times> uint256" where
  "node_pair n h s = (if odd n then (s, h) else (h, s))"

fun branch_collision :: "digests \<Rightarrow> uint256 \<Rightarrow> uint256 list \<Rightarrow> uint256 \<Rightarrow> uint256 list \<Rightarrow> nat \<Rightarrow>
    ((uint256 \<times> uint256) \<times> (uint256 \<times> uint256)) option" where
  "branch_collision D h (s # br) h' (s' # br') n =
     (let p = node_pair n h s; p' = node_pair n h' s';
          u = case_prod (hash_pair D) p; u' = case_prod (hash_pair D) p'
      in if p \<noteq> p' \<and> u = u' then Some (p, p') else branch_collision D u br u' br' (n div 2))"
| "branch_collision D h _ h' _ n = None"

definition demo_block :: CBlock where
  "demo_block = CBlock_null\<lparr>vtx := [CTransaction_null, CTransaction_null\<lparr>nLockTime := 1\<rparr>, CTransaction_null\<lparr>nLockTime := 2\<rparr>]\<rparr>"

definition leaf_range :: "nat \<Rightarrow> nat \<Rightarrow> nat \<Rightarrow> nat list" where
  "leaf_range n height pos = [pos * 2 ^ height..<min ((pos + 1) * 2 ^ height) n]"

definition selected :: "uint256 list \<Rightarrow> bool list \<Rightarrow> nat list \<Rightarrow> uint256 list" where
  "selected vTxid vMatch ps = map (\<lambda>p. vTxid ! p) (filter (\<lambda>p. vMatch ! p) ps)"

text \<open>
  What a traversal of the subtree at \<open>pos\<close> writes, the bits \<open>B\<close> and the hashes \<open>H\<close>, and what reading them back gives.
\<close>

definition reads_back :: "digests \<Rightarrow> uint256 list \<Rightarrow> bool list \<Rightarrow> nat \<Rightarrow> nat \<Rightarrow> bool list \<Rightarrow> uint256 list \<Rightarrow> bool" where
  "reads_back D vTxid vMatch h pos B H \<longleftrightarrow>
     (\<forall>t st B1 B2 H1 H2. nTransactions t = length vTxid \<longrightarrow> vBits t = B1 @ B @ B2 \<longrightarrow> vHash t = H1 @ H @ H2 \<longrightarrow>
        nBitsUsed st = length B1 \<longrightarrow> nHashUsed st = length H1 \<longrightarrow>
        TraverseAndExtract D t h pos st = (CalcHash D (length vTxid) h pos vTxid,
          st\<lparr>nBitsUsed := length (B1 @ B), nHashUsed := length (H1 @ H),
             ex_vMatch := ex_vMatch st @ selected vTxid vMatch (leaf_range (length vTxid) h pos)\<rparr>))"

definition writes :: "digests \<Rightarrow> uint256 list \<Rightarrow> bool list \<Rightarrow> nat \<Rightarrow> nat \<Rightarrow> bool list \<Rightarrow> uint256 list \<Rightarrow> bool" where
  "writes D vTxid vMatch h pos B H \<longleftrightarrow>
     (\<forall>t. nTransactions t = length vTxid \<longrightarrow>
        TraverseAndBuild D h pos vTxid vMatch t = t\<lparr>vBits := vBits t @ B, vHash := vHash t @ H\<rparr>) \<and>
     length H \<le> length B \<and> length B < 2 ^ Suc h \<and> length H \<le> length (leaf_range (length vTxid) h pos)"

section \<open>Lemmas\<close>

lemma pair_up_nth:
  "k < (length xs + 1) div 2 \<Longrightarrow> pair_up D xs ! k = hash_pair D (xs ! (2 * k)) (xs ! (min (2 * k + 1) (length xs - 1)))"
proof (induction D xs arbitrary: k rule: pair_up.induct)
  case (3 D x y r)
  then show ?case by (cases k) (auto simp: min_def nth_Cons split: nat.splits)
qed auto

lemma merkle_row_eq:
  assumes "length tree = j + nSize"
  shows "merkle_row D tree j nSize = pair_up D (drop j tree)"
proof (rule nth_equalityI)
  show "length (merkle_row D tree j nSize) = length (pair_up D (drop j tree))"
    using assms by (simp add: merkle_row_def)
  fix k assume k: "k < length (merkle_row D tree j nSize)"
  then have k': "k < (nSize + 1) div 2" by (simp add: merkle_row_def)
  then have "2 * k < nSize" by auto
  then show "merkle_row D tree j nSize ! k = pair_up D (drop j tree) ! k"
    using k' assms by (simp add: merkle_row_def pair_up_nth Let_def)
qed

lemma merkle_root_pair_up: "1 < length xs \<Longrightarrow> merkle_root D xs = merkle_root D (pair_up D xs)"
  by (cases "(D, xs)" rule: merkle_root.cases) simp_all

lemma merkle_loop_root:
  assumes "length tree = j + nSize" "0 < nSize"
  shows "\<exists>ext. merkle_loop D tree j nSize = tree @ ext \<and> last (tree @ ext) = merkle_root D (drop j tree)"
  using assms
proof (induction D tree j nSize rule: merkle_loop.induct)
  case (1 D tree j nSize)
  show ?case
  proof (cases "1 < nSize")
    case True
    let ?row = "merkle_row D tree j nSize"
    have row: "?row = pair_up D (drop j tree)" using 1 by (simp add: merkle_row_eq)
    have "length (tree @ ?row) = j + nSize + (nSize + 1) div 2" using 1 by (simp add: row)
    then obtain ext where e: "merkle_loop D (tree @ ?row) (j + nSize) ((nSize + 1) div 2) = (tree @ ?row) @ ext"
      "last ((tree @ ?row) @ ext) = merkle_root D (drop (j + nSize) (tree @ ?row))"
      using 1(1) [OF True] True by auto
    have "drop (j + nSize) (tree @ ?row) = pair_up D (drop j tree)" using 1 by (simp add: row)
    then show ?thesis
      using e True 1 merkle_root_pair_up [of "drop j tree" D]
      by (intro exI [of _ "?row @ ext"]) (subst merkle_loop.simps, simp)
  next
    case False
    then have "nSize = 1" using 1 by simp
    then have "length (drop j tree) = 1" using 1 by simp
    then obtain x where "drop j tree = [x]" by (cases "drop j tree") simp_all
    moreover have "last tree = last (drop j tree)" using 1 by simp
    ultimately show ?thesis using False by (intro exI [of _ "[]"]) (subst merkle_loop.simps, simp)
  qed
qed

lemma index_sibling: "(n::nat) XOR 1 = (if even n then n + 1 else n - 1)"
  by (simp add: xor_Suc_0_eq)

lemma low_bit_int: "(int n AND 1 \<noteq> 0) = odd n" "drop_bit 1 (int n) = int (n div 2)"
  by (simp_all add: and_one_eq mod2_eq_if drop_bit_eq_div zdiv_int)

lemma check_branch_step:
  "check_branch_loop D h (s # br) (int n) =
     check_branch_loop D (if odd n then hash_pair D s h else hash_pair D h s) br (int (n div 2))"
  by (simp only: check_branch_loop.simps low_bit_int)

text \<open>One step up a branch: the hash of a node and of its sibling is the parent in the next row.\<close>

lemma sibling_parent:
  assumes "n < length row" "1 < length row"
  shows "(if odd n then hash_pair D (row ! min (n XOR 1) (length row - 1)) (row ! n)
          else hash_pair D (row ! n) (row ! min (n XOR 1) (length row - 1))) = pair_up D row ! (n div 2)"
proof -
  have "n div 2 < (length row + 1) div 2" using assms by simp
  note p = pair_up_nth [OF this, of D]
  show ?thesis
  proof (cases "odd n")
    case True
    then have "2 * (n div 2) = n - 1" "0 < n" by (auto elim: oddE)
    moreover have "min n (length row - 1) = n" "min (n - 1) (length row - 1) = n - 1" using assms by simp_all
    ultimately show ?thesis using True p by (simp add: index_sibling del: One_nat_def)
  next
    case False
    then have "2 * (n div 2) = n" by simp
    then show ?thesis using False p assms by (simp add: index_sibling del: One_nat_def)
  qed
qed

lemma branch_checks:
  assumes "length tree = j + nSize" "n < nSize" "full = merkle_loop D tree j nSize"
  shows "check_branch_loop D (tree ! (j + n)) (branch_loop full n j nSize) (int n) = merkle_root D (drop j tree)"
  using assms
proof (induction D tree j nSize arbitrary: n rule: merkle_loop.induct)
  case (1 D tree j nSize)
  show ?case
  proof (cases "1 < nSize")
    case True
    let ?row = "drop j tree" and ?next = "merkle_row D tree j nSize" and ?half = "(nSize + 1) div 2"
    have row: "?next = pair_up D ?row" "length ?row = nSize" using 1 by (simp_all add: merkle_row_eq)
    have full: "full = merkle_loop D (tree @ ?next) (j + nSize) ?half"
      using 1 True by (simp add: merkle_loop.simps [of D tree])
    have len: "length (tree @ ?next) = j + nSize + ?half" using 1 row by simp
    have "0 < ?half" using True by simp
    then obtain ext where "full = (tree @ ?next) @ ext"
      using merkle_loop_root [OF len, of D] full by auto
    then have up: "full ! (j + i) = ?row ! i" if "i < nSize" for i
      using that 1(2) by (simp add: nth_append)
    have sib: "full ! (j + min (n XOR 1) (nSize - 1)) = ?row ! min (n XOR 1) (nSize - 1)"
      using True by (intro up) simp
    have "check_branch_loop D ((tree @ ?next) ! (j + nSize + n div 2)) (branch_loop full (n div 2) (j + nSize) ?half) (int (n div 2))
        = merkle_root D (drop (j + nSize) (tree @ ?next))"
      using 1(1) [OF True len _ full, of "n div 2"] 1(3) by simp
    moreover have "(tree @ ?next) ! (j + nSize + n div 2) = pair_up D ?row ! (n div 2)"
      "drop (j + nSize) (tree @ ?next) = pair_up D ?row" using 1 row by (simp_all add: nth_append)
    moreover have "branch_loop full n j nSize = ?row ! min (n XOR 1) (nSize - 1) # branch_loop full (n div 2) (j + nSize) ?half"
      using True sib by (simp add: branch_loop.simps [of full n])
    ultimately show ?thesis
      using sibling_parent [of n ?row D] merkle_root_pair_up [of ?row D] True 1(2,3) row(2)
      by (simp only: check_branch_step nth_drop)
  next
    case False
    then have n: "nSize = 1" "n = 0" using 1 by simp_all
    then have "length (drop j tree) = 1" using 1 by simp
    then obtain x where x: "drop j tree = [x]" by (cases "drop j tree") simp_all
    then have "tree ! j = x" using 1 n by (metis hd_drop_conv_nth lessI less_add_same_cancel1 less_one list.sel(1))
    then show ?thesis using n x by (simp add: branch_loop.simps)
  qed
qed

lemma branch_collision_found:
  assumes "length br = length br'" "h \<noteq> h'"
    "check_branch_loop D h br (int n) = check_branch_loop D h' br' (int n)"
  shows "\<exists>a b c d. branch_collision D h br h' br' n = Some ((a, b), (c, d)) \<and> (a, b) \<noteq> (c, d) \<and> hash_pair D a b = hash_pair D c d"
  using assms
proof (induction D h br h' br' n rule: branch_collision.induct)
  case (1 D h s br h' s' br' n)
  let ?u = "case_prod (hash_pair D) (node_pair n h s)" and ?u' = "case_prod (hash_pair D) (node_pair n h' s')"
  have ne: "node_pair n h s \<noteq> node_pair n h' s'" using 1(3) by (simp add: node_pair_def)
  show ?case
  proof (cases "?u = ?u'")
    case True
    then show ?thesis using ne by (auto simp: Let_def split: prod.splits)
  next
    case False
    have "check_branch_loop D ?u br (int (n div 2)) = check_branch_loop D ?u' br' (int (n div 2))"
      using 1(4) unfolding check_branch_step by (cases "odd n") (simp_all add: node_pair_def)
    then show ?thesis using 1(1) [OF refl refl refl refl] 1(2) False by (simp add: Let_def)
  qed
qed simp_all

section \<open>Partial trees\<close>

lemma CalcTreeWidth_exact: "0 < n \<Longrightarrow> n + 2 ^ h \<le> 2 ^ 32 \<Longrightarrow> CalcTreeWidth n h = (n + 2 ^ h - 1) div 2 ^ h"
  by (simp add: CalcTreeWidth_def)

lemma less_width: "0 < (m::nat) \<Longrightarrow> 0 < n \<Longrightarrow> pos < (n + m - 1) div m \<longleftrightarrow> pos * m < n"
proof -
  assume m: "0 < m" "0 < n"
  have "pos < (n + m - 1) div m \<longleftrightarrow> Suc pos \<le> (n + m - 1) div m" by auto
  also have "\<dots> \<longleftrightarrow> Suc pos * m \<le> n + m - 1" using m by (simp only: less_eq_div_iff_mult_less_eq)
  also have "\<dots> \<longleftrightarrow> pos * m < n" using m by auto
  finally show ?thesis .
qed

lemma width_iff: "0 < n \<Longrightarrow> n + 2 ^ h \<le> 2 ^ 32 \<Longrightarrow> pos < CalcTreeWidth n h \<longleftrightarrow> pos * 2 ^ h < n"
  using less_width [of "2 ^ h" n pos] by (simp add: CalcTreeWidth_exact)

lemma tree_height_props:
  "CalcTreeWidth n (tree_height n h) \<le> 1 \<and> h \<le> tree_height n h \<and> (\<forall>k. h \<le> k \<longrightarrow> k < tree_height n h \<longrightarrow> 1 < CalcTreeWidth n k)"
proof (induction n h rule: tree_height.induct)
  case (1 n h)
  show ?case
  proof (cases "CalcTreeWidth n h > 1")
    case True
    then have "tree_height n h = tree_height n (h + 1)" by (subst tree_height.simps) simp
    moreover have "k = h \<or> h + 1 \<le> k" if "h \<le> k" for k using that by linarith
    ultimately show ?thesis using 1 [OF True] True by (metis add_leE)
  next
    case False
    then have "tree_height n h = h" by (subst tree_height.simps) simp
    with False show ?thesis by simp
  qed
qed

lemma tree_height_bound:
  assumes "0 < n" "n \<le> 2 ^ 30"
  shows "n + 2 ^ tree_height n 0 \<le> 2 ^ 32" "n \<le> 2 ^ tree_height n 0" "2 ^ tree_height n 0 \<le> 2 * n"
proof -
  let ?h = "tree_height n 0"
  show small: "2 ^ ?h \<le> 2 * n"
  proof (cases ?h)
    case 0
    then show ?thesis using assms by simp
  next
    case (Suc k)
    then have w: "1 < CalcTreeWidth n k" using tree_height_props [of n 0] by simp
    have "k < 31" using w CalcTreeWidth_top [of k n] by (cases "31 \<le> k") simp_all
    then have "(2::nat) ^ k \<le> 2 ^ 30" by (intro power_increasing) simp_all
    then have "n + 2 ^ k \<le> 2 ^ 32" using assms by simp
    then have "2 ^ k < n" using width_iff [OF assms(1), of k 1] w by simp
    then show ?thesis using Suc by simp
  qed
  then show b: "n + 2 ^ ?h \<le> 2 ^ 32" using assms by simp
  have "\<not> 1 < CalcTreeWidth n ?h" using tree_height_props [of n 0] by simp
  then show "n \<le> 2 ^ ?h" using width_iff [OF assms(1) b, of 1] by simp
qed

lemma upt_min_split: "a \<le> b \<Longrightarrow> b \<le> c \<Longrightarrow> [a..<min c n] = [a..<min b n] @ [b..<min c n]"
  using upt_add_eq_append [of a b "min c n - b"] by (cases "b \<le> n") (auto simp: min_def)

lemma leaf_range_split: "leaf_range n (Suc h) pos = leaf_range n h (pos * 2) @ leaf_range n h (pos * 2 + 1)"
  using upt_min_split [of "pos * 2 * 2 ^ h" "(pos * 2 + 1) * 2 ^ h" "(pos * 2 + 2) * 2 ^ h" n]
  by (simp add: leaf_range_def algebra_simps)

lemma parent_iff: "parent_of_match n h pos vMatch \<longleftrightarrow> (\<exists>p\<in>set (leaf_range n h pos). vMatch ! p)"
  by (simp add: parent_of_match_def leaf_range_def list_ex_iff)

lemma leaf_range_nonempty: "pos * 2 ^ h < n \<Longrightarrow> 0 < length (leaf_range n h pos)"
  by (simp add: leaf_range_def)

lemma stop_reads_back:
  assumes "h = 0 \<or> \<not> parent_of_match (length vTxid) h pos vMatch" "pos * 2 ^ h < length vTxid"
  shows "reads_back D vTxid vMatch h pos [parent_of_match (length vTxid) h pos vMatch] [CalcHash D (length vTxid) h pos vTxid]"
proof (cases "parent_of_match (length vTxid) h pos vMatch")
  case True
  then have h: "h = 0" using assms by simp
  then have "leaf_range (length vTxid) h pos = [pos]" using assms by (simp add: leaf_range_def)
  then have "selected vTxid vMatch (leaf_range (length vTxid) h pos) = [vTxid ! pos]"
    using True by (simp add: parent_iff selected_def)
  then show ?thesis unfolding reads_back_def using True h
    by (subst TraverseAndExtract.simps) (simp add: nth_append Let_def)
next
  case False
  then have "selected vTxid vMatch (leaf_range (length vTxid) h pos) = []" by (simp add: parent_iff selected_def)
  then show ?thesis unfolding reads_back_def using False
    by (subst TraverseAndExtract.simps) (simp add: nth_append)
qed

lemma stop_writes:
  assumes "h = 0 \<or> \<not> parent_of_match (length vTxid) h pos vMatch" "pos * 2 ^ h < length vTxid"
  shows "writes D vTxid vMatch h pos [parent_of_match (length vTxid) h pos vMatch] [CalcHash D (length vTxid) h pos vTxid]"
proof -
  have "(1::nat) < 2 ^ Suc h" by (induction h) simp_all
  then show ?thesis
    using assms leaf_range_nonempty [OF assms(2)] by (cases h) (simp_all add: writes_def Let_def Suc_le_eq)
qed

text \<open>An inner node with both children, and one whose right child is beyond the end.\<close>

lemma node_reads_back:
  assumes p: "parent_of_match (length vTxid) (Suc h) pos vMatch" and n: "0 < length vTxid" "length vTxid + 2 ^ h \<le> 2 ^ 32"
    and l: "reads_back D vTxid vMatch h (pos * 2) B H"
    and r: "if (pos * 2 + 1) * 2 ^ h < length vTxid then reads_back D vTxid vMatch h (pos * 2 + 1) B' H' else B' = [] \<and> H' = []"
  shows "reads_back D vTxid vMatch (Suc h) pos (True # B @ B') (H @ H')"
  unfolding reads_back_def
proof (intro allI impI)
  fix t :: CPartialMerkleTree and st :: extract_state and B1 B2 H1 H2
  assume t: "nTransactions t = length vTxid" "vBits t = B1 @ (True # B @ B') @ B2" "vHash t = H1 @ (H @ H') @ H2"
    and st: "nBitsUsed st = length B1" "nHashUsed st = length H1"
  let ?n = "length vTxid" and ?S = "\<lambda>h pos. selected vTxid vMatch (leaf_range (length vTxid) h pos)"
  let ?st0 = "st\<lparr>nBitsUsed := nBitsUsed st + 1\<rparr>"
  let ?st1 = "?st0\<lparr>nBitsUsed := length ((B1 @ [True]) @ B), nHashUsed := length (H1 @ H), ex_vMatch := ex_vMatch st @ ?S h (pos * 2)\<rparr>"
  have sel: "?S (Suc h) pos = ?S h (pos * 2) @ ?S h (pos * 2 + 1)"
    by (simp add: selected_def leaf_range_split)
  have "TraverseAndExtract D t h (pos * 2) ?st0 = (CalcHash D ?n h (pos * 2) vTxid, ?st1)"
    using l [unfolded reads_back_def, rule_format, of t "B1 @ [True]" "B' @ B2" H1 "H' @ H2" ?st0] t st by simp
  then have step: "TraverseAndExtract D t (Suc h) pos st =
      (let left = CalcHash D ?n h (pos * 2) vTxid;
           (right, st2) = (if (pos * 2 + 1) * 2 ^ h < ?n then TraverseAndExtract D t h (pos * 2 + 1) ?st1 else (left, ?st1))
       in (hash_pair D left right, st2))"
    using t st width_iff [OF n, of "pos * 2 + 1"]
    by (subst TraverseAndExtract.simps) (simp add: nth_append Let_def)
  show "TraverseAndExtract D t (Suc h) pos st = (CalcHash D ?n (Suc h) pos vTxid,
          st\<lparr>nBitsUsed := length (B1 @ True # B @ B'), nHashUsed := length (H1 @ H @ H'), ex_vMatch := ex_vMatch st @ ?S (Suc h) pos\<rparr>)"
  proof (cases "(pos * 2 + 1) * 2 ^ h < ?n")
    case True
    then have rb: "reads_back D vTxid vMatch h (pos * 2 + 1) B' H'" using r by simp
    have "TraverseAndExtract D t h (pos * 2 + 1) ?st1 = (CalcHash D ?n h (pos * 2 + 1) vTxid,
        ?st1\<lparr>nBitsUsed := length ((B1 @ True # B) @ B'), nHashUsed := length ((H1 @ H) @ H'),
             ex_vMatch := ex_vMatch ?st1 @ ?S h (pos * 2 + 1)\<rparr>)"
      using rb [unfolded reads_back_def, rule_format, of t "B1 @ True # B" B2 "H1 @ H" H2 ?st1] t by simp
    then show ?thesis using step True sel width_iff [OF n, of "pos * 2 + 1"] by (simp add: Let_def)
  next
    case False
    then have "leaf_range ?n h (pos * 2 + 1) = []" by (simp add: leaf_range_def)
    then have "?S h (pos * 2 + 1) = []" by (simp add: selected_def)
    then show ?thesis using step False sel r width_iff [OF n, of "pos * 2 + 1"] by (simp add: Let_def)
  qed
qed

lemma node_writes:
  assumes p: "parent_of_match (length vTxid) (Suc h) pos vMatch" and n: "0 < length vTxid" "length vTxid + 2 ^ h \<le> 2 ^ 32"
    and l: "writes D vTxid vMatch h (pos * 2) B H"
    and r: "if (pos * 2 + 1) * 2 ^ h < length vTxid then writes D vTxid vMatch h (pos * 2 + 1) B' H' else B' = [] \<and> H' = []"
  shows "writes D vTxid vMatch (Suc h) pos (True # B @ B') (H @ H')"
  using assms width_iff [OF n, of "pos * 2 + 1"]
  by (cases "(pos * 2 + 1) * 2 ^ h < length vTxid") (auto simp: writes_def Let_def leaf_range_split)

lemma traverse_roundtrip:
  assumes "0 < length vTxid" "length vTxid + 2 ^ h \<le> 2 ^ 32" "pos * 2 ^ h < length vTxid"
  shows "\<exists>B H. writes D vTxid vMatch h pos B H \<and> reads_back D vTxid vMatch h pos B H"
  using assms(2,3)
proof (induction h arbitrary: pos)
  case 0
  then show ?case using stop_writes [of 0 vTxid pos vMatch D] stop_reads_back [of 0 vTxid pos vMatch D] by auto
next
  case (Suc h)
  show ?case
  proof (cases "parent_of_match (length vTxid) (Suc h) pos vMatch")
    case False
    then show ?thesis
      using stop_writes [of "Suc h" vTxid pos vMatch D] stop_reads_back [of "Suc h" vTxid pos vMatch D] Suc.prems by blast
  next
    case True
    have n: "length vTxid + 2 ^ h \<le> 2 ^ 32" using Suc.prems by simp
    have "pos * 2 * 2 ^ h < length vTxid" using Suc.prems by (simp add: mult.assoc)
    from Suc.IH [OF n this] obtain B H where l: "writes D vTxid vMatch h (pos * 2) B H" "reads_back D vTxid vMatch h (pos * 2) B H"
      by (elim exE conjE) (rule that)
    show ?thesis
    proof (cases "(pos * 2 + 1) * 2 ^ h < length vTxid")
      case right: True
      from Suc.IH [OF n right] obtain B' H' where
        "writes D vTxid vMatch h (pos * 2 + 1) B' H'" "reads_back D vTxid vMatch h (pos * 2 + 1) B' H'"
        by (elim exE conjE) (rule that)
      then show ?thesis
        using node_writes [OF True assms(1) n l(1), of B' H'] node_reads_back [OF True assms(1) n l(2), of B' H'] right by auto
    next
      case False
      then show ?thesis
        using node_writes [OF True assms(1) n l(1), of "[]" "[]"] node_reads_back [OF True assms(1) n l(2), of "[]" "[]"] by auto
    qed
  qed
qed

lemma half_width: "((n + m - 1) div m + 1) div 2 = (n + 2 * m - 1) div (2 * m)" if "0 < m" "0 < (n::nat)"
proof -
  have "(n + m - 1) div m + 1 = (n + 2 * m - 1) div m" using that by (subst div_add_self2 [symmetric]) (simp_all add: mult_2 add.assoc)
  then show ?thesis by (simp add: div_mult2_eq mult.commute)
qed

lemma length_rows:
  assumes "0 < length xs" "length xs + 2 ^ h \<le> 2 ^ 32"
  shows "length ((pair_up D ^^ h) xs) = CalcTreeWidth (length xs) h"
  using assms(2)
proof (induction h)
  case 0
  then show ?case using assms by (simp add: CalcTreeWidth_exact)
next
  case (Suc h)
  then show ?case
    using assms half_width [of "2 ^ h" "length xs"] by (simp add: CalcTreeWidth_exact)
qed

lemma CalcHash_row:
  assumes "0 < length xs" "length xs + 2 ^ h \<le> 2 ^ 32" "pos < CalcTreeWidth (length xs) h"
  shows "CalcHash D (length xs) h pos xs = (pair_up D ^^ h) xs ! pos"
  using assms(2,3)
proof (induction h arbitrary: pos)
  case (Suc h)
  let ?n = "length xs" and ?row = "(pair_up D ^^ h) xs"
  have n: "?n + 2 ^ h \<le> 2 ^ 32" using Suc.prems by simp
  have len: "length ?row = CalcTreeWidth ?n h" by (rule length_rows [OF assms(1) n])
  have pos: "pos * 2 * 2 ^ h < ?n" using Suc.prems width_iff [OF assms(1), of "Suc h" pos] by (simp add: mult.assoc)
  then have l: "pos * 2 < length ?row" using width_iff [OF assms(1) n] by (simp add: len)
  then have "pos < (length ?row + 1) div 2" by simp
  from pair_up_nth [OF this, of D]
  have "(pair_up D ^^ Suc h) xs ! pos = hash_pair D (?row ! (2 * pos)) (?row ! min (2 * pos + 1) (length ?row - 1))" by simp
  moreover have "?row ! min (2 * pos + 1) (length ?row - 1) = ?row ! (2 * pos)" if "\<not> pos * 2 + 1 < length ?row"
    using that l by (auto intro!: arg_cong [where f = "nth ?row"])
  ultimately show ?case
    using Suc.IH [OF n] l by (simp add: Let_def len [symmetric] mult.commute)
qed simp

lemma merkle_root_rows:
  "(\<forall>k<h. 1 < length ((pair_up D ^^ k) xs)) \<Longrightarrow> length ((pair_up D ^^ h) xs) = 1 \<Longrightarrow> merkle_root D xs = (pair_up D ^^ h) xs ! 0"
proof (induction h arbitrary: xs)
  case 0
  then show ?case by (cases xs) simp_all
next
  case (Suc h)
  have "1 < length xs" using Suc.prems(1) [rule_format, of 0] by simp
  moreover have "merkle_root D (pair_up D xs) = (pair_up D ^^ h) (pair_up D xs) ! 0"
    using Suc.prems by (intro Suc.IH) (simp_all only: funpow_swap1 [symmetric] funpow.simps comp_apply Suc_less_eq, metis Suc_less_eq funpow.simps(2) comp_apply)
  ultimately show ?case using merkle_root_pair_up [of xs D] by (simp add: funpow_swap1)
qed

lemma bit_test: "p < 8 \<Longrightarrow> (w AND push_bit p 1 \<noteq> (0::byte)) = bit w p"
  by (metis and_exp_eq_0_iff_not_bit push_bit_of_1)

lemma unpack_pack: "\<exists>pad. unpack_bits (pack_bits bits) = bits @ pad \<and> length pad < 8 \<and> (length bits + length pad) mod 8 = 0"
proof -
  let ?n = "length bits"
  define m where "m = (?n + 7) div 8 * 8"
  have m: "?n \<le> m" "m < ?n + 8" "m mod 8 = 0" by (auto simp: m_def)
  have at: "pack_bits bits ! (p div 8) AND push_bit (p mod 8) 1 \<noteq> 0 \<longleftrightarrow> p < ?n \<and> bits ! p" if "p < m" for p
  proof -
    have "p div 8 < (?n + 7) div 8" using that by (auto simp: m_def less_mult_imp_div_less)
    moreover have "p div 8 * 8 + p mod 8 = p" by simp
    ultimately show ?thesis
      by (subst bit_test) (simp_all add: pack_bits_def pack_byte_def bit_or_fold)
  qed
  have "unpack_bits (pack_bits bits) = map (\<lambda>p. p < ?n \<and> bits ! p) [0..<m]"
    using at by (auto simp: unpack_bits_def m_def pack_bits_def)
  moreover have "[0..<m] = [0..<?n] @ [?n..<m]" using m upt_add_eq_append [of 0 ?n "m - ?n"] by simp
  moreover have "map (\<lambda>p. p < ?n \<and> bits ! p) [0..<?n] = bits" by (rule nth_equalityI) simp_all
  ultimately show ?thesis using m by (intro exI [of _ "map (\<lambda>p. p < ?n \<and> bits ! p) [?n..<m]"]) simp
qed

interpretation u256: codec "\<lambda>h. write_le 32 (unat (h :: uint256))" read_uint256 "\<lambda>_. True"
  by unfold_locales (simp add: read_uint256_def unat_bounds del: power_numeral)

interpretation u256s: codec "Serialize_vector (\<lambda>h. write_le 32 (unat (h :: uint256)))" "Unserialize_vector read_uint256"
    "\<lambda>xs. length xs \<le> MAX_SIZE \<and> (\<forall>x\<in>set xs. True)"
  by (rule u256.vector_codec) (rule csize.unser_ser)

lemma pmt_roundtrip:
  assumes "nTransactions t < 2 ^ 32" "length (vHash t) \<le> MAX_SIZE" "length (vBits t) \<le> MAX_SIZE" "\<not> fBad t"
  shows "\<exists>pad. length pad < 8 \<and> (length (vBits t) + length pad) mod 8 = 0 \<and> unser_pmt (ser_pmt t @ rest) = Inr (t\<lparr>vBits := vBits t @ pad\<rparr>, rest)"
proof -
  obtain pad where pad: "unpack_bits (pack_bits (vBits t)) = vBits t @ pad" "length pad < 8" "(length (vBits t) + length pad) mod 8 = 0"
    using unpack_pack [of "vBits t"] by (elim exE conjE) (rule that)
  have "length (pack_bits (vBits t)) \<le> MAX_SIZE" using assms(3) by (simp add: pack_bits_def)
  then have "unser_pmt (ser_pmt t @ rest) = Inr (t\<lparr>vBits := vBits t @ pad\<rparr>, rest)"
    using assms by (simp add: unser_pmt_def ser_pmt_def u256s.unser_ser bytes.unser_ser pad)
  with pad(2,3) show ?thesis by (intro exI [of _ pad] conjI)
qed

lemma tree_root:
  assumes "0 < length xs" "length xs \<le> 2 ^ 30"
  shows "CalcHash D (length xs) (tree_height (length xs) 0) 0 xs = merkle_root D xs"
proof -
  let ?h = "tree_height (length xs) 0"
  note b = tree_height_bound [OF assms] and p = tree_height_props [of "length xs" 0]
  have len: "length ((pair_up D ^^ k) xs) = CalcTreeWidth (length xs) k" if "k \<le> ?h" for k
  proof (rule length_rows [OF assms(1)])
    have "(2::nat) ^ k \<le> 2 ^ ?h" using that by (intro power_increasing) simp_all
    then show "length xs + 2 ^ k \<le> 2 ^ 32" using b(1) by linarith
  qed
  have w: "0 < CalcTreeWidth (length xs) ?h" using width_iff [OF assms(1) b(1), of 0] assms(1) by simp
  then have "length ((pair_up D ^^ ?h) xs) = 1" using len [of ?h] p by simp
  then have "merkle_root D xs = (pair_up D ^^ ?h) xs ! 0" using p len by (intro merkle_root_rows) auto
  then show ?thesis using CalcHash_row [OF assms(1) b(1) w] by simp
qed

lemma selected_all:
  assumes "length vMatch = length vTxid"
  shows "selected vTxid vMatch [0..<length vTxid] = map fst (filter snd (zip vTxid vMatch))"
proof -
  have "zip vTxid vMatch = map (\<lambda>p. (vTxid ! p, vMatch ! p)) [0..<length vTxid]"
    using assms by (intro nth_equalityI) simp_all
  then show ?thesis by (simp add: selected_def filter_map comp_def)
qed

lemma pad_blocks: "p < 8 \<Longrightarrow> (x + p) mod 8 = 0 \<Longrightarrow> (x + 7) div 8 = (x + p + 7) div (8::nat)"
proof -
  assume p: "p < 8" "(x + p) mod 8 = 0"
  then obtain k where k: "x + p = 8 * k" by auto
  have "(x + 7) div 8 = k" using p(1) k by (intro div_nat_eqI) auto
  moreover have "(x + p + 7) div 8 = k" unfolding k by simp
  ultimately show ?thesis by simp
qed

lemma extract_built:
  assumes n: "0 < length vTxid" "length vTxid \<le> MAX_BLOCK_SIZE div 60" "length vMatch = length vTxid"
  shows "\<exists>B H. CPartialMerkleTree_of D vTxid vMatch = \<lparr>nTransactions = length vTxid, vBits = B, vHash = H, fBad = False\<rparr> \<and>
    length B \<le> MAX_SIZE \<and> length H \<le> MAX_SIZE \<and>
    (\<forall>pad. length pad < 8 \<longrightarrow> (length B + length pad) mod 8 = 0 \<longrightarrow>
      ExtractMatches D \<lparr>nTransactions = length vTxid, vBits = B @ pad, vHash = H, fBad = False\<rparr> =
        (merkle_root D vTxid, map fst (filter snd (zip vTxid vMatch))))"
proof -
  let ?n = "length vTxid" and ?h = "tree_height (length vTxid) 0"
  have n30: "?n \<le> 2 ^ 30" "?n \<le> 16666" using n(2) by (simp_all add: MAX_BLOCK_SIZE_def)
  note b = tree_height_bound [OF n(1) n30(1)]
  obtain B H where w: "writes D vTxid vMatch ?h 0 B H" and r: "reads_back D vTxid vMatch ?h 0 B H"
    using traverse_roundtrip [OF n(1) b(1), of 0 D vMatch] n(1) by (simp, elim exE conjE) (rule that)
  have range: "leaf_range ?n ?h 0 = [0..<?n]" using b(2) by (simp add: leaf_range_def min_def)
  have built: "CPartialMerkleTree_of D vTxid vMatch = \<lparr>nTransactions = ?n, vBits = B, vHash = H, fBad = False\<rparr>"
    using w n30 by (simp add: CPartialMerkleTree_of_def writes_def Let_def)
  have sizes: "length H \<le> length B" "length B < 2 ^ Suc ?h" "length H \<le> ?n"
    using w by (simp_all add: writes_def range)
  have "length B \<le> MAX_SIZE"
    using sizes(2) b(3) n30(2) by (simp add: MAX_SIZE_def)
  moreover have "ExtractMatches D \<lparr>nTransactions = ?n, vBits = B @ pad, vHash = H, fBad = False\<rparr> =
      (merkle_root D vTxid, map fst (filter snd (zip vTxid vMatch)))"
    if pad: "length pad < 8" "(length B + length pad) mod 8 = 0" for pad
  proof -
    let ?t = "\<lparr>nTransactions = ?n, vBits = B @ pad, vHash = H, fBad = False\<rparr>"
    have "(length B + 7) div 8 = (length B + length pad + 7) div 8" by (rule pad_blocks [OF pad])
    moreover have "TraverseAndExtract D ?t ?h 0 \<lparr>ex_fBad = False, nBitsUsed = 0, nHashUsed = 0, ex_vMatch = []\<rparr> =
        (merkle_root D vTxid, \<lparr>ex_fBad = False, nBitsUsed = length B, nHashUsed = length H,
           ex_vMatch = map fst (filter snd (zip vTxid vMatch))\<rparr>)"
      using r [unfolded reads_back_def, rule_format, of ?t "[]" pad "[]" "[]"] range selected_all [OF n(3)] tree_root [OF n(1) n30(1)]
      by simp
    ultimately show ?thesis using n sizes by (simp add: ExtractMatches_def)
  qed
  ultimately show ?thesis using built sizes(3) n30(2) by (auto simp: MAX_SIZE_def)
qed

lemma demo_block_facts: "length (vtx demo_block) = 3" "vMerkleTree demo_block = []"
  by (simp_all add: demo_block_def CBlock_null_def CBlock_of_def CBlockHeader_null_def CBlockHeader.defs CBlock.defs)

section \<open>Headers\<close>

lemma header_roundtrip:
  fixes h :: CBlockHeader
  assumes "mpi_laws M" "- (2 ^ 31) \<le> blk_nVersion h" "blk_nVersion h < 2 ^ 31" "length (mpi_encode (bnPrimeChainMultiplier h)) \<le> MAX_SIZE"
  shows "unser_header M (ser_header M h @ rest) = Inr (h, rest)"
proof -
  have "length (mpi_encode (bnPrimeChainMultiplier h)) < 2 ^ 31" using assms(4) by (simp add: MAX_SIZE_def)
  then have v: "getvch M (bnPrimeChainMultiplier h) = bn_getvch (bnPrimeChainMultiplier h)"
    "setvch M (bn_getvch (bnPrimeChainMultiplier h)) = bnPrimeChainMultiplier h"
    using assms(1) by (simp_all add: getvch_eq setvch_eq length_bn_getvch)
  show ?thesis
    using assms(2-4) by (simp add: ser_header_def unser_header_def header_image_def bytes.unser_ser length_bn_getvch v
        signed_words unat_bounds del: power_numeral)
qed

lemma mpi_encode_0: "mpi_encode 0 = []"
  by (simp add: mpi_encode_def mag_bytes.simps)

text \<open>The header that \<^verbatim>\<open>GetBlockHeader\<close> returns does not serialize as the header of a block that has a certificate.\<close>

lemma GetBlockHeader_certificate:
  assumes "mpi_laws M" "length (mpi_encode (bnPrimeChainMultiplier b)) \<le> MAX_SIZE" "bnPrimeChainMultiplier b \<noteq> 0"
  shows "header_image (GetBlockHeader b) = header_image b" "ser_header M (GetBlockHeader b) \<noteq> ser_header M b"
proof -
  show same: "header_image (GetBlockHeader b) = header_image b" by (simp add: header_image_def GetBlockHeader_def)
  have l: "length (mpi_encode (bnPrimeChainMultiplier b)) < 2 ^ 31" using assms(2) by (simp add: MAX_SIZE_def)
  have g: "getvch M (bnPrimeChainMultiplier b) = bn_getvch (bnPrimeChainMultiplier b)" "getvch M 0 = bn_getvch 0"
    using assms(1) l by (simp_all add: getvch_eq mpi_encode_0)
  have "bn_getvch 0 \<noteq> bn_getvch (bnPrimeChainMultiplier b)" using assms(3) by (metis bn_setvch_getvch)
  moreover have "length (bn_getvch 0) \<le> MAX_SIZE" "length (bn_getvch (bnPrimeChainMultiplier b)) \<le> MAX_SIZE"
    using assms(2) by (simp_all add: length_bn_getvch mpi_encode_0)
  ultimately have "Serialize_bytes (bn_getvch 0) \<noteq> Serialize_bytes (bn_getvch (bnPrimeChainMultiplier b))"
    using bytes.ser_inj by blast
  moreover have "bnPrimeChainMultiplier (GetBlockHeader b) = 0" by (simp add: GetBlockHeader_def CBlockHeader_null_def)
  ultimately show "ser_header M (GetBlockHeader b) \<noteq> ser_header M b" using same g by (simp add: ser_header_def)
qed

section \<open>Properties\<close>



text \<open>
  C37. A partial merkle tree shows what it was built from.  A tree built from the hashes of the transactions of a block and a
  selection of them, serialized and read back, makes \<^verbatim>\<open>ExtractMatches\<close> return the merkle root of the
  block and exactly the selected hashes, in order.
\<close>

theorem partial_tree_roundtrip:
  assumes "0 < length vTxid" "length vTxid \<le> MAX_BLOCK_SIZE div 60" "length vMatch = length vTxid"
  shows "\<exists>t. unser_pmt (ser_pmt (CPartialMerkleTree_of D vTxid vMatch) @ rest) = Inr (t, rest) \<and>
    ExtractMatches D t = (merkle_root D vTxid, map fst (filter snd (zip vTxid vMatch)))"
proof -
  let ?t = "\<lambda>B H. \<lparr>nTransactions = length vTxid, vBits = B, vHash = H, fBad = False\<rparr>"
  from extract_built [OF assms, of D] obtain B H where t: "CPartialMerkleTree_of D vTxid vMatch = ?t B H"
    "length B \<le> MAX_SIZE" "length H \<le> MAX_SIZE"
    "\<And>pad. length pad < 8 \<Longrightarrow> (length B + length pad) mod 8 = 0 \<Longrightarrow>
      ExtractMatches D (?t (B @ pad) H) = (merkle_root D vTxid, map fst (filter snd (zip vTxid vMatch)))"
    by auto
  have "nTransactions (?t B H) < 2 ^ 32" using assms(2) by (simp add: MAX_BLOCK_SIZE_def)
  then obtain pad where pad: "length pad < 8" "(length B + length pad) mod 8 = 0"
    "unser_pmt (ser_pmt (?t B H) @ rest) = Inr (?t (B @ pad) H, rest)"
    using pmt_roundtrip [of "?t B H" rest] t(2,3) by auto
  then show ?thesis using t(1) t(4) [OF pad(1,2)] by simp
qed

theorem partial_tree_roundtrip_witness:
  "\<exists>t. unser_pmt (ser_pmt (CPartialMerkleTree_of toy_digests [4, 5, 6] [False, True, True]) @ [9]) = Inr (t, [9]) \<and>
    ExtractMatches toy_digests t = (merkle_root toy_digests [4, 5, 6], [5, 6])"
  using partial_tree_roundtrip [of "[4, 5, 6]" "[False, True, True]" toy_digests "[9]"]
  by (simp add: MAX_BLOCK_SIZE_def del: merkle_root.simps)

end
