(* ===== verification/Util.thy ===== *)
theory Util
  imports BigNum
begin

text \<open>
  The string helpers of \<^verbatim>\<open>src/src/util.h\<close> and \<^verbatim>\<open>src/src/util.cpp\<close>.
\<close>

definition hexmap :: "nat \<Rightarrow> char" where
  "hexmap d = ''0123456789abcdef'' ! d"

fun HexStr :: "bool \<Rightarrow> byte list \<Rightarrow> string" where
  "HexStr fSpaces [] = ''''"
| "HexStr fSpaces (val # vch) =
     hexmap (unat val div 16) # hexmap (unat val mod 16) #
     (if fSpaces \<and> vch \<noteq> [] then CHR '' '' # HexStr fSpaces vch else HexStr fSpaces vch)"

end
