(* ===== verification/ScriptCore.thy ===== *)
theory ScriptCore
  imports Key Util
begin

text \<open>
  The script language as data (\<^verbatim>\<open>src/src/script.h\<close> lines 67 to 590, and of \<^verbatim>\<open>src/src/script.cpp\<close> the
  helpers that read scripts without running them): opcodes and their names, pushing values,
  reading instructions, searching, deleting and counting, and the canonical forms of keys and
  signatures.  A \<^verbatim>\<open>CScript\<close> is its byte list, an iterator into it the list of the bytes from
  there to the end, and an opcode its number.
\<close>

named_theorems opcodes \<open>the numbers of the opcodes\<close>

section \<open>Opcodes\<close>

type_synonym opcodetype = nat
type_synonym CScript = "byte list"

definition OP_0 :: opcodetype where [opcodes]: "OP_0 = 0x00"
definition OP_FALSE :: opcodetype where [opcodes]: "OP_FALSE = OP_0"
definition OP_PUSHDATA1 :: opcodetype where [opcodes]: "OP_PUSHDATA1 = 0x4C"
definition OP_PUSHDATA2 :: opcodetype where [opcodes]: "OP_PUSHDATA2 = 0x4D"
definition OP_PUSHDATA4 :: opcodetype where [opcodes]: "OP_PUSHDATA4 = 0x4E"
definition OP_1NEGATE :: opcodetype where [opcodes]: "OP_1NEGATE = 0x4F"
definition OP_RESERVED :: opcodetype where [opcodes]: "OP_RESERVED = 0x50"
definition OP_1 :: opcodetype where [opcodes]: "OP_1 = 0x51"
definition OP_TRUE :: opcodetype where [opcodes]: "OP_TRUE = OP_1"
definition OP_2 :: opcodetype where [opcodes]: "OP_2 = 0x52"
definition OP_3 :: opcodetype where [opcodes]: "OP_3 = 0x53"
definition OP_4 :: opcodetype where [opcodes]: "OP_4 = 0x54"
definition OP_5 :: opcodetype where [opcodes]: "OP_5 = 0x55"
definition OP_6 :: opcodetype where [opcodes]: "OP_6 = 0x56"
definition OP_7 :: opcodetype where [opcodes]: "OP_7 = 0x57"
definition OP_8 :: opcodetype where [opcodes]: "OP_8 = 0x58"
definition OP_9 :: opcodetype where [opcodes]: "OP_9 = 0x59"
definition OP_10 :: opcodetype where [opcodes]: "OP_10 = 0x5A"
definition OP_11 :: opcodetype where [opcodes]: "OP_11 = 0x5B"
definition OP_12 :: opcodetype where [opcodes]: "OP_12 = 0x5C"
definition OP_13 :: opcodetype where [opcodes]: "OP_13 = 0x5D"
definition OP_14 :: opcodetype where [opcodes]: "OP_14 = 0x5E"
definition OP_15 :: opcodetype where [opcodes]: "OP_15 = 0x5F"
definition OP_16 :: opcodetype where [opcodes]: "OP_16 = 0x60"
definition OP_NOP :: opcodetype where [opcodes]: "OP_NOP = 0x61"
definition OP_VER :: opcodetype where [opcodes]: "OP_VER = 0x62"
definition OP_IF :: opcodetype where [opcodes]: "OP_IF = 0x63"
definition OP_NOTIF :: opcodetype where [opcodes]: "OP_NOTIF = 0x64"
definition OP_VERIF :: opcodetype where [opcodes]: "OP_VERIF = 0x65"
definition OP_VERNOTIF :: opcodetype where [opcodes]: "OP_VERNOTIF = 0x66"
definition OP_ELSE :: opcodetype where [opcodes]: "OP_ELSE = 0x67"
definition OP_ENDIF :: opcodetype where [opcodes]: "OP_ENDIF = 0x68"
definition OP_VERIFY :: opcodetype where [opcodes]: "OP_VERIFY = 0x69"
definition OP_RETURN :: opcodetype where [opcodes]: "OP_RETURN = 0x6A"
definition OP_TOALTSTACK :: opcodetype where [opcodes]: "OP_TOALTSTACK = 0x6B"
definition OP_FROMALTSTACK :: opcodetype where [opcodes]: "OP_FROMALTSTACK = 0x6C"
definition OP_2DROP :: opcodetype where [opcodes]: "OP_2DROP = 0x6D"
definition OP_2DUP :: opcodetype where [opcodes]: "OP_2DUP = 0x6E"
definition OP_3DUP :: opcodetype where [opcodes]: "OP_3DUP = 0x6F"
definition OP_2OVER :: opcodetype where [opcodes]: "OP_2OVER = 0x70"
definition OP_2ROT :: opcodetype where [opcodes]: "OP_2ROT = 0x71"
definition OP_2SWAP :: opcodetype where [opcodes]: "OP_2SWAP = 0x72"
definition OP_IFDUP :: opcodetype where [opcodes]: "OP_IFDUP = 0x73"
definition OP_DEPTH :: opcodetype where [opcodes]: "OP_DEPTH = 0x74"
definition OP_DROP :: opcodetype where [opcodes]: "OP_DROP = 0x75"
definition OP_DUP :: opcodetype where [opcodes]: "OP_DUP = 0x76"
definition OP_NIP :: opcodetype where [opcodes]: "OP_NIP = 0x77"
definition OP_OVER :: opcodetype where [opcodes]: "OP_OVER = 0x78"
definition OP_PICK :: opcodetype where [opcodes]: "OP_PICK = 0x79"
definition OP_ROLL :: opcodetype where [opcodes]: "OP_ROLL = 0x7A"
definition OP_ROT :: opcodetype where [opcodes]: "OP_ROT = 0x7B"
definition OP_SWAP :: opcodetype where [opcodes]: "OP_SWAP = 0x7C"
definition OP_TUCK :: opcodetype where [opcodes]: "OP_TUCK = 0x7D"
definition OP_CAT :: opcodetype where [opcodes]: "OP_CAT = 0x7E"
definition OP_SUBSTR :: opcodetype where [opcodes]: "OP_SUBSTR = 0x7F"
definition OP_LEFT :: opcodetype where [opcodes]: "OP_LEFT = 0x80"
definition OP_RIGHT :: opcodetype where [opcodes]: "OP_RIGHT = 0x81"
definition OP_SIZE :: opcodetype where [opcodes]: "OP_SIZE = 0x82"
definition OP_INVERT :: opcodetype where [opcodes]: "OP_INVERT = 0x83"
definition OP_AND :: opcodetype where [opcodes]: "OP_AND = 0x84"
definition OP_OR :: opcodetype where [opcodes]: "OP_OR = 0x85"
definition OP_XOR :: opcodetype where [opcodes]: "OP_XOR = 0x86"
definition OP_EQUAL :: opcodetype where [opcodes]: "OP_EQUAL = 0x87"
definition OP_EQUALVERIFY :: opcodetype where [opcodes]: "OP_EQUALVERIFY = 0x88"
definition OP_RESERVED1 :: opcodetype where [opcodes]: "OP_RESERVED1 = 0x89"
definition OP_RESERVED2 :: opcodetype where [opcodes]: "OP_RESERVED2 = 0x8A"
definition OP_1ADD :: opcodetype where [opcodes]: "OP_1ADD = 0x8B"
definition OP_1SUB :: opcodetype where [opcodes]: "OP_1SUB = 0x8C"
definition OP_2MUL :: opcodetype where [opcodes]: "OP_2MUL = 0x8D"
definition OP_2DIV :: opcodetype where [opcodes]: "OP_2DIV = 0x8E"
definition OP_NEGATE :: opcodetype where [opcodes]: "OP_NEGATE = 0x8F"
definition OP_ABS :: opcodetype where [opcodes]: "OP_ABS = 0x90"
definition OP_NOT :: opcodetype where [opcodes]: "OP_NOT = 0x91"
definition OP_0NOTEQUAL :: opcodetype where [opcodes]: "OP_0NOTEQUAL = 0x92"
definition OP_ADD :: opcodetype where [opcodes]: "OP_ADD = 0x93"
definition OP_SUB :: opcodetype where [opcodes]: "OP_SUB = 0x94"
definition OP_MUL :: opcodetype where [opcodes]: "OP_MUL = 0x95"
definition OP_DIV :: opcodetype where [opcodes]: "OP_DIV = 0x96"
definition OP_MOD :: opcodetype where [opcodes]: "OP_MOD = 0x97"
definition OP_LSHIFT :: opcodetype where [opcodes]: "OP_LSHIFT = 0x98"
definition OP_RSHIFT :: opcodetype where [opcodes]: "OP_RSHIFT = 0x99"
definition OP_BOOLAND :: opcodetype where [opcodes]: "OP_BOOLAND = 0x9A"
definition OP_BOOLOR :: opcodetype where [opcodes]: "OP_BOOLOR = 0x9B"
definition OP_NUMEQUAL :: opcodetype where [opcodes]: "OP_NUMEQUAL = 0x9C"
definition OP_NUMEQUALVERIFY :: opcodetype where [opcodes]: "OP_NUMEQUALVERIFY = 0x9D"
definition OP_NUMNOTEQUAL :: opcodetype where [opcodes]: "OP_NUMNOTEQUAL = 0x9E"
definition OP_LESSTHAN :: opcodetype where [opcodes]: "OP_LESSTHAN = 0x9F"
definition OP_GREATERTHAN :: opcodetype where [opcodes]: "OP_GREATERTHAN = 0xA0"
definition OP_LESSTHANOREQUAL :: opcodetype where [opcodes]: "OP_LESSTHANOREQUAL = 0xA1"
definition OP_GREATERTHANOREQUAL :: opcodetype where [opcodes]: "OP_GREATERTHANOREQUAL = 0xA2"
definition OP_MIN :: opcodetype where [opcodes]: "OP_MIN = 0xA3"
definition OP_MAX :: opcodetype where [opcodes]: "OP_MAX = 0xA4"
definition OP_WITHIN :: opcodetype where [opcodes]: "OP_WITHIN = 0xA5"
definition OP_RIPEMD160 :: opcodetype where [opcodes]: "OP_RIPEMD160 = 0xA6"
definition OP_SHA1 :: opcodetype where [opcodes]: "OP_SHA1 = 0xA7"
definition OP_SHA256 :: opcodetype where [opcodes]: "OP_SHA256 = 0xA8"
definition OP_HASH160 :: opcodetype where [opcodes]: "OP_HASH160 = 0xA9"
definition OP_HASH256 :: opcodetype where [opcodes]: "OP_HASH256 = 0xAA"
definition OP_CODESEPARATOR :: opcodetype where [opcodes]: "OP_CODESEPARATOR = 0xAB"
definition OP_CHECKSIG :: opcodetype where [opcodes]: "OP_CHECKSIG = 0xAC"
definition OP_CHECKSIGVERIFY :: opcodetype where [opcodes]: "OP_CHECKSIGVERIFY = 0xAD"
definition OP_CHECKMULTISIG :: opcodetype where [opcodes]: "OP_CHECKMULTISIG = 0xAE"
definition OP_CHECKMULTISIGVERIFY :: opcodetype where [opcodes]: "OP_CHECKMULTISIGVERIFY = 0xAF"
definition OP_NOP1 :: opcodetype where [opcodes]: "OP_NOP1 = 0xB0"
definition OP_NOP2 :: opcodetype where [opcodes]: "OP_NOP2 = 0xB1"
definition OP_NOP3 :: opcodetype where [opcodes]: "OP_NOP3 = 0xB2"
definition OP_NOP4 :: opcodetype where [opcodes]: "OP_NOP4 = 0xB3"
definition OP_NOP5 :: opcodetype where [opcodes]: "OP_NOP5 = 0xB4"
definition OP_NOP6 :: opcodetype where [opcodes]: "OP_NOP6 = 0xB5"
definition OP_NOP7 :: opcodetype where [opcodes]: "OP_NOP7 = 0xB6"
definition OP_NOP8 :: opcodetype where [opcodes]: "OP_NOP8 = 0xB7"
definition OP_NOP9 :: opcodetype where [opcodes]: "OP_NOP9 = 0xB8"
definition OP_NOP10 :: opcodetype where [opcodes]: "OP_NOP10 = 0xB9"
definition OP_SMALLINTEGER :: opcodetype where [opcodes]: "OP_SMALLINTEGER = 0xFA"
definition OP_PUBKEYS :: opcodetype where [opcodes]: "OP_PUBKEYS = 0xFB"
definition OP_PUBKEYHASH :: opcodetype where [opcodes]: "OP_PUBKEYHASH = 0xFD"
definition OP_PUBKEY :: opcodetype where [opcodes]: "OP_PUBKEY = 0xFE"
definition OP_INVALIDOPCODE :: opcodetype where [opcodes]: "OP_INVALIDOPCODE = 0xFF"

text \<open>The table of the switch in \<^verbatim>\<open>GetOpName\<close>.\<close>

definition op_names :: "(opcodetype \<times> string) list" where
  "op_names = [
     (OP_0, ''0''), (OP_PUSHDATA1, ''OP_PUSHDATA1''), (OP_PUSHDATA2, ''OP_PUSHDATA2''),
     (OP_PUSHDATA4, ''OP_PUSHDATA4''), (OP_1NEGATE, ''-1''), (OP_RESERVED, ''OP_RESERVED''),
     (OP_1, ''1''), (OP_2, ''2''), (OP_3, ''3''), (OP_4, ''4''), (OP_5, ''5''), (OP_6, ''6''),
     (OP_7, ''7''), (OP_8, ''8''), (OP_9, ''9''), (OP_10, ''10''), (OP_11, ''11''), (OP_12, ''12''),
     (OP_13, ''13''), (OP_14, ''14''), (OP_15, ''15''), (OP_16, ''16''), (OP_NOP, ''OP_NOP''),
     (OP_VER, ''OP_VER''), (OP_IF, ''OP_IF''), (OP_NOTIF, ''OP_NOTIF''), (OP_VERIF, ''OP_VERIF''),
     (OP_VERNOTIF, ''OP_VERNOTIF''), (OP_ELSE, ''OP_ELSE''), (OP_ENDIF, ''OP_ENDIF''),
     (OP_VERIFY, ''OP_VERIFY''), (OP_RETURN, ''OP_RETURN''), (OP_TOALTSTACK, ''OP_TOALTSTACK''),
     (OP_FROMALTSTACK, ''OP_FROMALTSTACK''), (OP_2DROP, ''OP_2DROP''), (OP_2DUP, ''OP_2DUP''),
     (OP_3DUP, ''OP_3DUP''), (OP_2OVER, ''OP_2OVER''), (OP_2ROT, ''OP_2ROT''), (OP_2SWAP, ''OP_2SWAP''),
     (OP_IFDUP, ''OP_IFDUP''), (OP_DEPTH, ''OP_DEPTH''), (OP_DROP, ''OP_DROP''), (OP_DUP, ''OP_DUP''),
     (OP_NIP, ''OP_NIP''), (OP_OVER, ''OP_OVER''), (OP_PICK, ''OP_PICK''), (OP_ROLL, ''OP_ROLL''),
     (OP_ROT, ''OP_ROT''), (OP_SWAP, ''OP_SWAP''), (OP_TUCK, ''OP_TUCK''), (OP_CAT, ''OP_CAT''),
     (OP_SUBSTR, ''OP_SUBSTR''), (OP_LEFT, ''OP_LEFT''), (OP_RIGHT, ''OP_RIGHT''), (OP_SIZE, ''OP_SIZE''),
     (OP_INVERT, ''OP_INVERT''), (OP_AND, ''OP_AND''), (OP_OR, ''OP_OR''), (OP_XOR, ''OP_XOR''),
     (OP_EQUAL, ''OP_EQUAL''), (OP_EQUALVERIFY, ''OP_EQUALVERIFY''), (OP_RESERVED1, ''OP_RESERVED1''),
     (OP_RESERVED2, ''OP_RESERVED2''), (OP_1ADD, ''OP_1ADD''), (OP_1SUB, ''OP_1SUB''),
     (OP_2MUL, ''OP_2MUL''), (OP_2DIV, ''OP_2DIV''), (OP_NEGATE, ''OP_NEGATE''), (OP_ABS, ''OP_ABS''),
     (OP_NOT, ''OP_NOT''), (OP_0NOTEQUAL, ''OP_0NOTEQUAL''), (OP_ADD, ''OP_ADD''), (OP_SUB, ''OP_SUB''),
     (OP_MUL, ''OP_MUL''), (OP_DIV, ''OP_DIV''), (OP_MOD, ''OP_MOD''), (OP_LSHIFT, ''OP_LSHIFT''),
     (OP_RSHIFT, ''OP_RSHIFT''), (OP_BOOLAND, ''OP_BOOLAND''), (OP_BOOLOR, ''OP_BOOLOR''),
     (OP_NUMEQUAL, ''OP_NUMEQUAL''), (OP_NUMEQUALVERIFY, ''OP_NUMEQUALVERIFY''),
     (OP_NUMNOTEQUAL, ''OP_NUMNOTEQUAL''), (OP_LESSTHAN, ''OP_LESSTHAN''),
     (OP_GREATERTHAN, ''OP_GREATERTHAN''), (OP_LESSTHANOREQUAL, ''OP_LESSTHANOREQUAL''),
     (OP_GREATERTHANOREQUAL, ''OP_GREATERTHANOREQUAL''), (OP_MIN, ''OP_MIN''), (OP_MAX, ''OP_MAX''),
     (OP_WITHIN, ''OP_WITHIN''), (OP_RIPEMD160, ''OP_RIPEMD160''), (OP_SHA1, ''OP_SHA1''),
     (OP_SHA256, ''OP_SHA256''), (OP_HASH160, ''OP_HASH160''), (OP_HASH256, ''OP_HASH256''),
     (OP_CODESEPARATOR, ''OP_CODESEPARATOR''), (OP_CHECKSIG, ''OP_CHECKSIG''),
     (OP_CHECKSIGVERIFY, ''OP_CHECKSIGVERIFY''), (OP_CHECKMULTISIG, ''OP_CHECKMULTISIG''),
     (OP_CHECKMULTISIGVERIFY, ''OP_CHECKMULTISIGVERIFY''), (OP_NOP1, ''OP_NOP1''), (OP_NOP2, ''OP_NOP2''),
     (OP_NOP3, ''OP_NOP3''), (OP_NOP4, ''OP_NOP4''), (OP_NOP5, ''OP_NOP5''), (OP_NOP6, ''OP_NOP6''),
     (OP_NOP7, ''OP_NOP7''), (OP_NOP8, ''OP_NOP8''), (OP_NOP9, ''OP_NOP9''), (OP_NOP10, ''OP_NOP10''),
     (OP_PUBKEYHASH, ''OP_PUBKEYHASH''), (OP_PUBKEY, ''OP_PUBKEY''),
     (OP_INVALIDOPCODE, ''OP_INVALIDOPCODE'')]"

definition GetOpName :: "opcodetype \<Rightarrow> string" where
  "GetOpName opcode = (case map_of op_names opcode of Some s \<Rightarrow> s | None \<Rightarrow> ''OP_UNKNOWN'')"

section \<open>Writing scripts\<close>

definition op_byte :: "opcodetype \<Rightarrow> CScript" where
  "op_byte opcode = [of_nat opcode]"

definition push_opcode :: "CScript \<Rightarrow> opcodetype \<Rightarrow> CScript res" where
  "push_opcode s opcode = (if opcode > 0xFF then Inl Runtime_error else Inr (s @ op_byte opcode))"

definition push_data :: "valtype \<Rightarrow> CScript" where
  "push_data b =
     (if length b < OP_PUSHDATA1 then [of_nat (length b)]
      else if length b \<le> 0xFF then op_byte OP_PUSHDATA1 @ [of_nat (length b)]
      else if length b \<le> 0xFFFF then op_byte OP_PUSHDATA2 @ le_bytes 2 (length b)
      else op_byte OP_PUSHDATA4 @ le_bytes 4 (length b)) @ b"

definition push_int64 :: "int \<Rightarrow> CScript" where
  "push_int64 n =
     (if n = -1 \<or> n \<ge> 1 \<and> n \<le> 16 then [of_int (n + (int OP_1 - 1))]
      else push_data (bn_getvch n))"

definition push_uint64 :: "nat \<Rightarrow> CScript" where
  "push_uint64 n =
     (if n \<ge> 1 \<and> n \<le> 16 then [of_nat (n + (OP_1 - 1))]
      else push_data (bn_getvch (int n)))"

definition push_uint160 :: "uint160 \<Rightarrow> CScript" where
  "push_uint160 b = of_nat 20 # image160 b"

definition push_uint256 :: "uint256 \<Rightarrow> CScript" where
  "push_uint256 b = of_nat 32 # image256 b"

definition push_bignum :: "int \<Rightarrow> CScript" where
  "push_bignum b = push_data (bn_getvch b)"

definition DecodeOP_N :: "opcodetype \<Rightarrow> nat res" where
  "DecodeOP_N opcode =
     (if opcode = OP_0 then Inr 0
      else if opcode \<ge> OP_1 \<and> opcode \<le> OP_16 then Inr (opcode - (OP_1 - 1))
      else Inl Assert_failed)"

definition EncodeOP_N :: "int \<Rightarrow> opcodetype res" where
  "EncodeOP_N n =
     (if \<not> (n \<ge> 0 \<and> n \<le> 16) then Inl Assert_failed
      else if n = 0 then Inr OP_0
      else Inr (OP_1 + nat n - 1))"

section \<open>Reading scripts\<close>

text \<open>
  \<^verbatim>\<open>GetOp2\<close> on the bytes from the iterator to the end: whether an instruction was read, the
  opcode and data left in the output arguments, and the iterator afterwards.  The size of the
  data is read first, as is the iterator behind it; \<open>None\<close> is a script that ends before.
\<close>

definition push_size :: "opcodetype \<Rightarrow> CScript \<Rightarrow> (nat \<times> CScript) option" where
  "push_size opcode pc =
     (if opcode < OP_PUSHDATA1 then Some (opcode, pc)
      else if opcode = OP_PUSHDATA1 then
        (if length pc < 1 then None else Some (le_val (take 1 pc), drop 1 pc))
      else if opcode = OP_PUSHDATA2 then
        (if length pc < 2 then None else Some (le_val (take 2 pc), drop 2 pc))
      else
        (if length pc < 4 then None else Some (le_val (take 4 pc), drop 4 pc)))"

fun GetOp2 :: "CScript \<Rightarrow> bool \<times> opcodetype \<times> valtype \<times> CScript" where
  "GetOp2 [] = (False, OP_INVALIDOPCODE, [], [])"
| "GetOp2 (b # pc) =
     (let opcode = unat b in
      if opcode \<le> OP_PUSHDATA4 then
        (case push_size opcode pc of
           None \<Rightarrow> (False, OP_INVALIDOPCODE, [], pc)
         | Some (nSize, pc') \<Rightarrow>
             if length pc' mod 2 ^ 32 < nSize then (False, OP_INVALIDOPCODE, [], pc')
             else (True, opcode, take nSize pc', drop nSize pc'))
      else (True, opcode, [], pc))"

lemma GetOp2_shorter: "GetOp2 s = (True, opcode, vch, pc) \<Longrightarrow> length pc < length s"
  by (cases s) (auto simp: push_size_def Let_def split: if_splits)

text \<open>
  \<^verbatim>\<open>FindAndDelete\<close>: at each instruction the occurrences of \<open>b\<close> are erased, then one instruction is
  skipped; the result is the number of erasures and the rest of the script.
\<close>

function erase_here :: "CScript \<Rightarrow> CScript \<Rightarrow> nat \<times> CScript" where
  "erase_here b pc =
     (if b \<noteq> [] \<and> length pc \<ge> length b \<and> take (length b) pc = b
      then let (nFound, pc') = erase_here b (drop (length b) pc) in (Suc nFound, pc')
      else (0, pc))"
  by auto
termination
  by (relation "measure (\<lambda>(b, pc). length pc)") (auto simp flip: length_greater_0_conv)

declare erase_here.simps [simp del]

lemma length_erase_here: "erase_here b pc = (n, pc') \<Longrightarrow> length pc' \<le> length pc"
proof (induction b pc arbitrary: n pc' rule: erase_here.induct)
  case (1 b pc)
  from 1(2) 1(1) show ?case
    by (subst (asm) erase_here.simps) (force split: if_splits prod.splits)
qed

function find_and_delete :: "CScript \<Rightarrow> CScript \<Rightarrow> nat \<times> CScript" where
  "find_and_delete b pc =
     (let (nFound, pc1) = erase_here b pc in
      case GetOp2 pc1 of
        (True, opcode, vch, pc2) \<Rightarrow>
          (let (nMore, rest) = find_and_delete b pc2
           in (nFound + nMore, take (length pc1 - length pc2) pc1 @ rest))
      | (False, _, _, _) \<Rightarrow> (nFound, pc1))"
  by auto
termination
  by (relation "measure (\<lambda>(b, pc). length pc)")
     (auto dest!: GetOp2_shorter [OF sym] length_erase_here [OF sym])

declare find_and_delete.simps [simp del]

definition FindAndDelete :: "CScript \<Rightarrow> CScript \<Rightarrow> nat \<times> CScript" where
  "FindAndDelete b script = (if b = [] then (0, script) else find_and_delete b script)"

text \<open>The loops over instructions: \<^verbatim>\<open>Find\<close>, \<^verbatim>\<open>IsPushOnly\<close> and \<^verbatim>\<open>GetSigOpCount\<close>.\<close>

function Find :: "CScript \<Rightarrow> opcodetype \<Rightarrow> nat" where
  "Find pc op =
     (case GetOp2 pc of
        (True, opcode, _, pc') \<Rightarrow> (if opcode = op then 1 else 0) + Find pc' op
      | (False, _, _, _) \<Rightarrow> 0)"
  by auto
termination
  by (relation "measure (\<lambda>(pc, op). length pc)") (auto dest!: GetOp2_shorter [OF sym])

declare Find.simps [simp del]

function IsPushOnly :: "CScript \<Rightarrow> bool" where
  "IsPushOnly pc =
     (if pc = [] then True
      else case GetOp2 pc of
        (True, opcode, _, pc') \<Rightarrow> \<not> opcode > OP_16 \<and> IsPushOnly pc'
      | (False, _, _, _) \<Rightarrow> False)"
  by auto
termination
  by (relation "measure length") (auto dest!: GetOp2_shorter [OF sym])

declare IsPushOnly.simps [simp del]

function sigop_loop :: "bool \<Rightarrow> opcodetype \<Rightarrow> CScript \<Rightarrow> nat" where
  "sigop_loop fAccurate lastOpcode pc =
     (if pc = [] then 0
      else case GetOp2 pc of
        (True, opcode, _, pc') \<Rightarrow>
          (if opcode = OP_CHECKSIG \<or> opcode = OP_CHECKSIGVERIFY then 1
           else if opcode = OP_CHECKMULTISIG \<or> opcode = OP_CHECKMULTISIGVERIFY then
             (if fAccurate \<and> lastOpcode \<ge> OP_1 \<and> lastOpcode \<le> OP_16
              then (case DecodeOP_N lastOpcode of Inr n \<Rightarrow> n | Inl _ \<Rightarrow> 0)
              else 20)
           else 0) + sigop_loop fAccurate opcode pc'
      | (False, _, _, _) \<Rightarrow> 0)"
  by auto
termination
  by (relation "measure (\<lambda>(a, l, pc). length pc)") (auto dest!: GetOp2_shorter [OF sym])

declare sigop_loop.simps [simp del]

definition GetSigOpCount :: "bool \<Rightarrow> CScript \<Rightarrow> nat" where
  "GetSigOpCount fAccurate script = sigop_loop fAccurate OP_INVALIDOPCODE script"

definition IsPayToScriptHash :: "CScript \<Rightarrow> bool" where
  "IsPayToScriptHash s \<longleftrightarrow> length s = 23 \<and> unat (s ! 0) = OP_HASH160 \<and> s ! 1 = 0x14 \<and> unat (s ! 22) = OP_EQUAL"

text \<open>The data of the last push of a script of pushes, or \<open>None\<close> where the loop returns zero.\<close>

function last_push :: "valtype \<Rightarrow> CScript \<Rightarrow> valtype option" where
  "last_push data pc =
     (if pc = [] then Some data
      else case GetOp2 pc of
        (True, opcode, data', pc') \<Rightarrow> if opcode > OP_16 then None else last_push data' pc'
      | (False, _, _, _) \<Rightarrow> None)"
  by auto
termination
  by (relation "measure (\<lambda>(d, pc). length pc)") (auto dest!: GetOp2_shorter [OF sym])

declare last_push.simps [simp del]

definition GetSigOpCount_P2SH :: "CScript \<Rightarrow> CScript \<Rightarrow> nat" where
  "GetSigOpCount_P2SH script scriptSig =
     (if \<not> IsPayToScriptHash script then GetSigOpCount True script
      else case last_push [] scriptSig of
        None \<Rightarrow> 0
      | Some subscript \<Rightarrow> GetSigOpCount True subscript)"

definition CScript_GetID :: "digests \<Rightarrow> CScript \<Rightarrow> uint160" where
  "CScript_GetID D script = Hash160 D script"

text \<open>Printing.\<close>

definition ValueString :: "valtype \<Rightarrow> string" where
  "ValueString vch = (if length vch \<le> 4 then bn_ToString 10 (bn_getint (bn_setvch vch)) else HexStr False vch)"

definition StackString :: "valtype list \<Rightarrow> string" where
  "StackString vStack = fold (\<lambda>vch str. (if str \<noteq> [] then str @ '' '' else str) @ ValueString vch) vStack []"

function script_string :: "string \<Rightarrow> CScript \<Rightarrow> string" where
  "script_string str pc =
     (if pc = [] then str
      else let str' = (if str \<noteq> [] then str @ '' '' else str) in
        case GetOp2 pc of
          (True, opcode, vch, pc') \<Rightarrow>
            script_string (str' @ (if opcode \<le> OP_PUSHDATA4 then ValueString vch else GetOpName opcode)) pc'
        | (False, _, _, _) \<Rightarrow> str' @ ''[error]'')"
  by auto
termination
  by (relation "measure (\<lambda>(d, pc). length pc)") (auto dest!: GetOp2_shorter [OF sym])

declare script_string.simps [simp del]

definition CScript_ToString :: "CScript \<Rightarrow> string" where
  "CScript_ToString script = script_string [] script"

section \<open>Canonical encodings\<close>

definition SIGHASH_ALL :: nat where "SIGHASH_ALL = 1"
definition SIGHASH_NONE :: nat where "SIGHASH_NONE = 2"
definition SIGHASH_SINGLE :: nat where "SIGHASH_SINGLE = 3"
definition SIGHASH_ANYONECANPAY :: nat where "SIGHASH_ANYONECANPAY = 0x80"

definition IsCanonicalPubKey :: "valtype \<Rightarrow> bool" where
  "IsCanonicalPubKey vchPubKey =
     (if length vchPubKey < 33 then False
      else if vchPubKey ! 0 = 0x04 then length vchPubKey = 65
      else if vchPubKey ! 0 = 0x02 \<or> vchPubKey ! 0 = 0x03 then length vchPubKey = 33
      else False)"

definition IsCanonicalSignature :: "valtype \<Rightarrow> bool" where
  "IsCanonicalSignature vchSig =
     (let n = length vchSig in
      if n < 9 \<or> n > 73 then False
      else let nHashType = unat (vchSig ! (n - 1) AND NOT (of_nat SIGHASH_ANYONECANPAY)) in
      if nHashType < SIGHASH_ALL \<or> nHashType > SIGHASH_SINGLE then False
      else if vchSig ! 0 \<noteq> 0x30 then False
      else if unat (vchSig ! 1) \<noteq> n - 3 then False
      else let nLenR = unat (vchSig ! 3) in
      if 5 + nLenR \<ge> n then False
      else let nLenS = unat (vchSig ! (5 + nLenR)) in
      if nLenR + nLenS + 7 \<noteq> n then False
      else let R = drop 4 vchSig; S = drop (6 + nLenR) vchSig in
      if vchSig ! 2 \<noteq> 0x02 then False
      else if nLenR = 0 then False
      else if R ! 0 AND 0x80 \<noteq> 0 then False
      else if nLenR > 1 \<and> R ! 0 = 0 \<and> R ! 1 AND 0x80 = 0 then False
      else if vchSig ! (4 + nLenR) \<noteq> 0x02 then False
      else if nLenS = 0 then False
      else if S ! 0 AND 0x80 \<noteq> 0 then False
      else if nLenS > 1 \<and> S ! 0 = 0 \<and> S ! 1 AND 0x80 = 0 then False
      else True)"

section \<open>Reference definitions\<close>

text \<open>The instructions of a script as byte strings, and the tail that no instruction can be read from.\<close>

function instructions :: "CScript \<Rightarrow> CScript list \<times> CScript" where
  "instructions pc =
     (case GetOp2 pc of
        (True, _, _, pc') \<Rightarrow>
          (let (ins, tl) = instructions pc' in (take (length pc - length pc') pc # ins, tl))
      | (False, _, _, _) \<Rightarrow> ([], pc))"
  by auto
termination
  by (relation "measure length") (auto dest!: GetOp2_shorter [OF sym])

declare instructions.simps [simp del]

text \<open>A DER integer that is not negative and minimal, and the layout of a signature.\<close>

definition der_int :: "byte list \<Rightarrow> bool" where
  "der_int v \<longleftrightarrow> v \<noteq> [] \<and> unat (v ! 0) < 128 \<and> (1 < length v \<longrightarrow> v ! 0 = 0 \<longrightarrow> 128 \<le> unat (v ! 1))"

definition der_signature :: "byte list \<Rightarrow> byte list \<Rightarrow> byte \<Rightarrow> byte list" where
  "der_signature R S hashtype = [0x30, of_nat (length R + length S + 4), 0x02, of_nat (length R)] @ R @
     [0x02, of_nat (length S)] @ S @ [hashtype]"

section \<open>Lemmas\<close>

lemma push_size_split:
  assumes "push_size opcode pc = Some (n, pc')"
  obtains h where "pc = h @ pc'" "\<And>r. push_size opcode (h @ r) = Some (n, r)"
proof -
  define k :: nat where "k = (if opcode < OP_PUSHDATA1 then 0 else if opcode = OP_PUSHDATA1 then 1
     else if opcode = OP_PUSHDATA2 then 2 else 4)"
  have k: "pc' = drop k pc" "k \<le> length pc"
    using assms by (auto simp: push_size_def k_def Suc_le_eq split: if_splits)
  then obtain h where h: "pc = h @ pc'" "length h = k"
    by (metis append_take_drop_id length_take min.absorb2)
  then have "push_size opcode (h @ r) = Some (n, r)" for r
    using assms by (auto simp: push_size_def k_def split: if_splits)
  with h(1) show ?thesis by (rule that)
qed

lemma GetOp2_split:
  assumes "GetOp2 s = (True, opcode, vch, pc)"
  obtains i where "i \<noteq> []" "s = i @ pc" "GetOp2 i = (True, opcode, vch, [])"
proof -
  obtain b t where s: "s = b # t" using assms by (cases s) auto
  show ?thesis
  proof (cases "unat b \<le> OP_PUSHDATA4")
    case True
    then obtain n pc' where n: "push_size (unat b) t = Some (n, pc')" "n \<le> length pc' mod 2 ^ 32"
      "vch = take n pc'" "pc = drop n pc'" "opcode = unat b"
      using assms unfolding s by (auto simp: Let_def not_less split: if_splits option.splits)
    obtain h where h: "t = h @ pc'" "\<And>r. push_size (unat b) (h @ r) = Some (n, r)"
      using push_size_split [OF n(1)] by blast
    have l: "n \<le> length pc'" using n(2) by (rule order_trans) simp
    have "n < 2 ^ 32" using n(2) by (rule le_less_trans) simp
    then have "GetOp2 (b # h @ take n pc') = (True, opcode, vch, [])"
      using True l by (simp add: Let_def h(2) n min_def)
    then show ?thesis using that [of "b # h @ take n pc'"] by (simp add: s h(1) n)
  next
    case False
    then show ?thesis using assms that [of "[b]"] unfolding s by (auto simp: Let_def)
  qed
qed

lemma GetOp2_append:
  assumes "GetOp2 i = (True, opcode, vch, [])" "length (i @ r) < 2 ^ 32"
  shows "GetOp2 (i @ r) = (True, opcode, vch, r)"
proof -
  obtain b t where i: "i = b # t" using assms(1) by (cases i) auto
  show ?thesis
  proof (cases "unat b \<le> OP_PUSHDATA4")
    case True
    then obtain n pc' where n: "push_size (unat b) t = Some (n, pc')" "n \<le> length pc' mod 2 ^ 32"
      "vch = take n pc'" "length pc' \<le> n" "opcode = unat b"
      using assms unfolding i by (auto simp: Let_def not_less split: if_splits option.splits)
    obtain h where h: "t = h @ pc'" "\<And>r. push_size (unat b) (h @ r) = Some (n, r)"
      using push_size_split [OF n(1)] by blast
    have "length pc' mod 2 ^ 32 \<le> length pc'" by simp
    then have l: "n = length pc'" using n(2,4) by linarith
    have "length (pc' @ r) mod 2 ^ 32 = length (pc' @ r)"
      using assms(2) by (simp add: i h(1))
    then show ?thesis
      using True by (simp add: Let_def h n(3,5) i l)
  next
    case False
    then show ?thesis using assms unfolding i by (auto simp: Let_def)
  qed
qed

lemma GetOp2_push:
  assumes "length b + length r < 2 ^ 32"
  shows "\<exists>opcode\<le>OP_PUSHDATA4. GetOp2 (push_data b @ r) = (True, opcode, b, r)"
proof -
  have [simp]: "(length b + length r) mod 4294967296 = length b + length r" using assms by simp
  consider "length b < 76" | "\<not> length b < 76" "length b < 256" | "\<not> length b < 256" "length b < 65536" | "\<not> length b < 65536" by linarith
  then show ?thesis
    using assms by cases (simp_all add: push_data_def op_byte_def push_size_def Let_def opcodes le_val_append)
qed


lemma instructions_step:
  "GetOp2 pc = (True, opcode, vch, pc') \<Longrightarrow> instructions pc =
     (take (length pc - length pc') pc # fst (instructions pc'), snd (instructions pc'))"
  "\<not> fst (GetOp2 pc) \<Longrightarrow> instructions pc = ([], pc)"
  by (subst instructions.simps; auto split: prod.splits bool.splits)+

lemma erase_here_step:
  "erase_here b pc = (if b \<noteq> [] \<and> take (length b) pc = b
     then (Suc (fst (erase_here b (drop (length b) pc))), snd (erase_here b (drop (length b) pc))) else (0, pc))"
  by (subst erase_here.simps) (auto split: prod.splits dest: arg_cong [where f = length])

lemma find_and_delete_erase:
  assumes "b \<noteq> []" "take (length b) pc = b"
  shows "find_and_delete b pc =
    (Suc (fst (find_and_delete b (drop (length b) pc))), snd (find_and_delete b (drop (length b) pc)))"
  using assms
  by (subst (1 2 3) find_and_delete.simps) (subst erase_here_step, simp add: Let_def split: prod.splits bool.splits)

lemma find_and_delete_keep:
  assumes "take (length b) pc \<noteq> b" 
  shows "find_and_delete b pc =
    (case GetOp2 pc of (True, _, _, pc') \<Rightarrow>
       (fst (find_and_delete b pc'), take (length pc - length pc') pc @ snd (find_and_delete b pc'))
     | (False, _, _, _) \<Rightarrow> (0, pc))"
  using assms
  by (subst find_and_delete.simps) (subst erase_here_step, simp add: Let_def split: prod.splits bool.splits)

lemma find_and_delete_filter:
  assumes b: "GetOp2 b = (True, op, v, [])"
  shows "length pc < 2 ^ 32 \<Longrightarrow> find_and_delete b pc =
    (length (filter (\<lambda>i. i = b) (fst (instructions pc))),
     concat (filter (\<lambda>i. i \<noteq> b) (fst (instructions pc))) @ snd (instructions pc))"
proof (induction pc rule: length_induct)
  case (1 pc)
  have bne: "b \<noteq> []" using b by auto
  show ?case
  proof (cases "take (length b) pc = b")
    case True
    define r where "r = drop (length b) pc"
    have pc: "pc = b @ r" using append_take_drop_id [of "length b" pc] True by (simp add: r_def)
    then have g: "GetOp2 pc = (True, op, v, r)" using GetOp2_append [OF b] 1(2) by simp
    have "length r < length pc" using bne by (simp add: pc)
    then have IH: "find_and_delete b r = (length (filter (\<lambda>i. i = b) (fst (instructions r))),
       concat (filter (\<lambda>i. i \<noteq> b) (fst (instructions r))) @ snd (instructions r))"
      using 1 by simp
    show ?thesis
      unfolding find_and_delete_erase [OF bne True] instructions_step(1) [OF g] r_def [symmetric] IH
      by (simp add: pc)
  next
    case False
    show ?thesis
    proof (cases "GetOp2 pc")
      case (fields f opc vch pc')
      show ?thesis
      proof (cases f)
        case True
        with fields have g: "GetOp2 pc = (True, opc, vch, pc')" by simp
        obtain i where i: "i \<noteq> []" "pc = i @ pc'" by (rule GetOp2_split [OF g])
        then have ne: "i \<noteq> b" using False by auto
        have "length pc' < length pc" using i by simp
        then have IH: "find_and_delete b pc' = (length (filter (\<lambda>i. i = b) (fst (instructions pc'))),
          concat (filter (\<lambda>i. i \<noteq> b) (fst (instructions pc'))) @ snd (instructions pc'))"
          using 1 by simp
        have t: "take (length pc - length pc') pc = i" unfolding i(2) by simp
        show ?thesis
          unfolding find_and_delete_keep [OF False] g instructions_step(1) [OF g] by (simp add: IH ne t)
      next
        case False
        then show ?thesis
          using find_and_delete_keep [OF \<open>take (length b) pc \<noteq> b\<close>] fields instructions_step(2) [of pc] by simp
      qed
    qed
  qed
qed


lemma canonical_parts:
  assumes "vchSig ! 0 = t" "vchSig ! 1 = l" "vchSig ! 2 = x" "unat (vchSig ! 3) = nR" 
    "nR + nS + 7 = length vchSig" "vchSig ! (4 + nR) = y" "unat (vchSig ! (5 + nR)) = nS" "vchSig ! (6 + nR + nS) = h"
  shows "vchSig = [t, l, x, of_nat nR] @ take nR (drop 4 vchSig) @ [y, of_nat nS] @ take nS (drop (6 + nR) vchSig) @ [h]"
proof (rule nth_equalityI)
  show "length vchSig = length ([t, l, x, of_nat nR] @ take nR (drop 4 vchSig) @ [y, of_nat nS] @ take nS (drop (6 + nR) vchSig) @ [h])"
    using assms(5) by simp
  fix i assume i: "i < length vchSig"
  consider "i = 0" | "i = 1" | "i = 2" | "i = 3" | k where "i = 4 + k" "k < nR" | "i = 4 + nR" | "i = 5 + nR"
    | k where "i = 6 + nR + k" "k < nS" | "i = 6 + nR + nS" 
  proof -
    have "i \<le> 3 \<or> (4 \<le> i \<and> i < 4 + nR) \<or> i = 4 + nR \<or> i = 5 + nR \<or> (6 + nR \<le> i \<and> i < 6 + nR + nS) \<or> i = 6 + nR + nS"
      using i assms(5) by linarith
    moreover have "4 \<le> i \<Longrightarrow> i < 4 + nR \<Longrightarrow> i = 4 + (i - 4) \<and> i - 4 < nR" by linarith
    moreover have "6 + nR \<le> i \<Longrightarrow> i < 6 + nR + nS \<Longrightarrow> i = 6 + nR + (i - (6 + nR)) \<and> i - (6 + nR) < nS" by linarith
    moreover have "i \<le> 3 \<Longrightarrow> i = 0 \<or> i = 1 \<or> i = 2 \<or> i = 3" by linarith
    ultimately show thesis using that by metis
  qed
  then show "vchSig ! i = ([t, l, x, of_nat nR] @ take nR (drop 4 vchSig) @ [y, of_nat nS] @ take nS (drop (6 + nR) vchSig) @ [h]) ! i"
    using assms by cases (auto simp: nth_append nth_Cons' numeral_eq_Suc)
qed


lemma der_int_take:
  assumes "k \<le> length v" "k \<noteq> 0" "v ! 0 AND 0x80 = 0" "\<not> (k > 1 \<and> v ! 0 = 0 \<and> v ! 1 AND 0x80 = 0)"
  shows "der_int (take k v)"
  using assms by (auto simp: der_int_def byte_and_80)

lemma IsCanonicalSignature_der:
  assumes "IsCanonicalSignature vchSig"
  shows "\<exists>R S h. vchSig = der_signature R S h \<and> der_int R \<and> der_int S \<and> length R + length S \<le> 66 \<and>
    unat (h AND NOT 0x80) \<in> {1, 2, 3}"
proof -
  let ?n = "length vchSig" and ?nR = "unat (vchSig ! 3)"
  let ?nS = "unat (vchSig ! (5 + ?nR))" and ?h = "vchSig ! (length vchSig - 1)"
  let ?R = "drop 4 vchSig" and ?S = "drop (6 + ?nR) vchSig"
  note d = assms [unfolded IsCanonicalSignature_def Let_def SIGHASH_ALL_def SIGHASH_SINGLE_def SIGHASH_ANYONECANPAY_def]
  have n: "9 \<le> ?n" "?n \<le> 73" "?nR + ?nS + 7 = ?n" "unat (vchSig ! 1) = ?n - 3"
    and hd: "vchSig ! 0 = 0x30" "vchSig ! 2 = 0x02" "vchSig ! (4 + ?nR) = 0x02"
    and h: "unat (?h AND NOT 0x80) \<in> {1, 2, 3}"
    and R: "?nR \<noteq> 0" "?R ! 0 AND 0x80 = 0" "\<not> (?nR > 1 \<and> ?R ! 0 = 0 \<and> ?R ! 1 AND 0x80 = 0)"
    and S: "?nS \<noteq> 0" "?S ! 0 AND 0x80 = 0" "\<not> (?nS > 1 \<and> ?S ! 0 = 0 \<and> ?S ! 1 AND 0x80 = 0)"
    using d by (auto split: if_splits)
  have l: "length (take ?nR ?R) = ?nR" "length (take ?nS ?S) = ?nS" using n(3) by auto
  have e: "?nR + ?nS + 4 = unat (vchSig ! 1)" "6 + ?nR + ?nS = ?n - 1" using n(3,4) by linarith+
  have l1: "vchSig ! 1 = of_nat (?nR + ?nS + 4)" unfolding e(1) by simp
  have last: "vchSig ! (6 + ?nR + ?nS) = ?h" unfolding e(2) by (rule refl)
  have "vchSig = der_signature (take ?nR ?R) (take ?nS ?S) ?h"
    unfolding der_signature_def l using canonical_parts [OF hd(1) l1 hd(2) refl n(3) hd(3) refl last] .
  moreover have "der_int (take ?nR ?R)"
    by (rule der_int_take [OF _ R]) (use n(3) in simp)
  moreover have "der_int (take ?nS ?S)"
    by (rule der_int_take [OF _ S]) (use n(3) in simp)
  moreover have "length (take ?nR ?R) + length (take ?nS ?S) \<le> 66" using n unfolding l by linarith
  ultimately show ?thesis using h by blast
qed

lemma der_IsCanonicalSignature:
  assumes "der_int R" "der_int S" "length R + length S \<le> 66" "unat (h AND NOT 0x80) \<in> {1, 2, 3}"
  shows "IsCanonicalSignature (der_signature R S h)"
proof -
  let ?v = "der_signature R S h"
  have l: "length ?v = length R + length S + 7" by (simp add: der_signature_def)
  have p: "0 < length R" "0 < length S" using assms(1,2) by (auto simp: der_int_def)
  have lr: "length R < 256" "length S < 256" "length R + length S + 4 < 256" using assms(3) by auto
  have R4: "drop 4 ?v = R @ [0x02, of_nat (length S)] @ S @ [h]" by (simp add: der_signature_def)
  have "drop (6 + length R) ?v = drop (2 + length R) (drop 4 ?v)" by (simp add: ac_simps)
  then have RS: "drop 4 ?v = R @ [0x02, of_nat (length S)] @ S @ [h]" "drop (6 + length R) ?v = S @ [h]"
    by (simp_all add: R4)
  have "?v ! (4 + length R) = drop 4 ?v ! length R" "?v ! (5 + length R) = drop 4 ?v ! Suc (length R)"
    "?v ! (6 + length R + length S) = drop (6 + length R) ?v ! length S"
    unfolding der_signature_def by simp_all
  then have i: "?v ! (4 + length R) = 2" "unat (?v ! (5 + length R)) = length S" "?v ! (6 + (length R + length S)) = h"
    using lr unfolding RS by (simp_all add: nth_append ac_simps)
  have j: "?v ! 0 = 0x30" "unat (?v ! Suc 0) = length R + length S + 4" "?v ! 2 = 2" "unat (?v ! 3) = length R"
    using lr by (simp_all add: der_signature_def flip: of_nat_add)
  have "unat (h AND NOT 0x80) \<noteq> 0" "\<not> unat (h AND NOT 0x80) > 3" using assms(4) by auto
  moreover have [simp]: "\<not> length R + length S < 2" using p by linarith
  ultimately show ?thesis
    using p assms unfolding IsCanonicalSignature_def Let_def SIGHASH_ALL_def SIGHASH_SINGLE_def SIGHASH_ANYONECANPAY_def
    by (auto simp: l i j RS byte_and_80 der_int_def nth_append)
qed

section \<open>Properties\<close>

text \<open>
  C22. \<^verbatim>\<open>FindAndDelete\<close> with a pattern that is one instruction, as every caller's is, removes exactly the
  instructions equal to the pattern: the script is cut at its instruction boundaries, the equal
  instructions go, everything else stays in order, a tail that cannot be read included, and the
  count is the number of instructions removed.
\<close>

theorem FindAndDelete_removes_instructions:
  assumes "GetOp2 b = (True, opcode, vch, [])" "length script < 2 ^ 32" "instructions script = (ins, tail)"
  shows "FindAndDelete b script =
    (length (filter (\<lambda>i. i = b) ins), concat (filter (\<lambda>i. i \<noteq> b) ins) @ tail)"
proof -
  have "b \<noteq> []" using assms(1) by auto
  then show ?thesis
    using find_and_delete_filter [OF assms(1,2)] assms(3) by (simp add: FindAndDelete_def)
qed

theorem FindAndDelete_removes_instructions_witness:
  "FindAndDelete [0xAB] [0x51, 0xAB, 0x02, 0xAB, 0xAB, 0xAB, 0xAC, 0x05] = (2, [0x51, 0x02, 0xAB, 0xAB, 0xAC, 0x05])"
  using FindAndDelete_removes_instructions [of "[0xAB]" "0xAB" "[]" "[0x51, 0xAB, 0x02, 0xAB, 0xAB, 0xAB, 0xAC, 0x05]"
      "[[0x51], [0xAB], [0x02, 0xAB, 0xAB], [0xAB], [0xAC]]" "[0x05]"]
  by (simp add: instructions.simps push_size_def opcodes Let_def)

text \<open>
  C23. \<^verbatim>\<open>IsCanonicalSignature\<close> accepts exactly the byte strings of the form
  \<open>30 len 02 lenR R 02 lenS S hashtype\<close> whose two integers are non-empty, not negative and
  minimally encoded, with at most 66 bytes together, and whose hash type is one of the three
  known ones with or without the flag \<^verbatim>\<open>SIGHASH_ANYONECANPAY\<close>.
\<close>

theorem IsCanonicalSignature_iff:
  "IsCanonicalSignature vchSig \<longleftrightarrow>
     (\<exists>R S h. vchSig = der_signature R S h \<and> der_int R \<and> der_int S \<and> length R + length S \<le> 66 \<and>
        unat (h AND NOT 0x80) \<in> {1, 2, 3})"
  using IsCanonicalSignature_der der_IsCanonicalSignature by blast

end
