(* ===== verification/ScriptSig.thy ===== *)
theory ScriptSig
  imports ScriptCore Transaction "HOL-Library.List_Lexorder" "HOL-Library.Product_Lexorder"
begin

text \<open>
  Signatures in scripts (\<^verbatim>\<open>src/src/script.cpp\<close> lines 953 to 1101): what a signature signs
  (\<^verbatim>\<open>SignatureHash\<close>), the cache of valid signatures (\<^verbatim>\<open>CSignatureCache\<close>) and \<^verbatim>\<open>CheckSig\<close>.  The record
  \<open>script_env\<close> collects what is outside the sources: the digests, the curve, the stream of
  values that \<^verbatim>\<open>GetRandHash\<close> returns, and the option \<^verbatim>\<open>-maxsigcachesize\<close>.
\<close>

section \<open>What a signature signs\<close>

text \<open>
  The transaction that is hashed: \<open>None\<close> where \<^verbatim>\<open>SignatureHash\<close> returns the constant 1 because an
  index is out of range.
\<close>

definition clear_other_sequences :: "nat \<Rightarrow> CTxIn list \<Rightarrow> CTxIn list" where
  "clear_other_sequences nIn ins =
     map (\<lambda>i. if i \<noteq> nIn then (ins ! i)\<lparr>nSequence := 0\<rparr> else ins ! i) [0..<length ins]"

definition sighash_tx :: "CScript \<Rightarrow> CTransaction \<Rightarrow> nat \<Rightarrow> int \<Rightarrow> CTransaction option" where
  "sighash_tx scriptCode txTo nIn nHashType =
     (if nIn \<ge> length (vin txTo) then None
      else let code = snd (FindAndDelete (op_byte OP_CODESEPARATOR) scriptCode);
               ins = map (\<lambda>i. i\<lparr>scriptSig := []\<rparr>) (vin txTo);
               ins = ins[nIn := (ins ! nIn)\<lparr>scriptSig := code\<rparr>];
               mode = nHashType AND 0x1F;
               tx = txTo\<lparr>vin := ins\<rparr>;
               tx1 = (if mode = int SIGHASH_NONE then Some (tx\<lparr>vout := [], vin := clear_other_sequences nIn ins\<rparr>)
                      else if mode = int SIGHASH_SINGLE then
                        (if nIn \<ge> length (vout txTo) then None
                         else Some (tx\<lparr>vout := replicate nIn CTxOut_null @ [vout txTo ! nIn],
                                       vin := clear_other_sequences nIn ins\<rparr>))
                      else Some tx)
           in map_option (\<lambda>t. if nHashType AND int SIGHASH_ANYONECANPAY \<noteq> 0 then t\<lparr>vin := [vin t ! nIn]\<rparr> else t) tx1)"

definition sighash_preimage :: "CTransaction \<Rightarrow> int \<Rightarrow> byte list" where
  "sighash_preimage tx nHashType = ser_tx tx @ write_le 4 (to_unsigned 32 nHashType)"

definition SignatureHash :: "digests \<Rightarrow> CScript \<Rightarrow> CTransaction \<Rightarrow> nat \<Rightarrow> int \<Rightarrow> uint256" where
  "SignatureHash D scriptCode txTo nIn nHashType = (case sighash_tx scriptCode txTo nIn nHashType of
     None \<Rightarrow> 1 | Some tx \<Rightarrow> Hash D (sighash_preimage tx nHashType))"

section \<open>The signature cache\<close>

text \<open>
  \<^verbatim>\<open>setValid\<close> is a \<^verbatim>\<open>std::set\<close> of triples in lexicographic order, here its sorted list; \<open>nRand\<close> counts
  the random hashes drawn.
\<close>

type_synonym sigdata_type = "uint256 \<times> valtype \<times> valtype"

record CSignatureCache =
  setValid :: "sigdata_type list"
  nRand :: nat

definition sigcache_Get :: "CSignatureCache \<Rightarrow> uint256 \<Rightarrow> valtype \<Rightarrow> valtype \<Rightarrow> bool" where
  "sigcache_Get c hash vchSig pubKey \<longleftrightarrow> (hash, vchSig, pubKey) \<in> set (setValid c)"

definition evict_entry :: "uint256 \<Rightarrow> sigdata_type list \<Rightarrow> sigdata_type" where
  "evict_entry randomHash S = (case dropWhile (\<lambda>x. x < (randomHash, [], [])) S of
     it # _ \<Rightarrow> it | [] \<Rightarrow> hd S)"

lemma evict_entry_in:
  assumes "S \<noteq> []"
  shows "evict_entry r S \<in> set S"
proof (cases "dropWhile (\<lambda>x. x < (r, [], [])) S")
  case (Cons it xs)
  then have "it \<in> set (dropWhile (\<lambda>x. x < (r, [], [])) S)" by simp
  then have "it \<in> set S" by (rule set_dropWhileD)
  then show ?thesis unfolding evict_entry_def Cons by simp
next
  case Nil
  show ?thesis unfolding evict_entry_def Nil using assms by simp
qed

function evict :: "(nat \<Rightarrow> uint256) \<Rightarrow> nat \<Rightarrow> CSignatureCache \<Rightarrow> CSignatureCache" where
  "evict R nMaxCacheSize c =
     (if length (setValid c) > nMaxCacheSize
      then evict R nMaxCacheSize
             \<lparr>setValid = remove1 (evict_entry (R (nRand c)) (setValid c)) (setValid c), nRand = nRand c + 1\<rparr>
      else c)"
  by auto
termination
proof (relation "measure (\<lambda>(R, n, c). length (setValid c))", goal_cases)
  case (2 R n c)
  then have "setValid c \<noteq> []" by auto
  then show ?case by (simp add: length_remove1 evict_entry_in)
qed simp

declare evict.simps [simp del]

definition sigcache_Set :: "(nat \<Rightarrow> uint256) \<Rightarrow> int \<Rightarrow> uint256 \<Rightarrow> valtype \<Rightarrow> valtype \<Rightarrow> CSignatureCache \<Rightarrow> CSignatureCache" where
  "sigcache_Set R nMaxCacheSize hash vchSig pubKey c =
     (if nMaxCacheSize \<le> 0 then c
      else let c = evict R (nat nMaxCacheSize) c
           in c\<lparr>setValid := insort_insert (hash, vchSig, pubKey) (setValid c)\<rparr>)"

section \<open>Checking a signature\<close>

record 'p script_env =
  env_digests :: digests
  env_curve :: "'p curve"
  env_rand :: "nat \<Rightarrow> uint256"
  env_maxsigcache :: int

definition SCRIPT_VERIFY_NONE :: nat where "SCRIPT_VERIFY_NONE = 0"
definition SCRIPT_VERIFY_P2SH :: nat where "SCRIPT_VERIFY_P2SH = 1"
definition SCRIPT_VERIFY_STRICTENC :: nat where "SCRIPT_VERIFY_STRICTENC = 2"
definition SCRIPT_VERIFY_NOCACHE :: nat where "SCRIPT_VERIFY_NOCACHE = 4"

definition CheckSig :: "'p script_env \<Rightarrow> valtype \<Rightarrow> valtype \<Rightarrow> CScript \<Rightarrow> CTransaction \<Rightarrow> nat \<Rightarrow> int \<Rightarrow> nat \<Rightarrow>
    CSignatureCache \<Rightarrow> bool \<times> CSignatureCache" where
  "CheckSig env vchSig vchPubKey scriptCode txTo nIn nHashType flags c =
     (if vchSig = [] then (False, c)
      else let back = int (unat (last vchSig)) in
      if nHashType \<noteq> 0 \<and> nHashType \<noteq> back then (False, c)
      else let sig = butlast vchSig;
               sighash = SignatureHash (env_digests env) scriptCode txTo nIn back in
      if sigcache_Get c sighash sig vchPubKey then (True, c)
      else case SetPubKey (env_curve env) vchPubKey CKey_new of
        (False, _) \<Rightarrow> (False, c)
      | (True, key) \<Rightarrow>
          if \<not> CKey_Verify (env_curve env) key sighash sig then (False, c)
          else (True, if flags AND SCRIPT_VERIFY_NOCACHE = 0
                      then sigcache_Set (env_rand env) (env_maxsigcache env) sighash sig vchPubKey c else c))"

section \<open>Reference definitions\<close>

definition sig_valid :: "'p curve \<Rightarrow> sigdata_type \<Rightarrow> bool" where
  "sig_valid E = (\<lambda>(hash, vchSig, pubKey).
     fst (SetPubKey E pubKey CKey_new) \<and> CKey_Verify E (snd (SetPubKey E pubKey CKey_new)) hash vchSig)"

text \<open>The verdict of \<^verbatim>\<open>CheckSig\<close> without a cache.\<close>

definition sig_accepts :: "'p script_env \<Rightarrow> valtype \<Rightarrow> valtype \<Rightarrow> CScript \<Rightarrow> CTransaction \<Rightarrow> nat \<Rightarrow> int \<Rightarrow> bool" where
  "sig_accepts env vchSig vchPubKey scriptCode txTo nIn nHashType \<longleftrightarrow>
     vchSig \<noteq> [] \<and> (nHashType = 0 \<or> nHashType = int (unat (last vchSig))) \<and>
     sig_valid (env_curve env)
       (SignatureHash (env_digests env) scriptCode txTo nIn (int (unat (last vchSig))), butlast vchSig, vchPubKey)"

text \<open>A sound cache holds valid signatures only, in the order of the set and without repetition.\<close>

definition sigcache_ok :: "'p script_env \<Rightarrow> CSignatureCache \<Rightarrow> bool" where
  "sigcache_ok env c \<longleftrightarrow> (\<forall>e\<in>set (setValid c). sig_valid (env_curve env) e) \<and>
     sorted (setValid c) \<and> distinct (setValid c)"

text \<open>The inputs as a signature of all of them sees them: scripts blanked except the signed one.\<close>

definition blank_inputs :: "nat \<Rightarrow> CScript \<Rightarrow> CTxIn list \<Rightarrow> CTxIn list" where
  "blank_inputs nIn code ins = (map (\<lambda>i. i\<lparr>scriptSig := []\<rparr>) ins)[nIn := (ins ! nIn)\<lparr>scriptSig := code\<rparr>]"

definition plain_hashtype :: "int \<Rightarrow> bool" where
  "plain_hashtype ht \<longleftrightarrow> ht AND 0x1F \<noteq> 2 \<and> ht AND 0x1F \<noteq> 3 \<and> ht AND 0x80 = 0"

abbreviation stripped :: "CScript \<Rightarrow> CScript" where
  "stripped code \<equiv> snd (FindAndDelete (op_byte OP_CODESEPARATOR) code)"

section \<open>Lemmas\<close>

lemma evict_subset: "set (setValid (evict R n c)) \<subseteq> set (setValid c)"
proof (induction R n c rule: evict.induct)
  case (1 R n c)
  then show ?case
    using set_remove1_subset [of "evict_entry (R (nRand c)) (setValid c)" "setValid c"]
    by (subst evict.simps) (simp, blast intro: order_trans)
qed

lemma evict_sorted: "sorted (setValid c) \<Longrightarrow> distinct (setValid c) \<Longrightarrow>
    sorted (setValid (evict R n c)) \<and> distinct (setValid (evict R n c)) \<and> length (setValid (evict R n c)) \<le> n"
proof (induction R n c rule: evict.induct)
  case (1 R n c)
  then show ?case by (subst (1 2 3) evict.simps) (simp add: sorted_remove1)
qed

lemma evict_ok: "sigcache_ok env c \<Longrightarrow> sigcache_ok env (evict R n c)"
  using evict_subset [of R n c] evict_sorted [of c R n] by (auto simp: sigcache_ok_def)

lemma sigcache_Set_ok:
  assumes "sigcache_ok env c" "sig_valid (env_curve env) (h, s, p)"
  shows "sigcache_ok env (sigcache_Set R m h s p c)"
  using assms evict_ok [OF assms(1), of R "nat m"]
  by (auto simp: sigcache_Set_def sigcache_ok_def Let_def set_insort_insert sorted_insort_insert distinct_insort_insert)

lemma CheckSig_accepts:
  assumes "sigcache_ok env c"
  shows "fst (CheckSig env sig pk code tx nIn ht flags c) = sig_accepts env sig pk code tx nIn ht"
    and "sigcache_ok env (snd (CheckSig env sig pk code tx nIn ht flags c))"
proof -
  let ?h = "SignatureHash (env_digests env) code tx nIn (int (unat (last sig)))"
  obtain f key where k: "SetPubKey (env_curve env) pk CKey_new = (f, key)" by fastforce
  have v: "sig_valid (env_curve env) (?h, butlast sig, pk) \<longleftrightarrow> f \<and> CKey_Verify (env_curve env) key ?h (butlast sig)"
    by (simp add: sig_valid_def k)
  have g: "sigcache_Get c ?h (butlast sig) pk \<Longrightarrow> sig_valid (env_curve env) (?h, butlast sig, pk)"
    using assms by (auto simp: sigcache_Get_def sigcache_ok_def)
  show "fst (CheckSig env sig pk code tx nIn ht flags c) = sig_accepts env sig pk code tx nIn ht"
    using g unfolding CheckSig_def sig_accepts_def Let_def k v by (cases f) auto
  show "sigcache_ok env (snd (CheckSig env sig pk code tx nIn ht flags c))"
    using assms sigcache_Set_ok [OF assms, of ?h "butlast sig" pk] unfolding CheckSig_def Let_def k v
    by (cases f) auto
qed

lemma sighash_tx_plain:
  assumes "plain_hashtype ht"
  shows "sighash_tx code tx nIn ht =
    (if length (vin tx) \<le> nIn then None else Some (tx\<lparr>vin := blank_inputs nIn (stripped code) (vin tx)\<rparr>))"
  using assms by (simp add: sighash_tx_def plain_hashtype_def SIGHASH_NONE_def SIGHASH_SINGLE_def
      SIGHASH_ANYONECANPAY_def blank_inputs_def Let_def)

lemma sighash_preimage_inj:
  assumes "sighash_preimage t ht = sighash_preimage t' ht'" "valid_tx t" "valid_tx t'"
    "- (2 ^ 31) \<le> ht" "ht < 2 ^ 31" "- (2 ^ 31) \<le> ht'" "ht' < 2 ^ 31"
  shows "t = t' \<and> ht = ht'"
proof -
  have t: "t = t'" and w: "write_le 4 (to_unsigned 32 ht) = write_le 4 (to_unsigned 32 ht')"
    using tx.ser_prefix_free [OF assms(2,3)] assms(1) unfolding sighash_preimage_def by blast+
  have "to_unsigned 32 ht = to_unsigned 32 ht'"
    using w signed_words(2) [OF assms(4,5)] signed_words(2) [OF assms(6,7)]
    by (metis le_bytes_inj mod_less write_le_def)
  then have "ht = ht'" using signed_words(2) [OF assms(4,5)] signed_words(2) [OF assms(6,7)] by metis
  with t show ?thesis by blast
qed

lemma blank_inputs_eq:
  assumes "blank_inputs n c ins = blank_inputs n' c' ins'" "n < length ins" "n' < length ins'"
  shows "map prevout ins = map prevout ins'" "map nSequence ins = map nSequence ins'"
    "n = n' \<and> c = c' \<or> c = [] \<and> c' = []"
proof -
  have p: "map prevout (blank_inputs n c ins) = map prevout ins" "map nSequence (blank_inputs n c ins) = map nSequence ins"
    if "n < length ins" for n c ins
    using that by (simp_all add: blank_inputs_def map_update list_update_same_conv comp_def)
  show "map prevout ins = map prevout ins'" "map nSequence ins = map nSequence ins'"
    using p [OF assms(2), of c] p [OF assms(3), of c'] assms(1) by simp_all
  have l: "length ins = length ins'" using assms(1) by (metis blank_inputs_def length_list_update length_map)
  have s: "map scriptSig (blank_inputs n c ins) = (replicate (length ins) [])[n := c]" for n c ins
    by (simp add: blank_inputs_def map_update map_replicate_const comp_def)
  have e: "(replicate (length ins) [])[n := c] = (replicate (length ins) [])[n' := c']"
    using s [of n c ins] s [of n' c' ins'] assms(1) l by simp
  show "n = n' \<and> c = c' \<or> c = [] \<and> c' = []"
  proof (cases "n = n'")
    case True
    then show ?thesis using arg_cong [OF e, of "\<lambda>xs. xs ! n"] assms(2) by simp
  next
    case False
    then show ?thesis
      using arg_cong [OF e, of "\<lambda>xs. xs ! n"] arg_cong [OF e, of "\<lambda>xs. xs ! n'"] assms(2,3) l by simp
  qed
qed

text \<open>
  C28. What a signature of the type \<^verbatim>\<open>SIGHASH_ALL\<close> commits to: if two signature hashes are taken of the
  same bytes, then they have the same hash type, and the two transactions agree in version, lock
  time, outputs, and the outpoint and sequence number of every input; only scripts of inputs can
  differ.  The signed script, without its code separators, and the signed input agree too,
  unless both scripts are empty.
\<close>

theorem sighash_commits:
  assumes "plain_hashtype ht" "plain_hashtype ht'"
    and "sighash_tx code tx nIn ht = Some t" "sighash_tx code' tx' nIn' ht' = Some t'"
    and "valid_tx t" "valid_tx t'" "- (2 ^ 31) \<le> ht" "ht < 2 ^ 31" "- (2 ^ 31) \<le> ht'" "ht' < 2 ^ 31"
    and "sighash_preimage t ht = sighash_preimage t' ht'"
  shows "ht = ht' \<and> tx_nVersion tx = tx_nVersion tx' \<and> nLockTime tx = nLockTime tx' \<and> vout tx = vout tx' \<and>
    map prevout (vin tx) = map prevout (vin tx') \<and> map nSequence (vin tx) = map nSequence (vin tx') \<and>
    (nIn = nIn' \<and> stripped code = stripped code' \<or> stripped code = [] \<and> stripped code' = [])"
proof -
  have e: "t = t'" "ht = ht'" using sighash_preimage_inj [OF assms(11,5,6,7,8,9,10)] by blast+
  have n: "nIn < length (vin tx)" "nIn' < length (vin tx')"
    and t: "t = tx\<lparr>vin := blank_inputs nIn (stripped code) (vin tx)\<rparr>" 
      "t' = tx'\<lparr>vin := blank_inputs nIn' (stripped code') (vin tx')\<rparr>"
    using assms(3,4) unfolding sighash_tx_plain [OF assms(1)] sighash_tx_plain [OF assms(2)]
    by (auto split: if_splits)
  have "vin t = vin t'" by (simp add: e(1))
  then have b: "blank_inputs nIn (stripped code) (vin tx) = blank_inputs nIn' (stripped code') (vin tx')"
    by (simp add: t)
  have "tx_nVersion t = tx_nVersion t'" "nLockTime t = nLockTime t'" "vout t = vout t'" by (simp_all add: e(1))
  then show ?thesis using blank_inputs_eq [OF b n] e(2) by (simp add: t)
qed

theorem sighash_commits_witness:
  fixes a b :: CTransaction
  defines "a \<equiv> \<lparr>tx_nVersion = 1, vin = [\<lparr>prevout = \<lparr>op_hash = 7, op_n = 0\<rparr>, scriptSig = [0x51], nSequence = - 1\<rparr>],
     vout = [\<lparr>nValue = 2000000, scriptPubKey = [0xAC]\<rparr>], nLockTime = 3\<rparr>"
    and "b \<equiv> a\<lparr>vin := [(vin a ! 0)\<lparr>scriptSig := [0x52, 0x53]\<rparr>]\<rparr>"
  shows "sighash_tx [0xAB, 0xAC] a 0 1 = sighash_tx [0xAC] b 0 1 \<and> vout a = vout b \<and> stripped [0xAB, 0xAC] = stripped [0xAC]"
proof -
  let ?t = "a\<lparr>vin := [(vin a ! 0)\<lparr>scriptSig := [0xAC]\<rparr>]\<rparr>"
  have p: "plain_hashtype 1" by (simp add: plain_hashtype_def)
  have s: "stripped [0xAB, 0xAC] = [0xAC]" "stripped [0xAC] = [0xAC]"
    by (simp_all add: FindAndDelete_def op_byte_def opcodes find_and_delete.simps erase_here.simps Let_def)
  have t: "sighash_tx [0xAB, 0xAC] a 0 1 = Some ?t" "sighash_tx [0xAC] b 0 1 = Some ?t"
    unfolding sighash_tx_plain [OF p] s by (simp_all add: a_def b_def blank_inputs_def)
  have v: "valid_tx ?t" by (simp add: a_def valid_tx_def valid_txin_def valid_txout_def MAX_SIZE_def)
  have "vout a = vout b \<and> stripped [0xAB, 0xAC] = stripped [0xAC]"
    using sighash_commits [OF p p t v v _ _ _ _ refl] s by simp
  with t show ?thesis by simp
qed

end
