(* ===== verification/ScriptEval.thy ===== *)
theory ScriptEval
  imports ScriptSig "HOL-Library.Sublist"
begin

text \<open>
  The script interpreter (\<^verbatim>\<open>src/src/script.cpp\<close> lines 20 to 65 and 287 to 951).  A stack is the list of
  its values with the top first, so \<^verbatim>\<open>stacktop(-1)\<close> is its head; \<^verbatim>\<open>vfExec\<close> likewise.  Every branch of the
  switch returns whether the loop goes on, and the state it leaves, which a failing branch may
  have changed before it gave up.  An exception of \<^verbatim>\<open>CastToBigNum\<close> is caught at the end of
  \<^verbatim>\<open>EvalScript\<close>, so it is a failing branch too.
\<close>

section \<open>Values\<close>

definition vchFalse :: valtype where "vchFalse = []"
definition vchTrue :: valtype where "vchTrue = [1]"
definition nMaxNumSize :: nat where "nMaxNumSize = 4"
definition MAX_SCRIPT_ELEMENT_SIZE :: nat where "MAX_SCRIPT_ELEMENT_SIZE = 520"

definition CastToBigNum :: "valtype \<Rightarrow> int res" where
  "CastToBigNum vch =
     (if length vch > nMaxNumSize then Inl Runtime_error
      else Inr (bn_setvch (bn_getvch (bn_setvch vch))))"

fun CastToBool :: "valtype \<Rightarrow> bool" where
  "CastToBool [] = False"
| "CastToBool (b # vch) = (if b \<noteq> 0 then \<not> (vch = [] \<and> b = 0x80) else CastToBool vch)"

definition bool_val :: "bool \<Rightarrow> valtype" where
  "bool_val f = (if f then vchTrue else vchFalse)"

section \<open>The state of the loop\<close>

record eval_state =
  stack :: "valtype list"
  altstack :: "valtype list"
  vfExec :: "bool list"
  nOpCount :: nat
  pbegincodehash :: CScript
  sigcache :: CSignatureCache

text \<open>The arguments that do not change: \<^verbatim>\<open>txTo\<close>, \<^verbatim>\<open>nIn\<close>, \<^verbatim>\<open>flags\<close> and \<^verbatim>\<open>nHashType\<close>.\<close>

record 'p eval_ctx =
  cx_env :: "'p script_env"
  cx_txTo :: CTransaction
  cx_nIn :: nat
  cx_flags :: nat
  cx_nHashType :: int

type_synonym op_result = "bool \<times> eval_state"

section \<open>Control\<close>

definition op_push_value :: "opcodetype \<Rightarrow> eval_state \<Rightarrow> op_result" where
  "op_push_value opcode st = (True, st\<lparr>stack := bn_getvch (int opcode - (int OP_1 - 1)) # stack st\<rparr>)"

definition op_if :: "bool \<Rightarrow> opcodetype \<Rightarrow> eval_state \<Rightarrow> op_result" where
  "op_if fExec opcode st =
     (if fExec then
        (case stack st of
           [] \<Rightarrow> (False, st)
         | vch # s \<Rightarrow>
             (let fValue = (if opcode = OP_NOTIF then \<not> CastToBool vch else CastToBool vch)
              in (True, st\<lparr>stack := s, vfExec := fValue # vfExec st\<rparr>)))
      else (True, st\<lparr>vfExec := False # vfExec st\<rparr>))"

definition op_else :: "eval_state \<Rightarrow> op_result" where
  "op_else st = (case vfExec st of [] \<Rightarrow> (False, st) | f # fs \<Rightarrow> (True, st\<lparr>vfExec := (\<not> f) # fs\<rparr>))"

definition op_endif :: "eval_state \<Rightarrow> op_result" where
  "op_endif st = (case vfExec st of [] \<Rightarrow> (False, st) | f # fs \<Rightarrow> (True, st\<lparr>vfExec := fs\<rparr>))"

definition op_verify :: "eval_state \<Rightarrow> op_result" where
  "op_verify st = (case stack st of
     [] \<Rightarrow> (False, st)
   | vch # s \<Rightarrow> if CastToBool vch then (True, st\<lparr>stack := s\<rparr>) else (False, st))"

section \<open>Stack operations\<close>

definition op_toaltstack :: "eval_state \<Rightarrow> op_result" where
  "op_toaltstack st = (case stack st of
     [] \<Rightarrow> (False, st) | vch # s \<Rightarrow> (True, st\<lparr>altstack := vch # altstack st, stack := s\<rparr>))"

definition op_fromaltstack :: "eval_state \<Rightarrow> op_result" where
  "op_fromaltstack st = (case altstack st of
     [] \<Rightarrow> (False, st) | vch # a \<Rightarrow> (True, st\<lparr>stack := vch # stack st, altstack := a\<rparr>))"

text \<open>The operations that only rearrange the stack; \<open>None\<close> is a stack that is too small.\<close>

definition stack_op :: "opcodetype \<Rightarrow> valtype list \<Rightarrow> valtype list option" where
  "stack_op opcode stk =
    (if opcode = OP_2DROP then (case stk of x2 # x1 # s \<Rightarrow> Some s | _ \<Rightarrow> None)
     else if opcode = OP_2DUP then (case stk of x2 # x1 # s \<Rightarrow> Some (x2 # x1 # x2 # x1 # s) | _ \<Rightarrow> None)
     else if opcode = OP_3DUP then
       (case stk of x3 # x2 # x1 # s \<Rightarrow> Some (x3 # x2 # x1 # x3 # x2 # x1 # s) | _ \<Rightarrow> None)
     else if opcode = OP_2OVER then
       (case stk of x4 # x3 # x2 # x1 # s \<Rightarrow> Some (x2 # x1 # x4 # x3 # x2 # x1 # s) | _ \<Rightarrow> None)
     else if opcode = OP_2ROT then
       (case stk of x6 # x5 # x4 # x3 # x2 # x1 # s \<Rightarrow> Some (x2 # x1 # x6 # x5 # x4 # x3 # s) | _ \<Rightarrow> None)
     else if opcode = OP_2SWAP then
       (case stk of x4 # x3 # x2 # x1 # s \<Rightarrow> Some (x2 # x1 # x4 # x3 # s) | _ \<Rightarrow> None)
     else if opcode = OP_IFDUP then
       (case stk of vch # s \<Rightarrow> Some (if CastToBool vch then vch # vch # s else vch # s) | _ \<Rightarrow> None)
     else if opcode = OP_DEPTH then Some (bn_getvch (int (length stk)) # stk)
     else if opcode = OP_DROP then (case stk of x # s \<Rightarrow> Some s | _ \<Rightarrow> None)
     else if opcode = OP_DUP then (case stk of x # s \<Rightarrow> Some (x # x # s) | _ \<Rightarrow> None)
     else if opcode = OP_NIP then (case stk of x2 # x1 # s \<Rightarrow> Some (x2 # s) | _ \<Rightarrow> None)
     else if opcode = OP_OVER then (case stk of x2 # x1 # s \<Rightarrow> Some (x1 # x2 # x1 # s) | _ \<Rightarrow> None)
     else if opcode = OP_ROT then (case stk of x3 # x2 # x1 # s \<Rightarrow> Some (x1 # x3 # x2 # s) | _ \<Rightarrow> None)
     else if opcode = OP_SWAP then (case stk of x2 # x1 # s \<Rightarrow> Some (x1 # x2 # s) | _ \<Rightarrow> None)
     else if opcode = OP_TUCK then (case stk of x2 # x1 # s \<Rightarrow> Some (x2 # x1 # x2 # s) | _ \<Rightarrow> None)
     else (case stk of x # s \<Rightarrow> Some (bn_getvch (int (length x)) # x # s) | _ \<Rightarrow> None))"

definition stack_ops :: "opcodetype list" where
  "stack_ops = [OP_2DROP, OP_2DUP, OP_3DUP, OP_2OVER, OP_2ROT, OP_2SWAP, OP_IFDUP, OP_DEPTH, OP_DROP, OP_DUP,
     OP_NIP, OP_OVER, OP_ROT, OP_SWAP, OP_TUCK, OP_SIZE]"

definition op_stack :: "opcodetype \<Rightarrow> eval_state \<Rightarrow> op_result" where
  "op_stack opcode st = (case stack_op opcode (stack st) of
     None \<Rightarrow> (False, st) | Some s \<Rightarrow> (True, st\<lparr>stack := s\<rparr>))"

definition op_pick :: "opcodetype \<Rightarrow> eval_state \<Rightarrow> op_result" where
  "op_pick opcode st =
     (if length (stack st) < 2 then (False, st)
      else case CastToBigNum (hd (stack st)) of
        Inl _ \<Rightarrow> (False, st)
      | Inr bn \<Rightarrow>
          (let n = bn_getint bn; s = tl (stack st); st1 = st\<lparr>stack := s\<rparr> in
           if n < 0 \<or> n \<ge> int (length s) then (False, st1)
           else let i = nat n; vch = s ! i;
                    s' = (if opcode = OP_ROLL then take i s @ drop (Suc i) s else s)
                in (True, st1\<lparr>stack := vch # s'\<rparr>)))"

section \<open>Logic and arithmetic\<close>

definition op_equal :: "opcodetype \<Rightarrow> eval_state \<Rightarrow> op_result" where
  "op_equal opcode st = (case stack st of
     vch2 # vch1 # s \<Rightarrow>
       (let fEqual = (vch1 = vch2) in
        if opcode = OP_EQUALVERIFY then
          (if fEqual then (True, st\<lparr>stack := s\<rparr>) else (False, st\<lparr>stack := vchFalse # s\<rparr>))
        else (True, st\<lparr>stack := bool_val fEqual # s\<rparr>))
   | _ \<Rightarrow> (False, st))"

definition num_unary :: "opcodetype \<Rightarrow> int \<Rightarrow> int" where
  "num_unary opcode bn =
     (if opcode = OP_1ADD then bn + 1
      else if opcode = OP_1SUB then bn - 1
      else if opcode = OP_NEGATE then bn_neg bn
      else if opcode = OP_ABS then (if bn < 0 then bn_neg bn else bn)
      else if opcode = OP_NOT then of_bool (bn = 0)
      else of_bool (bn \<noteq> 0))"

definition op_unary :: "opcodetype \<Rightarrow> eval_state \<Rightarrow> op_result" where
  "op_unary opcode st = (case stack st of
     [] \<Rightarrow> (False, st)
   | vch # s \<Rightarrow> (case CastToBigNum vch of
       Inl _ \<Rightarrow> (False, st)
     | Inr bn \<Rightarrow> (True, st\<lparr>stack := bn_getvch (num_unary opcode bn) # s\<rparr>)))"

definition num_binary :: "opcodetype \<Rightarrow> int \<Rightarrow> int \<Rightarrow> int" where
  "num_binary opcode bn1 bn2 =
     (if opcode = OP_ADD then bn1 + bn2
      else if opcode = OP_SUB then bn1 - bn2
      else if opcode = OP_BOOLAND then of_bool (bn1 \<noteq> 0 \<and> bn2 \<noteq> 0)
      else if opcode = OP_BOOLOR then of_bool (bn1 \<noteq> 0 \<or> bn2 \<noteq> 0)
      else if opcode = OP_NUMEQUAL then of_bool (bn1 = bn2)
      else if opcode = OP_NUMEQUALVERIFY then of_bool (bn1 = bn2)
      else if opcode = OP_NUMNOTEQUAL then of_bool (bn1 \<noteq> bn2)
      else if opcode = OP_LESSTHAN then of_bool (bn1 < bn2)
      else if opcode = OP_GREATERTHAN then of_bool (bn1 > bn2)
      else if opcode = OP_LESSTHANOREQUAL then of_bool (bn1 \<le> bn2)
      else if opcode = OP_GREATERTHANOREQUAL then of_bool (bn1 \<ge> bn2)
      else if opcode = OP_MIN then (if bn1 < bn2 then bn1 else bn2)
      else (if bn1 > bn2 then bn1 else bn2))"

definition op_binary :: "opcodetype \<Rightarrow> eval_state \<Rightarrow> op_result" where
  "op_binary opcode st = (case stack st of
     vch2 # vch1 # s \<Rightarrow> (case CastToBigNum vch1 of
       Inl _ \<Rightarrow> (False, st)
     | Inr bn1 \<Rightarrow> (case CastToBigNum vch2 of
         Inl _ \<Rightarrow> (False, st)
       | Inr bn2 \<Rightarrow>
           (let r = bn_getvch (num_binary opcode bn1 bn2); st1 = st\<lparr>stack := r # s\<rparr> in
            if opcode = OP_NUMEQUALVERIFY then
              (if CastToBool r then (True, st\<lparr>stack := s\<rparr>) else (False, st1))
            else (True, st1))))
   | _ \<Rightarrow> (False, st))"

definition op_within :: "eval_state \<Rightarrow> op_result" where
  "op_within st = (case stack st of
     vch3 # vch2 # vch1 # s \<Rightarrow> (case CastToBigNum vch1 of
       Inl _ \<Rightarrow> (False, st)
     | Inr bn1 \<Rightarrow> (case CastToBigNum vch2 of
         Inl _ \<Rightarrow> (False, st)
       | Inr bn2 \<Rightarrow> (case CastToBigNum vch3 of
           Inl _ \<Rightarrow> (False, st)
         | Inr bn3 \<Rightarrow> (True, st\<lparr>stack := bool_val (bn2 \<le> bn1 \<and> bn1 < bn3) # s\<rparr>))))
   | _ \<Rightarrow> (False, st))"

definition unary_ops :: "opcodetype list" where
  "unary_ops = [OP_1ADD, OP_1SUB, OP_NEGATE, OP_ABS, OP_NOT, OP_0NOTEQUAL]"

definition binary_ops :: "opcodetype list" where
  "binary_ops = [OP_ADD, OP_SUB, OP_BOOLAND, OP_BOOLOR, OP_NUMEQUAL, OP_NUMEQUALVERIFY, OP_NUMNOTEQUAL, OP_LESSTHAN,
     OP_GREATERTHAN, OP_LESSTHANOREQUAL, OP_GREATERTHANOREQUAL, OP_MIN, OP_MAX]"

section \<open>Hashes and signatures\<close>

definition op_hash_value :: "digests \<Rightarrow> opcodetype \<Rightarrow> valtype \<Rightarrow> valtype" where
  "op_hash_value D opcode vch =
     (if opcode = OP_RIPEMD160 then RIPEMD160 D vch
      else if opcode = OP_SHA1 then SHA1 D vch
      else if opcode = OP_SHA256 then SHA256 D vch
      else if opcode = OP_HASH160 then image160 (Hash160 D vch)
      else image256 (Hash D vch))"

definition op_hash_ops :: "opcodetype list" where
  "op_hash_ops = [OP_RIPEMD160, OP_SHA1, OP_SHA256, OP_HASH160, OP_HASH256]"

definition op_digest :: "digests \<Rightarrow> opcodetype \<Rightarrow> eval_state \<Rightarrow> op_result" where
  "op_digest D opcode st = (case stack st of
     [] \<Rightarrow> (False, st) | vch # s \<Rightarrow> (True, st\<lparr>stack := op_hash_value D opcode vch # s\<rparr>))"

text \<open>The check of one signature, after the test of its encoding where the flags ask for it.\<close>

definition check_one :: "'p eval_ctx \<Rightarrow> CScript \<Rightarrow> valtype \<Rightarrow> valtype \<Rightarrow> CSignatureCache \<Rightarrow> bool \<times> CSignatureCache" where
  "check_one cx scriptCode vchSig vchPubKey c =
     (if cx_flags cx AND SCRIPT_VERIFY_STRICTENC = 0 \<or> IsCanonicalSignature vchSig \<and> IsCanonicalPubKey vchPubKey
      then CheckSig (cx_env cx) vchSig vchPubKey scriptCode (cx_txTo cx) (cx_nIn cx) (cx_nHashType cx) (cx_flags cx) c
      else (False, c))"

definition op_checksig :: "'p eval_ctx \<Rightarrow> opcodetype \<Rightarrow> eval_state \<Rightarrow> op_result" where
  "op_checksig cx opcode st = (case stack st of
     vchPubKey # vchSig # s \<Rightarrow>
       (let scriptCode = snd (FindAndDelete (push_data vchSig) (pbegincodehash st));
            (fSuccess, c) = check_one cx scriptCode vchSig vchPubKey (sigcache st);
            st1 = st\<lparr>sigcache := c\<rparr> in
        if opcode = OP_CHECKSIGVERIFY then
          (if fSuccess then (True, st1\<lparr>stack := s\<rparr>) else (False, st1\<lparr>stack := vchFalse # s\<rparr>))
        else (True, st1\<lparr>stack := bool_val fSuccess # s\<rparr>))
   | _ \<Rightarrow> (False, st))"

text \<open>
  The loop of \<^verbatim>\<open>OP_CHECKMULTISIG\<close> over the signatures and keys that are left, in the order of the
  stack; it never runs out of keys, because it stops when more signatures than keys are left.
\<close>

fun multisig_loop :: "(valtype \<Rightarrow> valtype \<Rightarrow> CSignatureCache \<Rightarrow> bool \<times> CSignatureCache) \<Rightarrow> valtype list \<Rightarrow> valtype list \<Rightarrow>
    CSignatureCache \<Rightarrow> bool \<times> CSignatureCache" where
  "multisig_loop check [] keys c = (True, c)"
| "multisig_loop check (sig # sigs) [] c = (False, c)"
| "multisig_loop check (sig # sigs) (key # keys) c =
     (let (fOk, c') = check sig key c;
          left = (if fOk then sigs else sig # sigs) in
      if length left > length keys then (False, c') else multisig_loop check left keys c')"

text \<open>
  The arguments on the stack: the operation count afterwards, and the keys, the signatures and the
  stack below the extra value, or \<open>None\<close> where one of the checks fails.
\<close>

definition multisig_args :: "nat \<Rightarrow> valtype list \<Rightarrow> nat \<times> (valtype list \<times> valtype list \<times> valtype list) option" where
  "multisig_args nOp stk =
     (if length stk < 1 then (nOp, None)
      else case CastToBigNum (stk ! 0) of
        Inl _ \<Rightarrow> (nOp, None)
      | Inr bn \<Rightarrow>
          let nKeysCount = bn_getint bn in
          if nKeysCount < 0 \<or> nKeysCount > 20 then (nOp, None)
          else let nKeys = nat nKeysCount; nOp = nOp + nKeys in
          if nOp > 201 then (nOp, None)
          else if length stk < 2 + nKeys then (nOp, None)
          else case CastToBigNum (stk ! (1 + nKeys)) of
            Inl _ \<Rightarrow> (nOp, None)
          | Inr bn2 \<Rightarrow>
              let nSigsCount = bn_getint bn2 in
              if nSigsCount < 0 \<or> nSigsCount > nKeysCount then (nOp, None)
              else let nSigs = nat nSigsCount; i = 3 + nKeys + nSigs in
              if length stk < i then (nOp, None)
              else (nOp, Some (take nKeys (drop 1 stk), take nSigs (drop (2 + nKeys) stk), drop i stk)))"

definition op_checkmultisig :: "'p eval_ctx \<Rightarrow> opcodetype \<Rightarrow> eval_state \<Rightarrow> op_result" where
  "op_checkmultisig cx opcode st =
     (let (nOp, args) = multisig_args (nOpCount st) (stack st); st1 = st\<lparr>nOpCount := nOp\<rparr> in
      case args of
        None \<Rightarrow> (False, st1)
      | Some (keys, sigs, s) \<Rightarrow>
          (let scriptCode = fold (\<lambda>vchSig code. snd (FindAndDelete (push_data vchSig) code)) sigs (pbegincodehash st);
               (fSuccess, c) = multisig_loop (check_one cx scriptCode) sigs keys (sigcache st);
               st2 = st1\<lparr>sigcache := c\<rparr> in
           if opcode = OP_CHECKMULTISIGVERIFY then
             (if fSuccess then (True, st2\<lparr>stack := s\<rparr>) else (False, st2\<lparr>stack := vchFalse # s\<rparr>))
           else (True, st2\<lparr>stack := bool_val fSuccess # s\<rparr>)))"

section \<open>The interpreter\<close>

definition push_value_ops :: "opcodetype list" where
  "push_value_ops = [OP_1NEGATE, OP_1, OP_2, OP_3, OP_4, OP_5, OP_6, OP_7, OP_8, OP_9, OP_10, OP_11, OP_12, OP_13, OP_14,
     OP_15, OP_16]"

definition nop_ops :: "opcodetype list" where
  "nop_ops = [OP_NOP, OP_NOP1, OP_NOP2, OP_NOP3, OP_NOP4, OP_NOP5, OP_NOP6, OP_NOP7, OP_NOP8, OP_NOP9, OP_NOP10]"

definition disabled_ops :: "opcodetype list" where
  "disabled_ops = [OP_CAT, OP_SUBSTR, OP_LEFT, OP_RIGHT, OP_INVERT, OP_AND, OP_OR, OP_XOR, OP_2MUL, OP_2DIV, OP_MUL, OP_DIV,
     OP_MOD, OP_LSHIFT, OP_RSHIFT]"

text \<open>The switch; \<open>pc\<close> is the iterator behind the instruction.\<close>

definition eval_op :: "'p eval_ctx \<Rightarrow> bool \<Rightarrow> opcodetype \<Rightarrow> CScript \<Rightarrow> eval_state \<Rightarrow> op_result" where
  "eval_op cx fExec opcode pc st =
     (if opcode \<in> set push_value_ops then op_push_value opcode st
      else if opcode \<in> set nop_ops then (True, st)
      else if opcode = OP_IF \<or> opcode = OP_NOTIF then op_if fExec opcode st
      else if opcode = OP_ELSE then op_else st
      else if opcode = OP_ENDIF then op_endif st
      else if opcode = OP_VERIFY then op_verify st
      else if opcode = OP_RETURN then (False, st)
      else if opcode = OP_TOALTSTACK then op_toaltstack st
      else if opcode = OP_FROMALTSTACK then op_fromaltstack st
      else if opcode \<in> set stack_ops then op_stack opcode st
      else if opcode = OP_PICK \<or> opcode = OP_ROLL then op_pick opcode st
      else if opcode = OP_EQUAL \<or> opcode = OP_EQUALVERIFY then op_equal opcode st
      else if opcode \<in> set unary_ops then op_unary opcode st
      else if opcode \<in> set binary_ops then op_binary opcode st
      else if opcode = OP_WITHIN then op_within st
      else if opcode \<in> set op_hash_ops then op_digest (env_digests (cx_env cx)) opcode st
      else if opcode = OP_CODESEPARATOR then (True, st\<lparr>pbegincodehash := pc\<rparr>)
      else if opcode = OP_CHECKSIG \<or> opcode = OP_CHECKSIGVERIFY then op_checksig cx opcode st
      else if opcode = OP_CHECKMULTISIG \<or> opcode = OP_CHECKMULTISIGVERIFY then op_checkmultisig cx opcode st
      else (False, st))"

text \<open>The push, the switch, or nothing in a branch that is not executed.\<close>

definition eval_instr :: "'p eval_ctx \<Rightarrow> bool \<Rightarrow> opcodetype \<Rightarrow> valtype \<Rightarrow> CScript \<Rightarrow> eval_state \<Rightarrow> op_result" where
  "eval_instr cx fExec opcode vchPushValue pc st =
     (if fExec \<and> opcode \<le> OP_PUSHDATA4 then (True, st\<lparr>stack := vchPushValue # stack st\<rparr>)
      else if fExec \<or> OP_IF \<le> opcode \<and> opcode \<le> OP_ENDIF then eval_op cx fExec opcode pc st
      else (True, st))"

text \<open>One turn of the loop on an instruction that was read: the limits, the instruction, the size check.\<close>

definition count_op :: "opcodetype \<Rightarrow> eval_state \<Rightarrow> eval_state" where
  "count_op opcode st = (if opcode > OP_16 then st\<lparr>nOpCount := nOpCount st + 1\<rparr> else st)"

definition eval_step :: "'p eval_ctx \<Rightarrow> opcodetype \<Rightarrow> valtype \<Rightarrow> CScript \<Rightarrow> eval_state \<Rightarrow> op_result" where
  "eval_step cx opcode vchPushValue pc st =
     (let fExec = (False \<notin> set (vfExec st)) in
      if length vchPushValue > MAX_SCRIPT_ELEMENT_SIZE then (False, st)
      else let st1 = count_op opcode st in
      if opcode > OP_16 \<and> nOpCount st1 > 201 then (False, st1)
      else if opcode \<in> set disabled_ops then (False, st1)
      else let (fOk, st2) = eval_instr cx fExec opcode vchPushValue pc st1 in
      if \<not> fOk then (False, st2)
      else if length (stack st2) + length (altstack st2) > 1000 then (False, st2)
      else (True, st2))"

function eval_loop :: "'p eval_ctx \<Rightarrow> CScript \<Rightarrow> eval_state \<Rightarrow> op_result" where
  "eval_loop cx pc st =
     (if pc = [] then (True, st)
      else case GetOp2 pc of
        (False, _, _, _) \<Rightarrow> (False, st)
      | (True, opcode, vchPushValue, pc') \<Rightarrow>
          (case eval_step cx opcode vchPushValue pc' st of
             (False, st') \<Rightarrow> (False, st')
           | (True, st') \<Rightarrow> eval_loop cx pc' st'))"
  by auto
termination
  by (relation "measure (\<lambda>(cx, pc, st). length pc)") (auto dest!: GetOp2_shorter [OF sym])

declare eval_loop.simps [simp del]

text \<open>The verdict, the stack and the signature cache after \<^verbatim>\<open>EvalScript\<close>.\<close>

definition EvalScript :: "'p eval_ctx \<Rightarrow> valtype list \<Rightarrow> CScript \<Rightarrow> CSignatureCache \<Rightarrow> bool \<times> valtype list \<times> CSignatureCache" where
  "EvalScript cx stk script c =
     (if length script > 10000 then (False, stk, c)
      else let (fOk, st) = eval_loop cx script
                 \<lparr>stack = stk, altstack = [], vfExec = [], nOpCount = 0, pbegincodehash = script, sigcache = c\<rparr>
           in (fOk \<and> vfExec st = [], stack st, sigcache st))"

section \<open>Verification of a spend\<close>

definition VerifyScript :: "'p script_env \<Rightarrow> CScript \<Rightarrow> CScript \<Rightarrow> CTransaction \<Rightarrow> nat \<Rightarrow> nat \<Rightarrow> int \<Rightarrow> CSignatureCache \<Rightarrow>
    (bool \<times> CSignatureCache) res" where
  "VerifyScript env sigScript pubKeyScript txTo nIn flags nHashType c =
     (let cx = \<lparr>cx_env = env, cx_txTo = txTo, cx_nIn = nIn, cx_flags = flags, cx_nHashType = nHashType\<rparr>;
          (ok1, stack1, c1) = EvalScript cx [] sigScript c in
      if \<not> ok1 then Inr (False, c1)
      else let (ok2, stack2, c2) = EvalScript cx stack1 pubKeyScript c1 in
      if \<not> ok2 then Inr (False, c2)
      else case stack2 of
        [] \<Rightarrow> Inr (False, c2)
      | back # _ \<Rightarrow>
          if \<not> CastToBool back then Inr (False, c2)
          else if flags AND SCRIPT_VERIFY_P2SH \<noteq> 0 \<and> IsPayToScriptHash pubKeyScript then
            (if \<not> IsPushOnly sigScript then Inr (False, c2)
             else case stack1 of
               [] \<Rightarrow> Inl Assert_failed
             | pubKey2 # stackCopy \<Rightarrow>
                 (let (ok3, stack3, c3) = EvalScript cx stackCopy pubKey2 c2 in
                  if \<not> ok3 then Inr (False, c3)
                  else case stack3 of [] \<Rightarrow> Inr (False, c3) | top3 # _ \<Rightarrow> Inr (CastToBool top3, c3)))
          else Inr (True, c2))"

section \<open>Reference definitions\<close>

definition sig_ok :: "'p eval_ctx \<Rightarrow> CScript \<Rightarrow> valtype \<Rightarrow> valtype \<Rightarrow> bool" where
  "sig_ok cx scriptCode vchSig vchPubKey \<longleftrightarrow>
     (cx_flags cx AND SCRIPT_VERIFY_STRICTENC = 0 \<or> IsCanonicalSignature vchSig \<and> IsCanonicalPubKey vchPubKey) \<and>
     sig_accepts (cx_env cx) vchSig vchPubKey scriptCode (cx_txTo cx) (cx_nIn cx) (cx_nHashType cx)"

definition cache_sound :: "'p eval_ctx \<Rightarrow> (eval_state \<Rightarrow> op_result) \<Rightarrow> bool" where
  "cache_sound cx h \<longleftrightarrow> (\<forall>st. \<exists>f s. \<forall>c. sigcache_ok (cx_env cx) c \<longrightarrow>
     (\<exists>c'. sigcache_ok (cx_env cx) c' \<and> h (st\<lparr>sigcache := c\<rparr>) = (f, s\<lparr>sigcache := c'\<rparr>)))"

definition no_cache :: CSignatureCache where
  "no_cache = \<lparr>setValid = [], nRand = 0\<rparr>"

definition run_script :: "'p eval_ctx \<Rightarrow> valtype list \<Rightarrow> CScript \<Rightarrow> valtype list option" where
  "run_script cx stk script = (case EvalScript cx stk script no_cache of (True, stk', _) \<Rightarrow> Some stk' | _ \<Rightarrow> None)"

definition accepts :: "'p eval_ctx \<Rightarrow> valtype list \<Rightarrow> CScript \<Rightarrow> bool" where
  "accepts cx stk script = (case run_script cx stk script of Some (v # s) \<Rightarrow> CastToBool v | _ \<Rightarrow> False)"

definition script_ctx :: "'p script_env \<Rightarrow> CTransaction \<Rightarrow> nat \<Rightarrow> nat \<Rightarrow> int \<Rightarrow> 'p eval_ctx" where
  "script_ctx env tx nIn flags ht = \<lparr>cx_env = env, cx_txTo = tx, cx_nIn = nIn, cx_flags = flags, cx_nHashType = ht\<rparr>"

text \<open>What it means to spend: the two scripts in sequence, and for a script hash the script it is the hash of.\<close>

definition spends :: "'p eval_ctx \<Rightarrow> CScript \<Rightarrow> CScript \<Rightarrow> bool" where
  "spends cx sigScript pubKeyScript \<longleftrightarrow> (case run_script cx [] sigScript of
     None \<Rightarrow> False
   | Some stk \<Rightarrow> accepts cx stk pubKeyScript \<and>
       (cx_flags cx AND SCRIPT_VERIFY_P2SH \<noteq> 0 \<and> IsPayToScriptHash pubKeyScript \<longrightarrow>
          IsPushOnly sigScript \<and> (case stk of [] \<Rightarrow> False | code # stk' \<Rightarrow> accepts cx stk' code)))"

definition small :: "valtype list \<Rightarrow> bool" where
  "small vs \<longleftrightarrow> (\<forall>v\<in>set vs. length v \<le> MAX_SCRIPT_ELEMENT_SIZE)"

definition small_state :: "eval_state \<Rightarrow> bool" where
  "small_state st \<longleftrightarrow> small (stack st) \<and> small (altstack st)"

text \<open>A concrete environment.\<close>

definition toy_env :: "nat script_env" where
  "toy_env = \<lparr>env_digests = toy_digests, env_curve = toy_curve, env_rand = (\<lambda>_. 0), env_maxsigcache = 50000\<rparr>"

section \<open>Lemmas\<close>

lemma check_one_ok:
  assumes "sigcache_ok (cx_env cx) c"
  shows "fst (check_one cx code sig key c) = sig_ok cx code sig key"
    and "sigcache_ok (cx_env cx) (snd (check_one cx code sig key c))"
  using CheckSig_accepts [OF assms] assms by (auto simp: check_one_def sig_ok_def)

lemma matching_Cons:
  "(\<exists>ks. subseq ks (key # keys) \<and> list_all2 P (sig # sigs) ks) \<longleftrightarrow>
   (if P sig key then (\<exists>ks. subseq ks keys \<and> list_all2 P sigs ks)
    else (\<exists>ks. subseq ks keys \<and> list_all2 P (sig # sigs) ks))"
proof (cases "P sig key")
  case True
  have "(\<exists>ks. subseq ks (key # keys) \<and> list_all2 P (sig # sigs) ks) \<longleftrightarrow> (\<exists>ks. subseq ks keys \<and> list_all2 P sigs ks)"
  proof
    assume "\<exists>ks. subseq ks (key # keys) \<and> list_all2 P (sig # sigs) ks"
    then obtain k ks where "subseq (k # ks) (key # keys)" "list_all2 P sigs ks" by (auto simp: list_all2_Cons1)
    then show "\<exists>ks. subseq ks keys \<and> list_all2 P sigs ks"
      by (metis subseq_Cons2_iff subseq_Cons')
  next
    assume "\<exists>ks. subseq ks keys \<and> list_all2 P sigs ks"
    then obtain ks where "subseq ks keys" "list_all2 P sigs ks" by blast
    then show "\<exists>ks. subseq ks (key # keys) \<and> list_all2 P (sig # sigs) ks"
      using True by (intro exI [of _ "key # ks"]) simp
  qed
  with True show ?thesis by simp
next
  case False
  then have "subseq ks (key # keys) \<and> list_all2 P (sig # sigs) ks \<longleftrightarrow> subseq ks keys \<and> list_all2 P (sig # sigs) ks" for ks
    by (cases ks) auto
  with False show ?thesis by simp
qed

lemma matching_length: "subseq ks keys \<Longrightarrow> list_all2 P sigs ks \<Longrightarrow> length sigs \<le> length keys"
  using list_emb_length list_all2_lengthD by fastforce

lemma multisig_loop_matching:
  assumes "\<And>sig key c. good c \<Longrightarrow> fst (check sig key c) = P sig key \<and> good (snd (check sig key c))"
    and "good c"
  shows "(fst (multisig_loop check sigs keys c) \<longleftrightarrow> (\<exists>ks. subseq ks keys \<and> list_all2 P sigs ks)) \<and>
    good (snd (multisig_loop check sigs keys c))"
  using assms
proof (induction check sigs keys c rule: multisig_loop.induct)
  case (1 check keys c)
  then show ?case by auto
next
  case (2 check sig sigs c)
  then show ?case by (auto simp: list_all2_Cons1)
next
  case (3 check sig sigs key keys c)
  obtain f c' where fc: "check sig key c = (f, c')" by fastforce
  with 3(2,3) have f: "f = P sig key" and g: "good c'" by (metis fst_conv, metis snd_conv)
  let ?left = "if f then sigs else sig # sigs"
  have m: "(\<exists>ks. subseq ks (key # keys) \<and> list_all2 P (sig # sigs) ks) \<longleftrightarrow> (\<exists>ks. subseq ks keys \<and> list_all2 P ?left ks)"
    unfolding matching_Cons f by simp
  show ?case
  proof (cases "length ?left > length keys")
    case True
    then have "\<not> (\<exists>ks. subseq ks keys \<and> list_all2 P ?left ks)" using matching_length not_less by blast
    with True m g show ?thesis by (simp add: fc)
  next
    case False
    then show ?thesis unfolding m using 3(1) [OF fc [symmetric] refl refl False 3(2) g] by (simp add: fc)
  qed
qed

lemma CastToBigNum_getvch: "\<bar>n\<bar> < 2 ^ 31 \<Longrightarrow> CastToBigNum (bn_getvch n) = Inr n"
  using length_mpi_encode [of n 3] by (simp add: CastToBigNum_def nMaxNumSize_def length_bn_getvch)

lemma bn_getint_small: "\<bar>n\<bar> < 2 ^ 31 \<Longrightarrow> bn_getint n = n"
  by (cases "n < 0") (auto simp: bn_getint_def bn_get_word_def Let_def nat_less_iff not_less)


lemma drop_length_append: "drop (length xs) (xs @ ys) = ys"
  by simp

lemma count_read: "n \<le> 20 \<Longrightarrow> CastToBigNum (bn_getvch (int n)) = Inr (int n) \<and> bn_getint (int n) = int n"
  by (simp add: CastToBigNum_getvch bn_getint_small)

section \<open>The cache does not matter\<close>

text \<open>
  An operation is \<open>cache_sound\<close> if a sound cache stays sound and influences neither the verdict nor
  the rest of the state.
\<close>

lemma cache_free_sound:
  fixes h :: "eval_state \<Rightarrow> op_result"
  assumes "\<And>c st. h (st\<lparr>sigcache := c\<rparr>) = (fst (h st), (snd (h st))\<lparr>sigcache := c\<rparr>)"
  shows "cache_sound cx h"
  unfolding cache_sound_def
proof
  fix st :: eval_state
  show "\<exists>f s. \<forall>c. sigcache_ok (cx_env cx) c \<longrightarrow> (\<exists>c'. sigcache_ok (cx_env cx) c' \<and> h (st\<lparr>sigcache := c\<rparr>) = (f, s\<lparr>sigcache := c'\<rparr>))"
    proof (intro exI [of _ "fst (h st)"] exI [of _ "snd (h st)"] allI impI)
    fix c
    assume "sigcache_ok (cx_env cx) c"
    then show "\<exists>c'. sigcache_ok (cx_env cx) c' \<and> h (st\<lparr>sigcache := c\<rparr>) = (fst (h st), (snd (h st))\<lparr>sigcache := c'\<rparr>)"
      unfolding assms by blast
  qed
qed

lemma cache_sound_if: "cache_sound cx h \<Longrightarrow> cache_sound cx g \<Longrightarrow> cache_sound cx (\<lambda>st. if b then h st else g st)"
  by (cases b) simp_all

lemma cache_sound_ops:
  "cache_sound cx (op_push_value opcode)" "cache_sound cx (Pair True)" "cache_sound cx (Pair False)" "cache_sound cx (op_if fExec opcode)"
  "cache_sound cx op_else" "cache_sound cx op_endif" "cache_sound cx op_verify" "cache_sound cx op_toaltstack" "cache_sound cx op_fromaltstack"
  "cache_sound cx (op_stack opcode)" "cache_sound cx (op_pick opcode)" "cache_sound cx (op_equal opcode)" "cache_sound cx (op_unary opcode)"
  "cache_sound cx (op_binary opcode)" "cache_sound cx op_within" "cache_sound cx (op_digest D opcode)"
  "cache_sound cx (\<lambda>st. (True, st\<lparr>pbegincodehash := pc\<rparr>))" "cache_sound cx (\<lambda>st. (True, st\<lparr>stack := v # stack st\<rparr>))"
  by (rule cache_free_sound; simp add: op_push_value_def op_if_def op_else_def op_endif_def op_verify_def op_toaltstack_def
      op_fromaltstack_def op_stack_def op_pick_def op_equal_def op_unary_def op_binary_def op_within_def op_digest_def Let_def
      split: list.splits option.splits sum.splits)+

lemma cache_sound_checksig: "cache_sound cx (op_checksig cx opcode)"
  unfolding cache_sound_def
proof
  fix st :: eval_state
  consider (args) k g s where "stack st = k # g # s" | (few) "\<And>k g s. stack st \<noteq> k # g # s" by blast
  then show "\<exists>f s. \<forall>c. sigcache_ok (cx_env cx) c \<longrightarrow>
      (\<exists>c'. sigcache_ok (cx_env cx) c' \<and> op_checksig cx opcode (st\<lparr>sigcache := c\<rparr>) = (f, s\<lparr>sigcache := c'\<rparr>))"
  proof cases
    case args
    let ?code = "snd (FindAndDelete (push_data g) (pbegincodehash st))"
    let ?ok = "sig_ok cx ?code g k"
    let ?v = "if opcode = OP_CHECKSIGVERIFY then (if ?ok then s else vchFalse # s) else bool_val ?ok # s"
    have "\<exists>c'. sigcache_ok (cx_env cx) c' \<and> op_checksig cx opcode (st\<lparr>sigcache := c\<rparr>) =
        (opcode = OP_CHECKSIGVERIFY \<longrightarrow> ?ok, (st\<lparr>stack := ?v\<rparr>)\<lparr>sigcache := c'\<rparr>)"
      if "sigcache_ok (cx_env cx) c" for c
    proof -
      obtain f c' where fc: "check_one cx ?code g k c = (f, c')" by fastforce
      then have "f = ?ok" "sigcache_ok (cx_env cx) c'" using check_one_ok [OF that, of ?code g k] by simp_all
      then show ?thesis by (intro exI [of _ c']) (simp add: op_checksig_def args fc Let_def)
    qed
    then show ?thesis by blast
  next
    case few
    then have "op_checksig cx opcode (st\<lparr>sigcache := c\<rparr>) = (False, st\<lparr>sigcache := c\<rparr>)" for c
      by (auto simp: op_checksig_def split: list.splits)
    then show ?thesis by (intro exI [of _ False] exI [of _ st]) auto
  qed
qed

lemma multisig_loop_sound:
  assumes "sigcache_ok (cx_env cx) c"
  shows "\<exists>c'. sigcache_ok (cx_env cx) c' \<and> multisig_loop (check_one cx code) sigs keys c =
    (\<exists>ks. subseq ks keys \<and> list_all2 (sig_ok cx code) sigs ks, c')"
proof -
  have "(fst (multisig_loop (check_one cx code) sigs keys c) \<longleftrightarrow>
      (\<exists>ks. subseq ks keys \<and> list_all2 (sig_ok cx code) sigs ks)) \<and>
    sigcache_ok (cx_env cx) (snd (multisig_loop (check_one cx code) sigs keys c))"
    by (rule multisig_loop_matching [where good = "sigcache_ok (cx_env cx)"]) (simp_all add: check_one_ok assms)
  then show ?thesis by (intro exI [of _ "snd (multisig_loop (check_one cx code) sigs keys c)"]) (simp add: prod_eq_iff)
qed

lemma cache_sound_checkmultisig: "cache_sound cx (op_checkmultisig cx opcode)"
  unfolding cache_sound_def
proof
  fix st :: eval_state
  obtain nOp args where a: "multisig_args (nOpCount st) (stack st) = (nOp, args)" by fastforce
  let ?st = "st\<lparr>nOpCount := nOp\<rparr>"
  show "\<exists>f s. \<forall>c. sigcache_ok (cx_env cx) c \<longrightarrow>
      (\<exists>c'. sigcache_ok (cx_env cx) c' \<and> op_checkmultisig cx opcode (st\<lparr>sigcache := c\<rparr>) = (f, s\<lparr>sigcache := c'\<rparr>))"
  proof (cases args)
    case None
    then have "op_checkmultisig cx opcode (st\<lparr>sigcache := c\<rparr>) = (False, ?st\<lparr>sigcache := c\<rparr>)" for c
      using a by (simp add: op_checkmultisig_def)
    then show ?thesis by (intro exI [of _ False] exI [of _ ?st]) auto
  next
    case (Some x)
    obtain keys sigs s where x: "x = (keys, sigs, s)" by (rule prod_cases3)
    let ?code = "fold (\<lambda>sig code. snd (FindAndDelete (push_data sig) code)) sigs (pbegincodehash st)"
    let ?ok = "\<exists>ks. subseq ks keys \<and> list_all2 (sig_ok cx ?code) sigs ks"
    let ?v = "if opcode = OP_CHECKMULTISIGVERIFY then (if ?ok then s else vchFalse # s) else bool_val ?ok # s"
    have "\<exists>c'. sigcache_ok (cx_env cx) c' \<and> op_checkmultisig cx opcode (st\<lparr>sigcache := c\<rparr>) =
        (opcode = OP_CHECKMULTISIGVERIFY \<longrightarrow> ?ok, (?st\<lparr>stack := ?v\<rparr>)\<lparr>sigcache := c'\<rparr>)"
      if ok: "sigcache_ok (cx_env cx) c" for c
    proof -
      obtain c' where "sigcache_ok (cx_env cx) c'" "multisig_loop (check_one cx ?code) sigs keys c = (?ok, c')"
        using multisig_loop_sound [OF ok] by blast
      then show ?thesis by (intro exI [of _ c']) (simp add: op_checkmultisig_def a Some x Let_def)
    qed
    then show ?thesis by blast
  qed
qed

lemma cache_sound_eval_op: "cache_sound cx (eval_op cx fExec opcode pc)"
  unfolding eval_op_def [abs_def]
  by (intro cache_sound_if cache_sound_ops cache_sound_checksig cache_sound_checkmultisig)

lemma cache_sound_eval_instr: "cache_sound cx (eval_instr cx fExec opcode v pc)"
  unfolding eval_instr_def [abs_def] by (intro cache_sound_if cache_sound_ops cache_sound_eval_op)

lemma count_op_cache: "count_op opcode (st\<lparr>sigcache := c\<rparr>) = (count_op opcode st)\<lparr>sigcache := c\<rparr>"
  by (simp add: count_op_def)

lemma eval_step_eq:
  "eval_step cx opcode v pc st =
     (if length v > MAX_SCRIPT_ELEMENT_SIZE then (False, st)
      else if opcode > OP_16 \<and> nOpCount (count_op opcode st) > 201 \<or> opcode \<in> set disabled_ops then (False, count_op opcode st)
      else let r = eval_instr cx (False \<notin> set (vfExec st)) opcode v pc (count_op opcode st)
           in (fst r \<and> \<not> length (stack (snd r)) + length (altstack (snd r)) > 1000, snd r))"
  by (simp add: eval_step_def Let_def split: prod.splits)

lemma cache_sound_eval_step: "cache_sound cx (eval_step cx opcode v pc)"
  unfolding cache_sound_def
proof
  fix st :: eval_state
  let ?exec = "False \<notin> set (vfExec st)" and ?st = "count_op opcode st"
  obtain f s where h: "\<forall>c. sigcache_ok (cx_env cx) c \<longrightarrow>
      (\<exists>c'. sigcache_ok (cx_env cx) c' \<and> eval_instr cx ?exec opcode v pc (?st\<lparr>sigcache := c\<rparr>) = (f, s\<lparr>sigcache := c'\<rparr>))"
    using cache_sound_eval_instr [of cx ?exec opcode v pc, unfolded cache_sound_def] by blast
  let ?stop = "length v > MAX_SCRIPT_ELEMENT_SIZE" and ?stop1 = "opcode > OP_16 \<and> nOpCount ?st > 201 \<or> opcode \<in> set disabled_ops"
  show "\<exists>f s. \<forall>c. sigcache_ok (cx_env cx) c \<longrightarrow>
      (\<exists>c'. sigcache_ok (cx_env cx) c' \<and> eval_step cx opcode v pc (st\<lparr>sigcache := c\<rparr>) = (f, s\<lparr>sigcache := c'\<rparr>))"
  proof (cases "?stop \<or> ?stop1")
    case True
    then have "eval_step cx opcode v pc (st\<lparr>sigcache := c\<rparr>) = (False, (if ?stop then st else ?st)\<lparr>sigcache := c\<rparr>)" for c
      unfolding eval_step_eq count_op_cache by auto
    then show ?thesis by (intro exI [of _ False] exI [of _ "if ?stop then st else ?st"]) auto
  next
    case False
    let ?f = "f \<and> \<not> length (stack s) + length (altstack s) > 1000"
    have "\<exists>c'. sigcache_ok (cx_env cx) c' \<and> eval_step cx opcode v pc (st\<lparr>sigcache := c\<rparr>) = (?f, s\<lparr>sigcache := c'\<rparr>)"
      if ok: "sigcache_ok (cx_env cx) c" for c
    proof -
      obtain c' where "sigcache_ok (cx_env cx) c'" "eval_instr cx ?exec opcode v pc (?st\<lparr>sigcache := c\<rparr>) = (f, s\<lparr>sigcache := c'\<rparr>)"
        using h ok by blast
      then show ?thesis using False unfolding eval_step_eq count_op_cache by (intro exI [of _ c']) auto
    qed
    then show ?thesis by blast
  qed
qed

lemma cache_sound_bind:
  assumes "cache_sound cx h" "cache_sound cx g"
  shows "cache_sound cx (\<lambda>st. case h st of (False, st') \<Rightarrow> (False, st') | (True, st') \<Rightarrow> g st')"
  unfolding cache_sound_def
proof
  fix st :: eval_state
  let ?r = "\<lambda>st. case h st of (False, st') \<Rightarrow> (False, st') | (True, st') \<Rightarrow> g st'"
  obtain f s where h: "\<And>c. sigcache_ok (cx_env cx) c \<Longrightarrow>
      \<exists>c'. sigcache_ok (cx_env cx) c' \<and> h (st\<lparr>sigcache := c\<rparr>) = (f, s\<lparr>sigcache := c'\<rparr>)"
    using assms(1) unfolding cache_sound_def by blast
  obtain f' s' where g: "\<And>c. sigcache_ok (cx_env cx) c \<Longrightarrow>
      \<exists>c'. sigcache_ok (cx_env cx) c' \<and> g (s\<lparr>sigcache := c\<rparr>) = (f', s'\<lparr>sigcache := c'\<rparr>)"
    using assms(2) unfolding cache_sound_def by blast
  have "\<exists>c'. sigcache_ok (cx_env cx) c' \<and> ?r (st\<lparr>sigcache := c\<rparr>) = (f \<and> f', (if f then s' else s)\<lparr>sigcache := c'\<rparr>)"
    if ok: "sigcache_ok (cx_env cx) c" for c
  proof -
    obtain c1 where c1: "sigcache_ok (cx_env cx) c1" "h (st\<lparr>sigcache := c\<rparr>) = (f, s\<lparr>sigcache := c1\<rparr>)" using h [OF ok] by blast
    obtain c2 where c2: "sigcache_ok (cx_env cx) c2" "g (s\<lparr>sigcache := c1\<rparr>) = (f', s'\<lparr>sigcache := c2\<rparr>)" using g [OF c1(1)] by blast
    show ?thesis using c1 c2 by (intro exI [of _ "if f then c2 else c1"]) (cases f; simp)
  qed
  then show "\<exists>f s. \<forall>c. sigcache_ok (cx_env cx) c \<longrightarrow> (\<exists>c'. sigcache_ok (cx_env cx) c' \<and> ?r (st\<lparr>sigcache := c\<rparr>) = (f, s\<lparr>sigcache := c'\<rparr>))"
    by blast
qed

lemma cache_sound_eval_loop: "cache_sound cx (eval_loop cx pc)"
proof (induction pc rule: length_induct)
  case (1 pc)
  show ?case
  proof (cases "fst (GetOp2 pc)")
    case False
    then have "eval_loop cx pc = Pair (pc = [])"
      by (intro ext) (subst eval_loop.simps, auto split: prod.splits bool.splits)
    then show ?thesis using cache_sound_ops(2,3) by (cases "pc = []") simp_all
  next
    case True
    then obtain opcode v pc' where g: "GetOp2 pc = (True, opcode, v, pc')" by (cases "GetOp2 pc") auto
    then have "pc \<noteq> []" by auto
    then have e: "eval_loop cx pc st = (case eval_step cx opcode v pc' st of (False, st') \<Rightarrow> (False, st') | (True, st') \<Rightarrow> eval_loop cx pc' st')" for st
      using g by (subst eval_loop.simps) simp
    have IH: "cache_sound cx (eval_loop cx pc')" using 1 GetOp2_shorter [OF g] by blast
    show ?thesis
      unfolding e [abs_def] by (rule cache_sound_bind [OF cache_sound_eval_step IH])
  qed
qed

lemma EvalScript_cache:
  assumes "sigcache_ok (cx_env cx) c"
  shows "\<exists>c'. sigcache_ok (cx_env cx) c' \<and> EvalScript cx stk script c =
    (fst (EvalScript cx stk script \<lparr>setValid = [], nRand = 0\<rparr>), fst (snd (EvalScript cx stk script \<lparr>setValid = [], nRand = 0\<rparr>)), c')"
proof (cases "length script > 10000")
  case True
  then show ?thesis using assms by (intro exI [of _ c]) (simp add: EvalScript_def)
next
  case False
  let ?c0 = "\<lparr>setValid = [], nRand = 0\<rparr>"
  let ?st = "\<lambda>c. \<lparr>stack = stk, altstack = [], vfExec = [], nOpCount = 0, pbegincodehash = script, sigcache = c\<rparr>"
  obtain f s where "\<And>c. sigcache_ok (cx_env cx) c \<Longrightarrow>
      \<exists>c'. sigcache_ok (cx_env cx) c' \<and> eval_loop cx script ((?st ?c0)\<lparr>sigcache := c\<rparr>) = (f, s\<lparr>sigcache := c'\<rparr>)"
    using cache_sound_eval_loop [of cx script, unfolded cache_sound_def] by blast
  then have h: "\<exists>c'. sigcache_ok (cx_env cx) c' \<and> eval_loop cx script (?st c) = (f, s\<lparr>sigcache := c'\<rparr>)"
    if "sigcache_ok (cx_env cx) c" for c
    using that by simp
  have c0: "sigcache_ok (cx_env cx) ?c0" by (simp add: sigcache_ok_def)
  obtain c1 where c1: "eval_loop cx script (?st ?c0) = (f, s\<lparr>sigcache := c1\<rparr>)" using h [OF c0] by blast
  obtain c' where c': "sigcache_ok (cx_env cx) c'" "eval_loop cx script (?st c) = (f, s\<lparr>sigcache := c'\<rparr>)"
    using h [OF assms] by blast
  show ?thesis using False c'(1) unfolding EvalScript_def c'(2) c1 by (intro exI [of _ c']) simp
qed

text \<open>The verdict of \<^verbatim>\<open>EvalScript\<close> and the stack it leaves, from an empty cache.\<close>

lemma EvalScript_run:
  assumes "sigcache_ok (cx_env cx) c"
  obtains c' f s where "sigcache_ok (cx_env cx) c'" "EvalScript cx stk script c = (f, s, c')"
    "run_script cx stk script = (if f then Some s else None)"
proof -
  obtain c' where "sigcache_ok (cx_env cx) c'" "EvalScript cx stk script c =
    (fst (EvalScript cx stk script no_cache), fst (snd (EvalScript cx stk script no_cache)), c')"
    using EvalScript_cache [OF assms, of stk script] unfolding no_cache_def by blast
  then show ?thesis
    by (intro that [of c' "fst (EvalScript cx stk script no_cache)" "fst (snd (EvalScript cx stk script no_cache))"])
       (auto simp: run_script_def split: prod.splits bool.splits)
qed

lemma GetOp2_p2sh:
  assumes "IsPayToScriptHash s"
  shows "GetOp2 s = (True, OP_HASH160, [], tl s)"
  using assms by (cases s) (auto simp: IsPayToScriptHash_def opcodes Let_def)

lemma p2sh_empty_fails:
  assumes "IsPayToScriptHash s"
  shows "run_script cx [] s = None"
proof -
  have "\<not> fst (eval_step cx OP_HASH160 [] pc st)" if "stack st = []" "vfExec st = []" for pc st
    unfolding eval_step_eq
    using that by (simp add: Let_def eval_instr_def eval_op_def op_digest_def count_op_def opcodes push_value_ops_def nop_ops_def
        stack_ops_def unary_ops_def binary_ops_def op_hash_ops_def)
  note n = this
  have f: "\<exists>s'. eval_step cx OP_HASH160 [] pc st = (False, s')" if "stack st = []" "vfExec st = []" for pc st
    using n [OF that, of pc] by (cases "eval_step cx OP_HASH160 [] pc st") auto
  have "s \<noteq> []" using assms by (auto simp: IsPayToScriptHash_def)
  let ?st = "\<lparr>stack = [], altstack = [], vfExec = [], nOpCount = 0, pbegincodehash = s, sigcache = no_cache\<rparr>"
  obtain s' where "eval_step cx OP_HASH160 [] (tl s) ?st = (False, s')" using f [of ?st "tl s"] by auto
  then have "eval_loop cx s ?st = (False, s')"
    using \<open>s \<noteq> []\<close> by (subst eval_loop.simps) (simp add: GetOp2_p2sh [OF assms])
  then show ?thesis by (simp add: run_script_def EvalScript_def)
qed

lemma VerifyScript_spends_aux:
  assumes "sigcache_ok env c"
  shows "\<exists>c'. sigcache_ok env c' \<and>
    VerifyScript env ss sp tx nIn flags ht c = Inr (spends (script_ctx env tx nIn flags ht) ss sp, c')"
proof -
  define cx where "cx = script_ctx env tx nIn flags ht"
  have cx: "\<lparr>cx_env = env, cx_txTo = tx, cx_nIn = nIn, cx_flags = flags, cx_nHashType = ht\<rparr> = cx" "cx_env cx = env" "cx_flags cx = flags"
    by (simp_all add: cx_def script_ctx_def)
  note run = EvalScript_run [where cx = cx, unfolded cx(2)]
  obtain c1 f1 s1 where 1: "sigcache_ok env c1" "EvalScript cx [] ss c = (f1, s1, c1)" "run_script cx [] ss = (if f1 then Some s1 else None)"
    using run [OF assms] by blast
  obtain c2 f2 s2 where 2: "sigcache_ok env c2" "EvalScript cx s1 sp c1 = (f2, s2, c2)" "run_script cx s1 sp = (if f2 then Some s2 else None)"
    using run [OF 1(1)] by blast
  obtain c3 f3 s3 where 3: "sigcache_ok env c3" "EvalScript cx (tl s1) (hd s1) c2 = (f3, s3, c3)"
    "run_script cx (tl s1) (hd s1) = (if f3 then Some s3 else None)"
    using run [OF 2(1)] by blast
  have ne: "IsPayToScriptHash sp \<Longrightarrow> f2 \<Longrightarrow> s1 \<noteq> []" using p2sh_empty_fails [of sp cx] 2(3) by auto
  show ?thesis
    using 1(1) 2(1) 3(1) ne
    unfolding cx_def [symmetric] VerifyScript_def cx Let_def 1(2) prod.case 2(2)
    by (cases s1; cases s2; cases s3) (use 1(3) 2(3) 3(2,3) in \<open>auto simp: spends_def accepts_def cx(3)\<close>)
qed


section \<open>Running concrete scripts\<close>

lemma eval_loop_Nil [simp]: "eval_loop cx [] st = (True, st)"
  by (simp add: eval_loop.simps)

lemma eval_loop_step:
  assumes "GetOp2 pc = (True, opcode, v, pc')"
  shows "eval_loop cx pc st =
    (case eval_step cx opcode v pc' st of (False, st') \<Rightarrow> (False, st') | (True, st') \<Rightarrow> eval_loop cx pc' st')"
proof -
  have "pc \<noteq> []" using assms by auto
  then show ?thesis by (subst eval_loop.simps) (simp add: assms)
qed

lemma eval_loop_push:
  assumes "length b \<le> MAX_SCRIPT_ELEMENT_SIZE" "length b + length r < 2 ^ 32" "False \<notin> set (vfExec st)"
    "length (stack st) + length (altstack st) < 1000"
  shows "eval_loop cx (push_data b @ r) st = eval_loop cx r (st\<lparr>stack := b # stack st\<rparr>)"
proof -
  obtain opcode where o: "opcode \<le> OP_PUSHDATA4" "GetOp2 (push_data b @ r) = (True, opcode, b, r)"
    using GetOp2_push [OF assms(2)] by blast
  then have n: "\<not> opcode > OP_16" "opcode \<notin> set disabled_ops" by (auto simp: opcodes disabled_ops_def)
  have "eval_step cx opcode b r st = (True, st\<lparr>stack := b # stack st\<rparr>)"
    using assms n o(1) by (simp add: eval_step_eq eval_instr_def count_op_def Let_def)
  then show ?thesis unfolding eval_loop_step [OF o(2)] by simp
qed

lemma eval_loop_op:
  assumes "OP_16 < opcode" "opcode < 256" "opcode \<notin> set disabled_ops" "vfExec st = []" "nOpCount st < 201"
    and "eval_op cx True opcode r (st\<lparr>nOpCount := nOpCount st + 1\<rparr>) = (f, st')"
  shows "eval_loop cx (op_byte opcode @ r) st =
    (if f \<and> length (stack st') + length (altstack st') \<le> 1000 then eval_loop cx r st' else (False, st'))"
proof -
  have g: "GetOp2 (op_byte opcode @ r) = (True, opcode, [], r)"
    using assms(1,2) by (simp add: op_byte_def Let_def unat_of_nat opcodes)
  have "eval_step cx opcode [] r st = (f \<and> length (stack st') + length (altstack st') \<le> 1000, st')"
    using assms unfolding eval_step_eq by (simp add: eval_instr_def count_op_def Let_def opcodes not_less)
  then show ?thesis unfolding eval_loop_step [OF g] by (simp split: bool.splits)
qed

lemmas op_lists = push_value_ops_def nop_ops_def stack_ops_def unary_ops_def binary_ops_def op_hash_ops_def disabled_ops_def

lemma eval_op_simps:
  "eval_op cx f OP_DUP pc st = op_stack OP_DUP st"
  "eval_op cx f OP_HASH160 pc st = op_digest (env_digests (cx_env cx)) OP_HASH160 st"
  "eval_op cx f OP_EQUAL pc st = op_equal OP_EQUAL st"
  "eval_op cx f OP_EQUALVERIFY pc st = op_equal OP_EQUALVERIFY st"
  "eval_op cx f OP_CHECKSIG pc st = op_checksig cx OP_CHECKSIG st"
  "eval_op cx f OP_CHECKMULTISIG pc st = op_checkmultisig cx OP_CHECKMULTISIG st"
  by (simp_all add: eval_op_def op_lists opcodes)

lemma CastToBool_bool_val [simp]: "CastToBool (bool_val f) = f"
  by (simp add: bool_val_def vchTrue_def vchFalse_def)

lemma no_cache_ok [simp]: "sigcache_ok env no_cache"
  by (simp add: sigcache_ok_def no_cache_def)

section \<open>Limits\<close>

lemma small_simps [simp]: "small []" "small (v # vs) \<longleftrightarrow> length v \<le> MAX_SCRIPT_ELEMENT_SIZE \<and> small vs"
  "small (xs @ ys) \<longleftrightarrow> small xs \<and> small ys"
  by (auto simp: small_def)

lemma small_sub: "small xs \<Longrightarrow> small (take n xs)" "small xs \<Longrightarrow> small (drop n xs)"
  by (auto simp: small_def dest: in_set_takeD in_set_dropD)

lemma small_nth: "small xs \<Longrightarrow> i < length xs \<Longrightarrow> length (xs ! i) \<le> MAX_SCRIPT_ELEMENT_SIZE"
  by (simp add: small_def)

lemma small_num: "\<bar>n\<bar> < 2 ^ 39 \<Longrightarrow> length (bn_getvch n) \<le> MAX_SCRIPT_ELEMENT_SIZE"
  using length_mpi_encode [of n 4] by (simp add: length_bn_getvch MAX_SCRIPT_ELEMENT_SIZE_def)

lemma abs_mpi_decode: "\<bar>mpi_decode bs\<bar> < 256 ^ length bs"
proof (cases bs)
  case (Cons b cs)
  have "be_val ((b AND 0x7F) # cs) < 256 ^ length bs"
    unfolding be_val_def Cons using le_val_less [of "rev ((b AND 0x7F) # cs)"] by simp
  then have "int (be_val ((b AND 0x7F) # cs)) < 256 ^ length bs" by (metis of_nat_less_iff of_nat_numeral of_nat_power)
  moreover have "\<bar>mpi_decode bs\<bar> = int (be_val ((b AND 0x7F) # cs))"
    unfolding Cons mpi_decode.simps Let_def by (simp del: be_val_simps)
  ultimately show ?thesis by simp
qed simp

lemma CastToBigNum_bound: "CastToBigNum v = Inr n \<Longrightarrow> \<bar>n\<bar> < 2 ^ 32"
proof -
  assume "CastToBigNum v = Inr n"
  then have "n = bn_setvch v" "length v \<le> 4" by (auto simp: CastToBigNum_def nMaxNumSize_def split: if_splits)
  moreover have "\<bar>bn_setvch v\<bar> < 256 ^ length v" using abs_mpi_decode [of "rev v"] by (simp add: bn_setvch_def)
  moreover have "(256::int) ^ length v \<le> 256 ^ 4" using \<open>length v \<le> 4\<close> by (intro power_increasing) simp_all
  ultimately show ?thesis by simp
qed


lemma abs_if_less: "\<bar>x\<bar> < k \<Longrightarrow> \<bar>y\<bar> < k \<Longrightarrow> \<bar>if b then x else y :: int\<bar> < k"
  by simp

lemma abs_of_bool_less: "\<bar>of_bool b :: int\<bar> < 2 ^ 39"
  by simp

lemma num_unary_bound:
  assumes "\<bar>n\<bar> < 2 ^ 32"
  shows "\<bar>num_unary opcode n\<bar> < 2 ^ 39"
  unfolding num_unary_def by (intro abs_if_less abs_of_bool_less) (use assms in \<open>simp_all add: bn_neg_def\<close>)

lemma num_binary_bound:
  assumes "\<bar>n\<bar> < 2 ^ 32" "\<bar>m\<bar> < 2 ^ 32"
  shows "\<bar>num_binary opcode n m\<bar> < 2 ^ 39"
  unfolding num_binary_def by (intro abs_if_less abs_of_bool_less) (use assms in simp_all)

lemma small_consts [simp]:
  "length (bool_val f) \<le> MAX_SCRIPT_ELEMENT_SIZE" "length vchFalse \<le> MAX_SCRIPT_ELEMENT_SIZE"
  by (simp_all add: bool_val_def vchTrue_def vchFalse_def MAX_SCRIPT_ELEMENT_SIZE_def)

lemma small_stack_op:
  assumes "small stk" "length stk \<le> 1000" "stack_op opcode stk = Some stk'"
  shows "small stk'"
proof -
  have d: "length (bn_getvch (int (length stk))) \<le> MAX_SCRIPT_ELEMENT_SIZE"
    using assms(2) by (intro small_num) simp
  have z: "length (bn_getvch (int (length x))) \<le> MAX_SCRIPT_ELEMENT_SIZE" if "length x \<le> MAX_SCRIPT_ELEMENT_SIZE" for x :: valtype
    using that by (intro small_num) (simp add: MAX_SCRIPT_ELEMENT_SIZE_def)
  consider "opcode = OP_2DROP" | "opcode = OP_2DUP" | "opcode = OP_3DUP" | "opcode = OP_2OVER" | "opcode = OP_2ROT" | "opcode = OP_2SWAP" | "opcode = OP_IFDUP" | "opcode = OP_DEPTH" | "opcode = OP_DROP" | "opcode = OP_DUP" | "opcode = OP_NIP" | "opcode = OP_OVER" | "opcode = OP_ROT" | "opcode = OP_SWAP" | "opcode = OP_TUCK"
    | "opcode \<noteq> OP_2DROP \<and> opcode \<noteq> OP_2DUP \<and> opcode \<noteq> OP_3DUP \<and> opcode \<noteq> OP_2OVER \<and> opcode \<noteq> OP_2ROT \<and> opcode \<noteq> OP_2SWAP \<and> opcode \<noteq> OP_IFDUP \<and> opcode \<noteq> OP_DEPTH \<and> opcode \<noteq> OP_DROP \<and> opcode \<noteq> OP_DUP \<and> opcode \<noteq> OP_NIP \<and> opcode \<noteq> OP_OVER \<and> opcode \<noteq> OP_ROT \<and> opcode \<noteq> OP_SWAP \<and> opcode \<noteq> OP_TUCK" by blast
  then show ?thesis
    using assms(1,3) unfolding stack_op_def
    by cases (auto simp: opcodes intro: d z split: list.split_asm if_split_asm)
qed

lemma small_control:
  assumes "small_state st"
  shows "small_state (snd (op_if fExec opcode st))" "small_state (snd (op_else st))" "small_state (snd (op_endif st))"
    "small_state (snd (op_verify st))" "small_state (snd (op_toaltstack st))" "small_state (snd (op_fromaltstack st))"
    "small_state (snd (op_equal opcode st))" "small_state (snd (op_within st))"
  using assms
  by (auto simp: small_state_def op_if_def op_else_def op_endif_def op_verify_def op_toaltstack_def op_fromaltstack_def
      op_equal_def op_within_def Let_def split: list.splits sum.splits)

lemma small_ops:
  assumes "small_state st" "length (stack st) \<le> 1000"
  shows "opcode \<le> OP_16 \<Longrightarrow> small_state (snd (op_push_value opcode st))" "small_state (snd (op_stack opcode st))" 
proof -
  show "small_state (snd (op_push_value opcode st))" if "opcode \<le> OP_16"
    using assms that small_num [of "int opcode - (int OP_1 - 1)"] by (simp add: op_push_value_def small_state_def opcodes)
  show "small_state (snd (op_stack opcode st))"
    using assms small_stack_op by (auto simp: op_stack_def small_state_def split: option.splits)
qed

lemma small_op_pick:
  assumes "small_state st"
  shows "small_state (snd (op_pick opcode st))"
proof -
  have m: "small (tl (stack st))" using assms by (cases "stack st") (simp_all add: small_state_def)
  show ?thesis
    using assms m small_nth [OF m] small_sub [OF m]
    by (auto simp: op_pick_def small_state_def Let_def nat_less_iff split: sum.splits)
qed

lemma small_arith:
  assumes "small_state st"
  shows "small_state (snd (op_unary opcode st))" "small_state (snd (op_binary opcode st))"
proof -
  have 1: "CastToBigNum v = Inr n \<Longrightarrow> length (bn_getvch (num_unary opcode n)) \<le> MAX_SCRIPT_ELEMENT_SIZE" for v n
    by (rule small_num [OF num_unary_bound [OF CastToBigNum_bound]])
  have 2: "CastToBigNum v = Inr n \<Longrightarrow> CastToBigNum w = Inr m \<Longrightarrow> length (bn_getvch (num_binary opcode n m)) \<le> MAX_SCRIPT_ELEMENT_SIZE" for v n w m opcode
    by (rule small_num [OF num_binary_bound [OF CastToBigNum_bound CastToBigNum_bound]])
  show "small_state (snd (op_unary opcode st))"
    using assms by (auto simp: op_unary_def small_state_def dest: 1 split: list.splits sum.splits)
  show "small_state (snd (op_binary opcode st))"
    using assms by (auto simp: op_binary_def small_state_def Let_def intro: 2 split: list.splits sum.splits)
qed

lemma small_digest:
  assumes "small_state st" "digest_laws D" "opcode \<in> set op_hash_ops"
  shows "small_state (snd (op_digest D opcode st))"
  using assms by (auto simp: op_digest_def small_state_def op_hash_value_def op_hash_ops_def digest_laws_def MAX_SCRIPT_ELEMENT_SIZE_def
      split: list.splits)


lemma small_sigops:
  assumes "small_state st"
  shows "small_state (snd (op_checksig cx opcode st))" "small_state (snd (op_checkmultisig cx opcode st))"
proof -
  show "small_state (snd (op_checksig cx opcode st))"
    using assms by (auto simp: op_checksig_def small_state_def Let_def split: list.splits prod.splits)
  have "small s" if "multisig_args nOp (stack st) = (n, Some (keys, sigs, s))" for nOp n keys sigs s
    using that assms small_sub by (auto simp: multisig_args_def small_state_def Let_def split: if_splits sum.splits)
  then show "small_state (snd (op_checkmultisig cx opcode st))"
    using assms by (auto simp: op_checkmultisig_def small_state_def Let_def split: option.splits prod.splits)
qed

lemma small_eval_op:
  assumes "small_state st" "length (stack st) \<le> 1000" "digest_laws (env_digests (cx_env cx))"
  shows "small_state (snd (eval_op cx fExec opcode pc st))"
proof -
  have "opcode \<in> set push_value_ops \<Longrightarrow> opcode \<le> OP_16" by (auto simp: push_value_ops_def opcodes)
  moreover have "small_state (st\<lparr>pbegincodehash := pc\<rparr>)" using assms(1) by (simp add: small_state_def)
  ultimately show ?thesis
    by (simp add: eval_op_def assms(1) small_ops [OF assms(1,2)] small_control [OF assms(1)] small_op_pick [OF assms(1)]
        small_arith [OF assms(1)] small_digest [OF assms(1,3)] small_sigops [OF assms(1)])
qed

lemma small_eval_step:
  assumes "small_state st" "length (stack st) \<le> 1000" "digest_laws (env_digests (cx_env cx))"
  shows "small_state (snd (eval_step cx opcode v pc st))"
    and "fst (eval_step cx opcode v pc st) \<Longrightarrow>
      length (stack (snd (eval_step cx opcode v pc st))) + length (altstack (snd (eval_step cx opcode v pc st))) \<le> 1000"
proof -
  have "small_state (count_op opcode st)" "length (stack (count_op opcode st)) \<le> 1000"
    using assms by (simp_all add: count_op_def small_state_def)
  note c = this
  show "small_state (snd (eval_step cx opcode v pc st))"
    using c assms small_eval_op [OF c assms(3)]
    by (auto simp: eval_step_eq eval_instr_def small_state_def Let_def)
  show "length (stack (snd (eval_step cx opcode v pc st))) + length (altstack (snd (eval_step cx opcode v pc st))) \<le> 1000"
    if "fst (eval_step cx opcode v pc st)"
    using that by (auto simp: eval_step_eq Let_def split: if_splits)
qed

lemma small_eval_loop:
  assumes "digest_laws (env_digests (cx_env cx))"
  shows "small_state st \<Longrightarrow> length (stack st) + length (altstack st) \<le> 1000 \<Longrightarrow>
    small_state (snd (eval_loop cx pc st)) \<and>
    (fst (eval_loop cx pc st) \<longrightarrow> length (stack (snd (eval_loop cx pc st))) \<le> 1000)"
  using assms
proof (induction cx pc st rule: eval_loop.induct)
  case (1 cx pc st)
  show ?case
  proof (cases "fst (GetOp2 pc)")
    case False
    then have "eval_loop cx pc st = (pc = [], st)"
      by (subst eval_loop.simps) (auto split: prod.splits bool.splits)
    then show ?thesis using 1(2,3) by simp
  next
    case True
    then obtain opcode v pc' where g: "GetOp2 pc = (True, opcode, v, pc')" by (cases "GetOp2 pc") auto
    then have "pc \<noteq> []" by auto
    obtain f st' where s: "eval_step cx opcode v pc' st = (f, st')" by fastforce
    have st': "small_state st'" "f \<Longrightarrow> length (stack st') + length (altstack st') \<le> 1000"
      using small_eval_step [OF 1(2) _ 1(4), of opcode v pc'] 1(3) s by auto
    show ?thesis
    proof (cases f)
      case True
      then show ?thesis
        using 1(1) [OF \<open>pc \<noteq> []\<close> g [symmetric] refl refl refl s [symmetric] eqTrueI [OF True] st'(1) st'(2) [OF True] 1(4)]
        unfolding eval_loop_step [OF g] s by simp
    qed (use st'(1) in \<open>simp add: eval_loop_step [OF g] s\<close>)
  qed
qed

text \<open>
  C27. The interpreter's resource limits: from a stack of at most 1000 values of at most 520 bytes,
  \<^verbatim>\<open>EvalScript\<close> never produces a value longer than 520 bytes, whether it succeeds or fails, and a
  stack it accepts has at most 1000 values.
\<close>

theorem EvalScript_limits:
  assumes "digest_laws (env_digests (cx_env cx))" "length stk \<le> 1000" "\<forall>v\<in>set stk. length v \<le> MAX_SCRIPT_ELEMENT_SIZE"
    and "EvalScript cx stk script c = (f, stk', c')"
  shows "(\<forall>v\<in>set stk'. length v \<le> MAX_SCRIPT_ELEMENT_SIZE) \<and> (f \<longrightarrow> length stk' \<le> 1000)"
proof -
  let ?st = "\<lparr>stack = stk, altstack = [], vfExec = [], nOpCount = 0, pbegincodehash = script, sigcache = c\<rparr>"
  have "small_state (snd (eval_loop cx script ?st)) \<and>
    (fst (eval_loop cx script ?st) \<longrightarrow> length (stack (snd (eval_loop cx script ?st))) \<le> 1000)"
    using assms(2,3) by (intro small_eval_loop [OF assms(1)]) (simp_all add: small_state_def small_def)
  then show ?thesis
    using assms(2-4) by (auto simp: EvalScript_def small_state_def small_def split: if_splits prod.splits)
qed

lemma toy_digest_laws: "digest_laws toy_digests"
  by (simp add: digest_laws_def toy_digests_def min_def)

theorem EvalScript_limits_witness:
  fixes cx :: "nat eval_ctx"
  defines "cx \<equiv> script_ctx toy_env CTransaction_null 0 0 0"
  shows "EvalScript cx [[1]] (op_byte OP_DUP) no_cache = (True, [[1], [1]], no_cache) \<and>
    length [1 :: byte] \<le> MAX_SCRIPT_ELEMENT_SIZE"
proof -
  let ?st = "\<lparr>stack = [[1]], altstack = [], vfExec = [], nOpCount = 0, pbegincodehash = op_byte OP_DUP, sigcache = no_cache\<rparr>"
  let ?st' = "?st\<lparr>nOpCount := 1, stack := [[1], [1]]\<rparr>"
  have o: "eval_op cx True OP_DUP [] (?st\<lparr>nOpCount := nOpCount ?st + 1\<rparr>) = (True, ?st')"
    unfolding eval_op_simps by (simp add: op_stack_def stack_op_def opcodes)
  have "eval_loop cx (op_byte OP_DUP @ []) ?st = (True, ?st')"
    by (subst eval_loop_op [OF _ _ _ _ _ o]) (simp_all add: disabled_ops_def opcodes)
  then have e: "EvalScript cx [[1]] (op_byte OP_DUP) no_cache = (True, [[1], [1]], no_cache)"
    by (simp add: EvalScript_def op_byte_def)
  have "digest_laws (env_digests (cx_env cx))" by (simp add: cx_def script_ctx_def toy_env_def toy_digest_laws)
  then show ?thesis using EvalScript_limits [OF _ _ _ e] e by (simp add: MAX_SCRIPT_ELEMENT_SIZE_def)
qed

text \<open>
  C25. Spending an output: with a sound signature cache \<^verbatim>\<open>VerifyScript\<close> never runs into its assertion, keeps
  the cache sound, and its verdict does not depend on the cache: it accepts exactly if the two
  scripts run one after the other leave a true value and, for a pay-to-script-hash output under
  the flag \<^verbatim>\<open>SCRIPT_VERIFY_P2SH\<close>, the input only pushes and the pushed script accepts the values below it.
\<close>

theorem VerifyScript_spends:
  assumes "sigcache_ok env c"
  shows "\<exists>c'. sigcache_ok env c' \<and>
    VerifyScript env ss sp tx nIn flags ht c = Inr (spends (script_ctx env tx nIn flags ht) ss sp, c')"
  by (rule VerifyScript_spends_aux [OF assms])

theorem VerifyScript_spends_witness:
  "\<exists>c'. sigcache_ok toy_env c' \<and> VerifyScript toy_env [0x51] [0x61] CTransaction_null 0 1 0
     \<lparr>setValid = [(7, [3], [4, 3])], nRand = 0\<rparr> = Inr (spends (script_ctx toy_env CTransaction_null 0 1 0) [0x51] [0x61], c')"
  by (rule VerifyScript_spends)
     (simp add: sigcache_ok_def sig_valid_def toy_env_def toy_curve_def SetPubKey_def o2i_ECPublicKey_def CKey_new_def
        EC_KEY_new_def CKey_Verify_def SetCompressedPubKey_def)

text \<open>
  C26. \<^verbatim>\<open>OP_CHECKMULTISIG\<close>: on a stack with \<open>n\<close> keys and \<open>m \<le> n \<le> 20\<close> signatures and a sound signature cache,
  the greedy loop over signatures and keys decides whether the signatures can be matched, in
  order, with distinct keys that accept them; the operation removes all arguments and the extra
  value below them and pushes that verdict.
\<close>

theorem checkmultisig_matching:
  assumes "sigcache_ok (cx_env cx) (sigcache st)" "length keys \<le> 20" "length sigs \<le> length keys"
    and "nOpCount st + length keys \<le> 201"
    and "stack st = bn_getvch (int (length keys)) # keys @ bn_getvch (int (length sigs)) # sigs @ dummy # s"
    and "code = fold (\<lambda>sig code. snd (FindAndDelete (push_data sig) code)) sigs (pbegincodehash st)"
  shows "\<exists>c. sigcache_ok (cx_env cx) c \<and> op_checkmultisig cx OP_CHECKMULTISIG st =
    (True, st\<lparr>nOpCount := nOpCount st + length keys, sigcache := c,
       stack := bool_val (\<exists>ks. subseq ks keys \<and> list_all2 (sig_ok cx code) sigs ks) # s\<rparr>)"
proof -
  obtain f c where fc: "multisig_loop (check_one cx code) sigs keys (sigcache st) = (f, c)" by fastforce
  have "(fst (multisig_loop (check_one cx code) sigs keys (sigcache st)) \<longleftrightarrow>
      (\<exists>ks. subseq ks keys \<and> list_all2 (sig_ok cx code) sigs ks)) \<and>
    sigcache_ok (cx_env cx) (snd (multisig_loop (check_one cx code) sigs keys (sigcache st)))"
    by (rule multisig_loop_matching [where good = "sigcache_ok (cx_env cx)"]) (simp_all add: check_one_ok assms(1))
  then have f: "f = (\<exists>ks. subseq ks keys \<and> list_all2 (sig_ok cx code) sigs ks)" and c: "sigcache_ok (cx_env cx) c"
    by (simp_all add: fc)
  have n: "CastToBigNum (bn_getvch (int (length keys))) = Inr (int (length keys))" "bn_getint (int (length keys)) = int (length keys)"
    "CastToBigNum (bn_getvch (int (length sigs))) = Inr (int (length sigs))" "bn_getint (int (length sigs)) = int (length sigs)"
    using count_read [of "length keys"] count_read [of "length sigs"] assms(2,3) by auto
  have i: "stack st ! 0 = bn_getvch (int (length keys))" "stack st ! (1 + length keys) = bn_getvch (int (length sigs))"
    "take (length keys) (drop 1 (stack st)) = keys" "take (length sigs) (drop (2 + length keys) (stack st)) = sigs"
    "length (stack st) = length keys + length sigs + 3 + length s"
    unfolding assms(5) by (simp_all add: nth_append)
  let ?args = "bn_getvch (int (length keys)) # keys @ bn_getvch (int (length sigs)) # sigs @ [dummy]"
  have l: "length ?args = 3 + length keys + length sigs" and a: "stack st = ?args @ s" by (simp_all add: assms(5))
  have d: "drop (3 + length keys + length sigs) (stack st) = s"
    unfolding l [symmetric] a by (rule drop_length_append)
  have m: "multisig_args (nOpCount st) (stack st) = (nOpCount st + length keys, Some (keys, sigs, s))"
    using assms(2-4) unfolding multisig_args_def Let_def i n sum.case nat_int d by (simp add: i(5))
  have "op_checkmultisig cx OP_CHECKMULTISIG st =
    (True, st\<lparr>nOpCount := nOpCount st + length keys, sigcache := c, stack := bool_val f # s\<rparr>)"
    unfolding op_checkmultisig_def Let_def m prod.case option.case assms(6) [symmetric] fc by (simp add: opcodes)
  then show ?thesis using c unfolding f by blast
qed

theorem checkmultisig_matching_witness:
  fixes cx :: "nat eval_ctx" and st :: eval_state
  defines "cx \<equiv> script_ctx toy_env CTransaction_null 0 0 0"
    and "st \<equiv> \<lparr>stack = bn_getvch 3 # [[2, 5], [2, 6], [2, 7]] @ bn_getvch 2 # [[5, 1], [7, 1]] @ [[]],
        altstack = [], vfExec = [], nOpCount = 0, pbegincodehash = [], sigcache = no_cache\<rparr>"
  shows "\<exists>c. sigcache_ok toy_env c \<and>
    op_checkmultisig cx OP_CHECKMULTISIG st = (True, st\<lparr>nOpCount := 3, sigcache := c, stack := [vchTrue]\<rparr>)"
proof -
  let ?keys = "[[2, 5], [2, 6], [2, 7 :: byte]]" and ?sigs = "[[5, 1], [7, 1 :: byte]]"
  have "subseq [[2, 5], [2, 7]] ?keys \<and> list_all2 (sig_ok cx code) ?sigs [[2, 5], [2, 7]]" for code
    by (simp add: sig_ok_def cx_def script_ctx_def toy_env_def sig_accepts_def sig_valid_def toy_curve_def SetPubKey_def
        o2i_ECPublicKey_def CKey_new_def EC_KEY_new_def CKey_Verify_def)
  then have "(\<exists>ks. subseq ks ?keys \<and> list_all2 (sig_ok cx code) ?sigs ks) = True" for code by blast
  then show ?thesis
    using checkmultisig_matching [of cx st ?keys ?sigs "[]" "[]", OF _ _ _ _ _ refl]
    by (simp add: st_def cx_def script_ctx_def bool_val_def numeral_3_eq_3)
qed

end
