(* ===== verification/Solver.thy ===== *)
theory Solver
  imports ScriptEval
begin

text \<open>
  Standard outputs (\<^verbatim>\<open>src/src/script.cpp\<close> lines 1103 to 1454, 1498 to 1663 and 1722 to 1760): recognising the
  standard scripts, their destinations, ownership, and signing.  Overloads have their own names:
  \<open>Solver\<close> recognises, \<open>Solver_sign\<close> signs; \<open>IsMine_dest\<close> and \<open>IsMine\<close>; \<open>CombineSignatures\<close> and
  \<open>combine_by_type\<close>.  Stacks and solutions are lists; a stack has its top first, a
  vector of solutions is in the order of the vector.
\<close>

section \<open>Output types and destinations\<close>

datatype txnouttype = TX_NONSTANDARD | TX_PUBKEY | TX_PUBKEYHASH | TX_SCRIPTHASH | TX_MULTISIG

datatype CTxDestination = CNoDestination | CKeyID uint160 | CScriptID uint160

fun GetTxnOutputType :: "txnouttype \<Rightarrow> string" where
  "GetTxnOutputType TX_NONSTANDARD = ''nonstandard''"
| "GetTxnOutputType TX_PUBKEY = ''pubkey''"
| "GetTxnOutputType TX_PUBKEYHASH = ''pubkeyhash''"
| "GetTxnOutputType TX_SCRIPTHASH = ''scripthash''"
| "GetTxnOutputType TX_MULTISIG = ''multisig''"

fun CScriptVisitor :: "CTxDestination \<Rightarrow> bool \<times> CScript" where
  "CScriptVisitor CNoDestination = (False, [])"
| "CScriptVisitor (CKeyID keyID) = (True,
     op_byte OP_DUP @ op_byte OP_HASH160 @ push_uint160 keyID @ op_byte OP_EQUALVERIFY @ op_byte OP_CHECKSIG)"
| "CScriptVisitor (CScriptID scriptID) = (True, op_byte OP_HASH160 @ push_uint160 scriptID @ op_byte OP_EQUAL)"

definition SetDestination :: "CTxDestination \<Rightarrow> CScript" where
  "SetDestination dest = snd (CScriptVisitor dest)"

fun push_pubkeys :: "'p curve \<Rightarrow> 'p CKey list \<Rightarrow> CScript \<Rightarrow> CScript res" where
  "push_pubkeys E [] s = Inr s"
| "push_pubkeys E (key # keys) s = rbind (GetPubKey E key) (\<lambda>pk. push_pubkeys E keys (s @ push_data pk))"

definition SetMultisig :: "'p curve \<Rightarrow> int \<Rightarrow> 'p CKey list \<Rightarrow> CScript res" where
  "SetMultisig E nRequired keys =
     rbind (EncodeOP_N nRequired) (\<lambda>m. rbind (push_pubkeys E keys (op_byte m)) (\<lambda>s.
       rbind (EncodeOP_N (int (length keys))) (\<lambda>n. Inr (s @ op_byte n @ op_byte OP_CHECKMULTISIG))))"

section \<open>Recognising standard scripts\<close>

definition mTemplates :: "(txnouttype \<times> CScript) list" where
  "mTemplates =
     [(TX_PUBKEY, op_byte OP_PUBKEY @ op_byte OP_CHECKSIG),
      (TX_PUBKEYHASH, op_byte OP_DUP @ op_byte OP_HASH160 @ op_byte OP_PUBKEYHASH @ op_byte OP_EQUALVERIFY @ op_byte OP_CHECKSIG),
      (TX_MULTISIG, op_byte OP_SMALLINTEGER @ op_byte OP_PUBKEYS @ op_byte OP_SMALLINTEGER @ op_byte OP_CHECKMULTISIG)]"

text \<open>The inner loop for \<^verbatim>\<open>OP_PUBKEYS\<close>: opcode, data, iterator and solutions afterwards.\<close>

function collect_pubkeys :: "opcodetype \<Rightarrow> valtype \<Rightarrow> CScript \<Rightarrow> valtype list \<Rightarrow> opcodetype \<times> valtype \<times> CScript \<times> valtype list" where
  "collect_pubkeys opcode1 vch1 pc1 sols =
     (if length vch1 \<ge> 33 \<and> length vch1 \<le> 120 then
        (case GetOp2 pc1 of
           (True, op, v, pc) \<Rightarrow> collect_pubkeys op v pc (sols @ [vch1])
         | (False, op, v, pc) \<Rightarrow> (op, v, pc, sols @ [vch1]))
      else (opcode1, vch1, pc1, sols))"
  by auto
termination
  by (relation "measure (\<lambda>(op, v, pc, sols). length pc)") (auto dest!: GetOp2_shorter [OF sym])

declare collect_pubkeys.simps [simp del]

text \<open>The comparison of one instruction with the template; \<open>None\<close> is the break out of the loop.\<close>

definition match_op :: "opcodetype \<Rightarrow> valtype \<Rightarrow> opcodetype \<Rightarrow> valtype \<Rightarrow> valtype list \<Rightarrow> valtype list option" where
  "match_op opcode1 vch1 opcode2 vch2 sols =
     (if opcode2 = OP_PUBKEY then
        (if length vch1 < 33 \<or> length vch1 > 120 then None else Some (sols @ [vch1]))
      else if opcode2 = OP_PUBKEYHASH then
        (if length vch1 \<noteq> 20 then None else Some (sols @ [vch1]))
      else if opcode2 = OP_SMALLINTEGER then
        (if opcode1 = OP_0 \<or> opcode1 \<ge> OP_1 \<and> opcode1 \<le> OP_16 then
           (case DecodeOP_N opcode1 of Inr n \<Rightarrow> Some (sols @ [[of_nat n]]) | Inl _ \<Rightarrow> None)
         else None)
      else if opcode1 \<noteq> opcode2 \<or> vch1 \<noteq> vch2 then None
      else Some sols)"

function match_template :: "CScript \<Rightarrow> CScript \<Rightarrow> valtype list \<Rightarrow> valtype list option" where
  "match_template pc1 pc2 sols =
     (if pc1 = [] \<and> pc2 = [] then Some sols
      else case GetOp2 pc1 of
        (False, _, _, _) \<Rightarrow> None
      | (True, opcode1, vch1, pc1') \<Rightarrow>
          (case GetOp2 pc2 of
             (False, _, _, _) \<Rightarrow> None
           | (True, opcode2, vch2, pc2') \<Rightarrow>
               if opcode2 = OP_PUBKEYS then
                 (let (op1, v1, pc1'', sols') = collect_pubkeys opcode1 vch1 pc1' sols in
                  case GetOp2 pc2' of
                    (False, _, _, _) \<Rightarrow> None
                  | (True, op2, v2, pc2'') \<Rightarrow>
                      (case match_op op1 v1 op2 v2 sols' of
                         None \<Rightarrow> None | Some s \<Rightarrow> match_template pc1'' pc2'' s))
               else (case match_op opcode1 vch1 opcode2 vch2 sols of
                       None \<Rightarrow> None | Some s \<Rightarrow> match_template pc1' pc2' s)))"
  by auto
termination
  by (relation "measure (\<lambda>(pc1, pc2, sols). length pc2)") (auto dest!: GetOp2_shorter [OF sym])

declare match_template.simps [simp del]

definition multisig_solution_ok :: "valtype list \<Rightarrow> bool" where
  "multisig_solution_ok sols \<longleftrightarrow>
     (let m = hd (hd sols); n = hd (last sols) in
      \<not> (m < 1 \<or> n < 1 \<or> m > n \<or> length sols - 2 \<noteq> unat n))"

fun scan_templates :: "CScript \<Rightarrow> (txnouttype \<times> CScript) list \<Rightarrow> bool \<times> txnouttype \<times> valtype list" where
  "scan_templates script1 [] = (False, TX_NONSTANDARD, [])"
| "scan_templates script1 ((t, script2) # ts) = (case match_template script1 script2 [] of
     None \<Rightarrow> scan_templates script1 ts
   | Some sols \<Rightarrow> (t = TX_MULTISIG \<longrightarrow> multisig_solution_ok sols, t, sols))"

definition Solver :: "CScript \<Rightarrow> valtype list \<Rightarrow> bool \<times> txnouttype \<times> valtype list" where
  "Solver pubKeyScript vSolutionsRet =
     (if IsPayToScriptHash pubKeyScript
      then (True, TX_SCRIPTHASH, vSolutionsRet @ [take 20 (drop 2 pubKeyScript)])
      else scan_templates pubKeyScript mTemplates)"

definition ScriptSigArgsExpected :: "txnouttype \<Rightarrow> valtype list \<Rightarrow> int" where
  "ScriptSigArgsExpected t vSolutions = (case t of
     TX_NONSTANDARD \<Rightarrow> -1
   | TX_PUBKEY \<Rightarrow> 1
   | TX_PUBKEYHASH \<Rightarrow> 2
   | TX_MULTISIG \<Rightarrow> (case vSolutions of (b # _) # _ \<Rightarrow> int (unat b) + 1 | _ \<Rightarrow> -1)
   | TX_SCRIPTHASH \<Rightarrow> 1)"

definition IsStandard_script :: "CScript \<Rightarrow> bool" where
  "IsStandard_script pubKeyScript = (case Solver pubKeyScript [] of
     (False, _, _) \<Rightarrow> False
   | (True, whichType, vSolutions) \<Rightarrow>
       (if whichType = TX_MULTISIG then
          (let m = hd (hd vSolutions); n = hd (last vSolutions) in
           if n < 1 \<or> n > 3 then False else if m < 1 \<or> m > n then False else True)
        else whichType \<noteq> TX_NONSTANDARD))"

definition ExtractDestination :: "digests \<Rightarrow> CScript \<Rightarrow> CTxDestination option" where
  "ExtractDestination D pubKeyScript = (case Solver pubKeyScript [] of
     (False, _, _) \<Rightarrow> None
   | (True, whichType, vSolutions) \<Rightarrow>
       (if whichType = TX_PUBKEY then Some (CKeyID (CPubKey_GetID D (vSolutions ! 0)))
        else if whichType = TX_PUBKEYHASH then Some (CKeyID (of_image160 (vSolutions ! 0)))
        else if whichType = TX_SCRIPTHASH then Some (CScriptID (of_image160 (vSolutions ! 0)))
        else None))"

text \<open>Success, the type, the addresses and the number of signatures required (\<open>0\<close> where the output argument is not written).\<close>

definition ExtractDestinations :: "digests \<Rightarrow> CScript \<Rightarrow> bool \<times> txnouttype \<times> CTxDestination list \<times> nat" where
  "ExtractDestinations D pubKeyScript = (case Solver pubKeyScript [] of
     (False, t, _) \<Rightarrow> (False, t, [], 0)
   | (True, t, vSolutions) \<Rightarrow>
       (if t = TX_MULTISIG then
          (True, t, map (\<lambda>pk. CKeyID (CPubKey_GetID D pk)) (butlast (tl vSolutions)), unat (hd (hd vSolutions)))
        else case ExtractDestination D pubKeyScript of
          None \<Rightarrow> (False, t, [], 1)
        | Some address \<Rightarrow> (True, t, [address], 1)))"

section \<open>Ownership\<close>

definition HaveKeys :: "digests \<Rightarrow> valtype list \<Rightarrow> CBasicKeyStore \<Rightarrow> nat" where
  "HaveKeys D pubkeys ks = length (filter (\<lambda>pubkey. HaveKey ks (CPubKey_GetID D pubkey)) pubkeys)"

fun IsMine_dest :: "CBasicKeyStore \<Rightarrow> CTxDestination \<Rightarrow> bool" where
  "IsMine_dest ks CNoDestination = False"
| "IsMine_dest ks (CKeyID keyID) = HaveKey ks keyID"
| "IsMine_dest ks (CScriptID scriptID) = HaveCScript ks scriptID"

text \<open>
  The recursion goes through the scripts of the store, which could refer to each other in a
  circle; then the function does not return.
\<close>

partial_function (option) IsMine :: "digests \<Rightarrow> CBasicKeyStore \<Rightarrow> CScript \<Rightarrow> bool option" where
  "IsMine D ks pubKeyScript = (case Solver pubKeyScript [] of (ok, whichType, vSolutions) \<Rightarrow>
     (if \<not> ok then Some False
      else if whichType = TX_PUBKEY then Some (HaveKey ks (CPubKey_GetID D (vSolutions ! 0)))
      else if whichType = TX_PUBKEYHASH then Some (HaveKey ks (of_image160 (vSolutions ! 0)))
      else if whichType = TX_SCRIPTHASH then
        (case GetCScript ks (of_image160 (vSolutions ! 0)) [] of (found, subscript) \<Rightarrow>
           if \<not> found then Some False else IsMine D ks subscript)
      else if whichType = TX_MULTISIG then
        (let keys = butlast (tl vSolutions) in Some (HaveKeys D keys ks = length keys))
      else Some False))"

section \<open>Signing\<close>

definition Sign1 :: "'p curve \<Rightarrow> uint160 \<Rightarrow> CBasicKeyStore \<Rightarrow> uint256 \<Rightarrow> int \<Rightarrow> CScript \<Rightarrow> (bool \<times> CScript) res" where
  "Sign1 E address ks hash nHashType scriptSigRet =
     rbind (GetKey E ks address CKey_new) (\<lambda>(found, key).
       if \<not> found then Inr (False, scriptSigRet)
       else case CKey_Sign E key hash of
         None \<Rightarrow> Inr (False, scriptSigRet)
       | Some vchSig \<Rightarrow> Inr (True, scriptSigRet @ push_data (vchSig @ [word_of_int nHashType])))"

text \<open>The loop of \<^verbatim>\<open>SignN\<close> over the public keys, with the number of signatures still required.\<close>

fun SignN_loop :: "digests \<Rightarrow> 'p curve \<Rightarrow> CBasicKeyStore \<Rightarrow> uint256 \<Rightarrow> int \<Rightarrow> valtype list \<Rightarrow> nat \<Rightarrow> CScript \<Rightarrow> (bool \<times> CScript) res" where
  "SignN_loop D E ks hash nHashType [] nMissing s = Inr (nMissing = 0, s)"
| "SignN_loop D E ks hash nHashType (pubkey # pubkeys) nMissing s =
     (if nMissing = 0 then Inr (True, s)
      else rbind (Sign1 E (CPubKey_GetID D pubkey) ks hash nHashType s) (\<lambda>(signed, s').
        SignN_loop D E ks hash nHashType pubkeys (if signed then nMissing - 1 else nMissing) s'))"

definition SignN :: "digests \<Rightarrow> 'p curve \<Rightarrow> valtype list \<Rightarrow> CBasicKeyStore \<Rightarrow> uint256 \<Rightarrow> int \<Rightarrow> CScript \<Rightarrow> (bool \<times> CScript) res" where
  "SignN D E multisigdata ks hash nHashType s =
     SignN_loop D E ks hash nHashType (butlast (tl multisigdata)) (unat (hd (hd multisigdata))) s"

definition Solver_sign :: "digests \<Rightarrow> 'p curve \<Rightarrow> CBasicKeyStore \<Rightarrow> CScript \<Rightarrow> uint256 \<Rightarrow> int \<Rightarrow>
    (bool \<times> CScript \<times> txnouttype) res" where
  "Solver_sign D E ks pubKeyScript hash nHashType = (case Solver pubKeyScript [] of (ok, t, vSolutions) \<Rightarrow>
     if \<not> ok then Inr (False, [], t)
     else (case t of
       TX_NONSTANDARD \<Rightarrow> Inr (False, [], t)
     | TX_PUBKEY \<Rightarrow> rbind (Sign1 E (CPubKey_GetID D (vSolutions ! 0)) ks hash nHashType []) (\<lambda>(f, s). Inr (f, s, t))
     | TX_PUBKEYHASH \<Rightarrow>
         (let keyID = of_image160 (vSolutions ! 0) in
          rbind (Sign1 E keyID ks hash nHashType []) (\<lambda>(f, s).
            if \<not> f then Inr (False, s, t)
            else rbind (KeyStore_GetPubKey E ks keyID []) (\<lambda>(_, vch). Inr (True, s @ push_data vch, t))))
     | TX_SCRIPTHASH \<Rightarrow> (case GetCScript ks (of_image160 (vSolutions ! 0)) [] of (f, s) \<Rightarrow> Inr (f, s, t))
     | TX_MULTISIG \<Rightarrow> rbind (SignN D E vSolutions ks hash nHashType (op_byte OP_0)) (\<lambda>(f, s). Inr (f, s, t))))"

definition set_scriptSig :: "nat \<Rightarrow> CScript \<Rightarrow> CTransaction \<Rightarrow> CTransaction" where
  "set_scriptSig nIn s tx = tx\<lparr>vin := (vin tx)[nIn := (vin tx ! nIn)\<lparr>scriptSig := s\<rparr>]\<rparr>"

text \<open>The verdict, the transaction with its input signed, and the signature cache.\<close>

definition SignSignature :: "'p script_env \<Rightarrow> CBasicKeyStore \<Rightarrow> CScript \<Rightarrow> CTransaction \<Rightarrow> nat \<Rightarrow> int \<Rightarrow> CSignatureCache \<Rightarrow>
    (bool \<times> CTransaction \<times> CSignatureCache) res" where
  "SignSignature env ks fromPubKey txTo nIn nHashType c =
     (let D = env_digests env; E = env_curve env;
          finish = (\<lambda>tx. rbind (VerifyScript env (scriptSig (vin tx ! nIn)) fromPubKey tx nIn
             (SCRIPT_VERIFY_P2SH OR SCRIPT_VERIFY_STRICTENC) 0 c) (\<lambda>(f, c'). Inr (f, tx, c'))) in
      if \<not> nIn < length (vin txTo) then Inl Assert_failed
      else rbind (Solver_sign D E ks fromPubKey (SignatureHash D fromPubKey txTo nIn nHashType) nHashType)
        (\<lambda>(ok, s, whichType). let tx1 = set_scriptSig nIn s txTo in
           if \<not> ok then Inr (False, tx1, c)
           else if whichType = TX_SCRIPTHASH then
             rbind (Solver_sign D E ks s (SignatureHash D s tx1 nIn nHashType) nHashType)
               (\<lambda>(ok2, s2, subType). let tx2 = set_scriptSig nIn (s2 @ push_data s) tx1 in
                  if \<not> (ok2 \<and> subType \<noteq> TX_SCRIPTHASH) then Inr (False, tx2, c) else finish tx2)
           else finish tx1))"

definition SignSignature_from :: "'p script_env \<Rightarrow> CBasicKeyStore \<Rightarrow> CTransaction \<Rightarrow> CTransaction \<Rightarrow> nat \<Rightarrow> int \<Rightarrow> CSignatureCache \<Rightarrow>
    (bool \<times> CTransaction \<times> CSignatureCache) res" where
  "SignSignature_from env ks txFrom txTo nIn nHashType c =
     (if \<not> nIn < length (vin txTo) then Inl Assert_failed
      else let n = unat (op_n (prevout (vin txTo ! nIn))) in
      if \<not> n < length (vout txFrom) then Inl Assert_failed
      else SignSignature env ks (scriptPubKey (vout txFrom ! n)) txTo nIn nHashType c)"

section \<open>Combining signatures\<close>

definition PushAll :: "valtype list \<Rightarrow> CScript" where
  "PushAll values = concat (map push_data values)"

text \<open>The first key, without a signature so far, that accepts \<open>sig\<close> takes it.\<close>

fun assign_sig :: "(valtype \<Rightarrow> valtype \<Rightarrow> CSignatureCache \<Rightarrow> bool \<times> CSignatureCache) \<Rightarrow> valtype \<Rightarrow> valtype list \<Rightarrow>
    (valtype \<rightharpoonup> valtype) \<times> CSignatureCache \<Rightarrow> (valtype \<rightharpoonup> valtype) \<times> CSignatureCache" where
  "assign_sig chk sig [] (sigs, c) = (sigs, c)"
| "assign_sig chk sig (pubkey # pubkeys) (sigs, c) =
     (if sigs pubkey \<noteq> None then assign_sig chk sig pubkeys (sigs, c)
      else case chk sig pubkey c of
        (True, c') \<Rightarrow> (sigs(pubkey \<mapsto> sig), c')
      | (False, c') \<Rightarrow> assign_sig chk sig pubkeys (sigs, c'))"

definition CombineMultisig :: "'p script_env \<Rightarrow> CScript \<Rightarrow> CTransaction \<Rightarrow> nat \<Rightarrow> valtype list \<Rightarrow> valtype list \<Rightarrow> valtype list \<Rightarrow>
    CSignatureCache \<Rightarrow> (CScript \<times> CSignatureCache) res" where
  "CombineMultisig env pubKeyScript txTo nIn vSolutions sigs1 sigs2 c =
     (let allsigs = sorted_list_of_set (set (filter (\<lambda>v. v \<noteq> []) (sigs1 @ sigs2))) in
      if \<not> length vSolutions > 1 then Inl Assert_failed
      else let nSigsRequired = unat (hd (hd vSolutions));
               pubkeys = butlast (tl vSolutions);
               chk = (\<lambda>sig pubkey. CheckSig env sig pubkey pubKeyScript txTo nIn 0 0);
               (sigs, c') = fold (\<lambda>sig. assign_sig chk sig pubkeys) allsigs (Map.empty, c);
               used = take nSigsRequired (List.map_filter sigs pubkeys)
      in Inr (op_byte OP_0 @ PushAll used @ concat (replicate (nSigsRequired - length used) (op_byte OP_0)), c'))"

function combine_by_type :: "'p script_env \<Rightarrow> CScript \<Rightarrow> CTransaction \<Rightarrow> nat \<Rightarrow> txnouttype \<Rightarrow> valtype list \<Rightarrow> valtype list \<Rightarrow> valtype list \<Rightarrow>
    CSignatureCache \<Rightarrow> (CScript \<times> CSignatureCache) res" where
  "combine_by_type env pubKeyScript txTo nIn txType vSolutions sigs1 sigs2 c = (case txType of
     TX_NONSTANDARD \<Rightarrow> Inr (if length sigs1 \<ge> length sigs2 then PushAll sigs1 else PushAll sigs2, c)
   | TX_PUBKEY \<Rightarrow> Inr (if sigs1 = [] \<or> hd sigs1 = [] then PushAll sigs2 else PushAll sigs1, c)
   | TX_PUBKEYHASH \<Rightarrow> Inr (if sigs1 = [] \<or> hd sigs1 = [] then PushAll sigs2 else PushAll sigs1, c)
   | TX_SCRIPTHASH \<Rightarrow>
       if sigs1 = [] \<or> last sigs1 = [] then Inr (PushAll sigs2, c)
       else if sigs2 = [] \<or> last sigs2 = [] then Inr (PushAll sigs1, c)
       else let spk = last sigs1; (_, txType2, vSolutions2) = Solver spk [] in
         rbind (combine_by_type env spk txTo nIn txType2 vSolutions2 (butlast sigs1) (butlast sigs2) c)
           (\<lambda>(result, c'). Inr (result @ push_data spk, c'))
   | TX_MULTISIG \<Rightarrow> CombineMultisig env pubKeyScript txTo nIn vSolutions sigs1 sigs2 c)"
  by pat_completeness auto
termination
  by (relation "measure (\<lambda>(env, s, tx, n, t, vs, sigs1, sigs2, c). length sigs1)") auto

definition CombineSignatures :: "'p script_env \<Rightarrow> CScript \<Rightarrow> CTransaction \<Rightarrow> nat \<Rightarrow> CScript \<Rightarrow> CScript \<Rightarrow> CSignatureCache \<Rightarrow>
    (CScript \<times> CSignatureCache) res" where
  "CombineSignatures env pubKeyScript txTo nIn scriptSig1 scriptSig2 c =
     (let (_, txType, vSolutions) = Solver pubKeyScript [];
          cx = script_ctx env CTransaction_null 0 SCRIPT_VERIFY_STRICTENC 0;
          (_, stack1, c1) = EvalScript cx [] scriptSig1 c;
          (_, stack2, c2) = EvalScript cx [] scriptSig2 c1
      in combine_by_type env pubKeyScript txTo nIn txType vSolutions (rev stack1) (rev stack2) c2)"

text \<open>What OpenSSL documents of its keys and signatures: encodings are canonical, octets decode to the point they encode, and a signature verifies.\<close>

definition curve_laws :: "'p curve \<Rightarrow> bool" where
  "curve_laws E \<longleftrightarrow>
     (\<forall>p f. EC_POINT_oct2point E (EC_POINT_point2oct E p f) = Some p \<and> IsCanonicalPubKey (EC_POINT_point2oct E p f)) \<and>
     (\<forall>h d s. ECDSA_sign E h d = Some s \<longrightarrow> ECDSA_verify E h s (EC_POINT_mul E d) \<and>
        (\<forall>t\<in>{0x01, 0x02, 0x03, 0x81, 0x82, 0x83}. IsCanonicalSignature (s @ [t])))"

definition der_curve :: "unit curve" where
  "der_curve = \<lparr>EC_POINT_mul = (\<lambda>d. ()), EC_POINT_oct2point = (\<lambda>bs. Some ()),
     EC_POINT_point2oct = (\<lambda>p c. if c then 2 # replicate 32 1 else 4 # replicate 64 1),
     ECDSA_sign = (\<lambda>h d. Some [0x30, 6, 2, 1, 1, 2, 1, 1]), ECDSA_verify = (\<lambda>h s p. s = [0x30, 6, 2, 1, 1, 2, 1, 1])\<rparr>"

definition der_keys :: "unit CKey list" where
  "der_keys = [MakeNewKey der_curve 1 True CKey_new, MakeNewKey der_curve 2 True CKey_new]"

definition der_store :: CBasicKeyStore where
  "der_store = \<lparr>mapKeys = [Hash160 toy_digests (2 # replicate 32 1) \<mapsto> (replicate 32 1, True)], mapScripts = Map.empty\<rparr>"

definition der_env :: "unit script_env" where
  "der_env = \<lparr>env_digests = toy_digests, env_curve = der_curve, env_rand = (\<lambda>_. 0), env_maxsigcache = 5\<rparr>"

definition der_tx :: CTransaction where
  "der_tx = CTransaction_null\<lparr>vin := [\<lparr>prevout = \<lparr>op_hash = 5, op_n = 0\<rparr>, scriptSig = [], nSequence = 0\<rparr>]\<rparr>"

section \<open>Lemmas\<close>

lemma GetOp2_op_byte:
  assumes "OP_PUSHDATA4 < opcode" "opcode < 256"
  shows "GetOp2 (op_byte opcode @ r) = (True, opcode, [], r)" "GetOp2 (op_byte opcode) = (True, opcode, [], [])"
  using assms by (simp_all add: op_byte_def Let_def unat_of_nat)

lemma match_step:
  assumes "GetOp2 pc1 = (True, op1, v1, pc1')" "GetOp2 pc2 = (True, op2, v2, pc2')" "op2 \<noteq> OP_PUBKEYS"
  shows "match_template pc1 pc2 sols =
    (case match_op op1 v1 op2 v2 sols of None \<Rightarrow> None | Some s \<Rightarrow> match_template pc1' pc2' s)"
proof -
  have "pc1 \<noteq> []" using assms by auto
  then show ?thesis using assms by (subst match_template.simps) simp
qed

lemma match_end [simp]: "match_template [] [] sols = Some sols"
  by (simp add: match_template.simps)

lemma p2pkh_script:
  "SetDestination (CKeyID h) =
     op_byte OP_DUP @ op_byte OP_HASH160 @ push_data (image160 h) @ op_byte OP_EQUALVERIFY @ op_byte OP_CHECKSIG"
  by (simp add: SetDestination_def push_uint160_def push_data_def opcodes)

lemma GetOp2_push20:
  assumes "length b = 20" "length r < 2 ^ 31"
  shows "GetOp2 (push_data b @ r) = (True, 20, b, r)"
  using assms by (simp add: push_data_def Let_def push_size_def opcodes)

lemma match_same:
  assumes "OP_PUSHDATA4 < opcode" "opcode < OP_SMALLINTEGER"
  shows "match_template (op_byte opcode @ r1) (op_byte opcode @ r2) sols = match_template r1 r2 sols"
    "match_template (op_byte opcode) (op_byte opcode) sols = Some sols"
proof -
  have o: "opcode < 256" "opcode \<noteq> OP_PUBKEYS" "match_op opcode [] opcode [] sols = Some sols"
    using assms by (simp_all add: match_op_def opcodes)
  note g = GetOp2_op_byte [OF assms(1) o(1)]
  show "match_template (op_byte opcode @ r1) (op_byte opcode @ r2) sols = match_template r1 r2 sols"
    "match_template (op_byte opcode) (op_byte opcode) sols = Some sols"
    using match_step [OF g(1) g(1) o(2)] match_step [OF g(2) g(2) o(2)] o(3) by simp_all
qed

lemma match_hash:
  assumes "length b = 20" "length r1 < 2 ^ 31"
  shows "match_template (push_data b @ r1) (op_byte OP_PUBKEYHASH @ r2) sols = match_template r1 r2 (sols @ [b])"
  by (subst match_step [OF GetOp2_push20 [OF assms] GetOp2_op_byte(1)]) (simp_all add: match_op_def assms opcodes)

lemma plain_ops:
  "opcode \<in> {OP_DUP, OP_HASH160, OP_EQUAL, OP_EQUALVERIFY, OP_CHECKSIG, OP_CHECKMULTISIG} \<Longrightarrow>
     OP_PUSHDATA4 < opcode \<and> opcode < OP_SMALLINTEGER"
  by (auto simp: opcodes)

lemma length_op_byte [simp]: "length (op_byte opcode) = 1"
  by (simp add: op_byte_def)

lemma EncodeOP_N_nat: "n \<le> 16 \<Longrightarrow> EncodeOP_N (int n) = Inr (if n = 0 then 0 else 80 + n)"
  by (auto simp: EncodeOP_N_def opcodes)

lemma GetOp2_small:
  assumes "n \<le> 16"
  shows "GetOp2 (op_byte (if n = 0 then 0 else 80 + n) @ r) = (True, if n = 0 then 0 else 80 + n, [], r)"
  using assms by (simp add: op_byte_def Let_def unat_of_nat push_size_def opcodes)

lemma match_smallint:
  assumes "n \<le> 16"
  shows "match_template (op_byte (if n = 0 then 0 else 80 + n) @ r1) (op_byte OP_SMALLINTEGER @ r2) sols =
    match_template r1 r2 (sols @ [[of_nat n]])"
proof -
  have "match_op (if n = 0 then 0 else 80 + n) [] OP_SMALLINTEGER [] sols = Some (sols @ [[of_nat n]])"
    using assms by (simp add: match_op_def DecodeOP_N_def opcodes)
  then show ?thesis
    by (subst match_step [OF GetOp2_small [OF assms] GetOp2_op_byte(1)]) (simp_all add: opcodes)
qed

lemma collect_pubkeys_all:
  assumes "\<forall>pk \<in> set (pk # pks). 33 \<le> length pk \<and> length pk \<le> 120" "n \<le> 16"
    and "length (concat (map push_data pks)) + length r < 2 ^ 31"
  shows "collect_pubkeys opc pk (concat (map push_data pks) @ op_byte (if n = 0 then 0 else 80 + n) @ r) sols =
    (if n = 0 then 0 else 80 + n, [], r, sols @ pk # pks)"
  using assms(1,3)
proof (induction pks arbitrary: opc pk sols)
  case Nil
  then have "33 \<le> length pk" "length pk \<le> 120" by simp_all
  then show ?case unfolding list.map concat.simps append_Nil
    by (subst collect_pubkeys.simps) (simp only: GetOp2_small [OF assms(2)], subst collect_pubkeys.simps, simp)
next
  case (Cons pk' pks)
  let ?r = "concat (map push_data pks) @ op_byte (if n = 0 then 0 else 80 + n) @ r"
  have "length pk' \<le> 120" using Cons.prems(1) by simp
  then have "length pk' + length ?r < 2 ^ 32" using Cons.prems(2) by simp
  then obtain op where g: "GetOp2 (push_data pk' @ ?r) = (True, op, pk', ?r)"
    using GetOp2_push by blast
  have k: "33 \<le> length pk" "length pk \<le> 120" using Cons.prems(1) by simp_all
  have "collect_pubkeys op pk' ?r (sols @ [pk]) = (if n = 0 then 0 else 80 + n, [], r, (sols @ [pk]) @ pk' # pks)"
    by (rule Cons.IH) (use Cons.prems in auto)
  then show ?case unfolding list.map concat.simps append_assoc
    by (subst collect_pubkeys.simps) (simp only: g k, simp)
qed

lemma Solver_p2pkh: "Solver (SetDestination (CKeyID h)) [] = (True, TX_PUBKEYHASH, [image160 h])"
proof -
  let ?s = "SetDestination (CKeyID h)"
  have "\<not> IsPayToScriptHash ?s"
    by (simp add: IsPayToScriptHash_def p2pkh_script op_byte_def opcodes)
  moreover have "match_template ?s (op_byte OP_PUBKEY @ op_byte OP_CHECKSIG) [] = None"
    unfolding p2pkh_script by (subst match_step [OF GetOp2_op_byte(1) GetOp2_op_byte(1)]) (simp_all add: match_op_def opcodes)
  moreover have "match_template ?s (op_byte OP_DUP @ op_byte OP_HASH160 @ op_byte OP_PUBKEYHASH @ op_byte OP_EQUALVERIFY @ op_byte OP_CHECKSIG) []
      = Some [image160 h]"
    unfolding p2pkh_script by (simp add: match_same match_hash plain_ops)
  ultimately show ?thesis by (simp add: Solver_def mTemplates_def)
qed

lemma Solver_p2sh: "Solver (SetDestination (CScriptID h)) vs = (True, TX_SCRIPTHASH, vs @ [image160 h])"
  by (simp add: Solver_def IsPayToScriptHash_def SetDestination_def push_uint160_def op_byte_def nth_append opcodes)

lemma match_pubkeys:
  assumes "pks \<noteq> []" "\<forall>pk \<in> set pks. 33 \<le> length pk \<and> length pk \<le> 120" "n \<le> 16"
    and "length (concat (map push_data pks)) + length r1 < 2 ^ 31"
  shows "match_template (concat (map push_data pks) @ op_byte (if n = 0 then 0 else 80 + n) @ r1)
      (op_byte OP_PUBKEYS @ op_byte OP_SMALLINTEGER @ r2) sols = match_template r1 r2 (sols @ pks @ [[of_nat n]])"
proof -
  obtain pk ps where p: "pks = pk # ps" using assms(1) by (cases pks) auto
  define k where "k = (if n = 0 then 0 else 80 + n)"
  let ?r = "concat (map push_data ps) @ op_byte k @ r1"
  have "length pk + length ?r < 2 ^ 32" using assms(2,4) by (simp add: p)
  then obtain op where g: "GetOp2 (push_data pk @ ?r) = (True, op, pk, ?r)" using GetOp2_push by blast
  have c: "collect_pubkeys op pk ?r sols = (k, [], r1, sols @ pk # ps)"
    unfolding k_def by (rule collect_pubkeys_all) (use assms in \<open>auto simp: p\<close>)
  have g2: "GetOp2 (op_byte OP_PUBKEYS @ op_byte OP_SMALLINTEGER @ r2) = (True, OP_PUBKEYS, [], op_byte OP_SMALLINTEGER @ r2)"
    "GetOp2 (op_byte OP_SMALLINTEGER @ r2) = (True, OP_SMALLINTEGER, [], r2)"
    by (rule GetOp2_op_byte; simp add: opcodes)+
  have m: "match_op k [] OP_SMALLINTEGER [] (sols @ pk # ps) = Some ((sols @ pk # ps) @ [[of_nat n]])"
    using assms(3) by (simp add: k_def match_op_def DecodeOP_N_def opcodes)
  have "push_data pk @ ?r \<noteq> []" by (simp add: op_byte_def)
  then show ?thesis unfolding k_def [symmetric] p list.map concat.simps append_assoc
    by (subst match_template.simps) (simp only: g g2, simp add: c g2 m length_greater_0_conv [symmetric] del: length_greater_0_conv)
qed

lemma Solver_multisig:
  assumes "\<forall>pk \<in> set pks. 33 \<le> length pk \<and> length pk \<le> 120" "1 \<le> m" "m \<le> length pks" "length pks \<le> 16"
  shows "Solver (op_byte (80 + m) @ concat (map push_data pks) @ op_byte (80 + length pks) @ op_byte OP_CHECKMULTISIG) [] =
    (True, TX_MULTISIG, [[of_nat m]] @ pks @ [[of_nat (length pks)]])"
    (is "Solver ?s [] = (True, TX_MULTISIG, ?sols)")
proof -
  have ne: "pks \<noteq> []" using assms by auto
  have l: "length (concat (map push_data pks)) + 1 < 2 ^ 31"
  proof -
    have "length (concat (map push_data qs)) \<le> 130 * length qs" if "set qs \<subseteq> set pks" for qs
      using that assms(1) by (induction qs) (auto simp: push_data_def opcodes)
    from this [of pks] show ?thesis using assms(4) by simp
  qed
  have g: "GetOp2 ?s = (True, 80 + m, [], concat (map push_data pks) @ op_byte (80 + length pks) @ op_byte OP_CHECKMULTISIG)"
    by (rule GetOp2_op_byte) (use assms in \<open>simp_all add: opcodes\<close>)
  have "unat (?s ! 0) = 80 + m" using assms by (simp add: op_byte_def unat_of_nat del: of_nat_add)
  then have "\<not> IsPayToScriptHash ?s"
    using assms by (simp add: IsPayToScriptHash_def opcodes)
  moreover have "match_template ?s (op_byte OP_PUBKEY @ op_byte OP_CHECKSIG) [] = None"
    by (subst match_step [OF g GetOp2_op_byte(1)]) (simp_all add: match_op_def opcodes)
  moreover have "match_template ?s (op_byte OP_DUP @ op_byte OP_HASH160 @ op_byte OP_PUBKEYHASH @ op_byte OP_EQUALVERIFY @ op_byte OP_CHECKSIG) [] = None"
    using assms by (subst match_step [OF g GetOp2_op_byte(1)]) (simp_all add: match_op_def opcodes)
  moreover have "match_template ?s (op_byte OP_SMALLINTEGER @ op_byte OP_PUBKEYS @ op_byte OP_SMALLINTEGER @ op_byte OP_CHECKMULTISIG) [] = Some ?sols"
    using assms ne match_smallint [of m "concat (map push_data pks) @ op_byte (80 + length pks) @ op_byte OP_CHECKMULTISIG"
        "op_byte OP_PUBKEYS @ op_byte OP_SMALLINTEGER @ op_byte OP_CHECKMULTISIG" "[]"]
      match_pubkeys [of pks "length pks" "op_byte OP_CHECKMULTISIG" "op_byte OP_CHECKMULTISIG" "[[of_nat m]]"] l
    by (auto simp: match_same plain_ops split: if_splits)
  moreover have "multisig_solution_ok ?sols"
    using assms by (simp add: multisig_solution_ok_def Let_def unat_of_nat word_less_nat_alt ne)
  ultimately show ?thesis by (simp add: Solver_def mTemplates_def)
qed


lemma length_push_data: "length (push_data b) \<le> length b + 5"
  by (simp add: push_data_def)

lemma run_pushes:
  assumes "length a \<le> MAX_SCRIPT_ELEMENT_SIZE" "length b \<le> MAX_SCRIPT_ELEMENT_SIZE"
  shows "run_script cx [] (push_data a @ push_data b) = Some [b, a]"
proof -
  let ?s = "push_data a @ push_data b"
  define st where "st = \<lparr>stack = [], altstack = [], vfExec = [], nOpCount = 0, pbegincodehash = ?s, sigcache = no_cache\<rparr>"
  have l: "length (push_data a) \<le> 525" "length (push_data b) \<le> 525"
    using assms length_push_data [of a] length_push_data [of b] by (simp_all add: MAX_SCRIPT_ELEMENT_SIZE_def)
  have "eval_loop cx ?s st = eval_loop cx (push_data b) (st\<lparr>stack := [a]\<rparr>)"
    using eval_loop_push [of a "push_data b" st cx] assms l by (simp add: st_def MAX_SCRIPT_ELEMENT_SIZE_def)
  also have "\<dots> = (True, st\<lparr>stack := [b, a]\<rparr>)"
    using eval_loop_push [of b "[]" "st\<lparr>stack := [a]\<rparr>" cx] assms by (simp add: st_def MAX_SCRIPT_ELEMENT_SIZE_def)
  finally show ?thesis
    using l by (simp add: run_script_def EvalScript_def Let_def st_def)
qed

lemma op_hash160:
  "stack st = v # s \<Longrightarrow> op_digest D OP_HASH160 st = (True, st\<lparr>stack := image160 (Hash160 D v) # s\<rparr>)"
  by (simp add: op_digest_def op_hash_value_def opcodes)

lemma op_dup: "stack st = v # s \<Longrightarrow> op_stack OP_DUP st = (True, st\<lparr>stack := v # v # s\<rparr>)"
  by (simp add: op_stack_def stack_op_def opcodes)

lemma op_checksig_plain:
  assumes "stack st = pk # sig # s" "check_one cx (snd (FindAndDelete (push_data sig) (pbegincodehash st))) sig pk (sigcache st) = (f, c)"
  shows "op_checksig cx OP_CHECKSIG st = (True, st\<lparr>stack := bool_val f # s, sigcache := c\<rparr>)"
  using assms by (simp add: op_checksig_def Let_def opcodes)

lemma op_range:
  "opcode \<in> {OP_DUP, OP_HASH160, OP_EQUAL, OP_EQUALVERIFY, OP_CHECKSIG, OP_CHECKMULTISIG} \<Longrightarrow>
     OP_16 < opcode \<and> opcode < 256 \<and> opcode \<notin> set disabled_ops"
  by (auto simp: opcodes disabled_ops_def)

lemma run_plain_op:
  assumes "opcode \<in> {OP_DUP, OP_HASH160, OP_EQUAL, OP_EQUALVERIFY, OP_CHECKSIG, OP_CHECKMULTISIG}"
    "vfExec st = []" "nOpCount st < 201"
    and "eval_op cx True opcode r (st\<lparr>nOpCount := nOpCount st + 1\<rparr>) = (f, st')"
    "length (stack st') + length (altstack st') \<le> 1000"
  shows "eval_loop cx (op_byte opcode @ r) st = (if f then eval_loop cx r st' else (False, st'))"
  using eval_loop_op [of opcode st cx r f st'] op_range [OF assms(1)] assms(2-5) by simp

lemma accepts_p2pkh:
  assumes "length s < 990"
  shows "accepts cx (pk # sig # s) (SetDestination (CKeyID h)) \<longleftrightarrow>
    Hash160 (env_digests (cx_env cx)) pk = h \<and>
    sig_ok cx (snd (FindAndDelete (push_data sig) (SetDestination (CKeyID h)))) sig pk"
proof -
  let ?s = "SetDestination (CKeyID h)" let ?D = "env_digests (cx_env cx)"
  define ES where "ES = (\<lambda>stk n c. \<lparr>stack = stk, altstack = [], vfExec = [], nOpCount = n, pbegincodehash = ?s, sigcache = c\<rparr>)"
  let ?r3 = "op_byte OP_EQUALVERIFY @ op_byte OP_CHECKSIG"
  let ?chk = "check_one cx (snd (FindAndDelete (push_data sig) ?s)) sig pk no_cache"
  have 1: "eval_loop cx ?s (ES (pk # sig # s) 0 no_cache) =
      eval_loop cx (op_byte OP_HASH160 @ push_data (image160 h) @ ?r3) (ES (pk # pk # sig # s) 1 no_cache)"
    unfolding p2pkh_script using assms
    by (subst run_plain_op) (auto simp: eval_op_simps op_dup ES_def p2pkh_script)
  have 2: "eval_loop cx (op_byte OP_HASH160 @ push_data (image160 h) @ ?r3) (ES (pk # pk # sig # s) 1 no_cache) =
      eval_loop cx (push_data (image160 h) @ ?r3) (ES (image160 (Hash160 ?D pk) # pk # sig # s) 2 no_cache)"
    using assms by (subst run_plain_op) (auto simp: eval_op_simps op_hash160 ES_def numeral_2_eq_2)
  have 3: "eval_loop cx (push_data (image160 h) @ ?r3) (ES (image160 (Hash160 ?D pk) # pk # sig # s) 2 no_cache) =
      eval_loop cx ?r3 (ES (image160 h # image160 (Hash160 ?D pk) # pk # sig # s) 2 no_cache)"
    using assms by (subst eval_loop_push) (auto simp: ES_def MAX_SCRIPT_ELEMENT_SIZE_def)
  have 4: "eval_loop cx ?r3 (ES (image160 h # image160 (Hash160 ?D pk) # pk # sig # s) 2 no_cache) =
      (if image160 (Hash160 ?D pk) = image160 h then eval_loop cx (op_byte OP_CHECKSIG @ []) (ES (pk # sig # s) 3 no_cache)
       else (False, ES (vchFalse # pk # sig # s) 3 no_cache))"
    using assms by (cases "image160 (Hash160 ?D pk) = image160 h"; subst run_plain_op)
      (auto simp: eval_op_simps op_equal_def ES_def)
  have 5: "eval_loop cx (op_byte OP_CHECKSIG @ []) (ES (pk # sig # s) 3 no_cache) =
      (True, ES (bool_val (fst ?chk) # s) 4 (snd ?chk))"
    using assms by (subst run_plain_op)
      (auto simp: eval_op_simps ES_def op_checksig_plain [where f = "fst ?chk" and c = "snd ?chk"])
  have "image160 (Hash160 ?D pk) = image160 h \<longleftrightarrow> Hash160 ?D pk = h"
    by (metis image_roundtrip(4))
  then have "eval_loop cx ?s (ES (pk # sig # s) 0 no_cache) =
      (if Hash160 ?D pk = h then (True, ES (bool_val (fst ?chk) # s) 4 (snd ?chk)) else (False, ES (vchFalse # pk # sig # s) 3 no_cache))"
    unfolding 1 2 3 4 5 by simp
  moreover have "length ?s \<le> 10000" unfolding p2pkh_script using length_push_data [of "image160 h"] by simp
  ultimately show ?thesis
    using check_one_ok(1) [of cx no_cache] by (simp add: accepts_def run_script_def EvalScript_def ES_def)
qed

section \<open>Lemmas\<close>

lemma der_curve_laws: "curve_laws der_curve"
  by (simp add: curve_laws_def der_curve_def IsCanonicalPubKey_def IsCanonicalSignature_def Let_def
      SIGHASH_ALL_def SIGHASH_SINGLE_def SIGHASH_ANYONECANPAY_def)

lemma SignatureHash_set_scriptSig:
  "SignatureHash D code (set_scriptSig nIn s tx) nIn ht = SignatureHash D code tx nIn ht"
proof -
  have "map (\<lambda>i. i\<lparr>scriptSig := []\<rparr>) ((vin tx)[nIn := (vin tx ! nIn)\<lparr>scriptSig := s\<rparr>]) = map (\<lambda>i. i\<lparr>scriptSig := []\<rparr>) (vin tx)"
    (is "?l = ?r")
  proof (rule nth_equalityI)
    show "?l ! i = ?r ! i" if "i < length ?l" for i using that by (cases "nIn = i") simp_all
  qed simp
  then have "sighash_tx code (set_scriptSig nIn s tx) nIn ht = sighash_tx code tx nIn ht"
    by (simp add: sighash_tx_def set_scriptSig_def Let_def del: nth_map)
  then show ?thesis by (simp add: SignatureHash_def)
qed

lemma GetKey_stored:
  assumes "keystore_ok D E ks" "mapKeys ks h = Some (secret, fc)"
  shows "\<exists>key. GetKey E ks h CKey_new = Inr (True, key) \<and> CKey_Sign E key hash = ECDSA_sign E (image256 hash) (le_val (rev secret)) \<and>
    GetPubKey E key = Inr (EC_POINT_point2oct E (EC_POINT_mul E (le_val (rev secret))) fc)"
proof -
  have "length secret = 32" using assms unfolding keystore_ok_def by blast
  then show ?thesis
    using assms(2) by (simp add: GetKey_def SetSecret_def CKey_Reset_def EC_KEY_regenerate_key_def EC_KEY_new_def
        SetCompressedPubKey_def CKey_Sign_def GetPubKey_def Let_def)
qed

lemma sig_accepts_signed:
  assumes "curve_laws (env_curve env)" "0 \<le> ht" "ht < 256"
    and "ECDSA_sign (env_curve env) (image256 (SignatureHash (env_digests env) code tx nIn ht)) d = Some sg"
  shows "sig_accepts env (sg @ [word_of_int ht]) (EC_POINT_point2oct (env_curve env) (EC_POINT_mul (env_curve env) d) fc) code tx nIn 0"
proof -
  let ?E = "env_curve env" let ?p = "EC_POINT_mul ?E d"
  have u: "int (unat (word_of_int ht :: byte)) = ht" using assms(2,3) by (simp add: unsigned_of_int take_bit_int_eq_self)
  then have u': "uint (word_of_int ht :: byte) = ht" by simp
  have c: "EC_POINT_oct2point ?E (EC_POINT_point2oct ?E ?p fc) = Some ?p" "IsCanonicalPubKey (EC_POINT_point2oct ?E ?p fc)"
    using assms(1) unfolding curve_laws_def by blast+
  then obtain b bs where o: "EC_POINT_point2oct ?E ?p fc = b # bs" by (cases "EC_POINT_point2oct ?E ?p fc") (auto simp: IsCanonicalPubKey_def)
  have "ECDSA_verify ?E (image256 (SignatureHash (env_digests env) code tx nIn ht)) sg ?p"
    using assms(1,4) unfolding curve_laws_def by blast
  then show ?thesis
    using c(1) unfolding sig_accepts_def sig_valid_def SetPubKey_def o2i_ECPublicKey_def o
    by (simp add: u' CKey_Verify_def SetCompressedPubKey_def Let_def)
qed

lemma instructions_Cons:
  assumes "GetOp2 (i @ r) = (True, opcode, v, r)"
  shows "fst (instructions (i @ r)) = i # fst (instructions r)" "snd (instructions (i @ r)) = snd (instructions r)"
  using instructions_step(1) [OF assms] by simp_all

lemma instructions_Nil [simp]: "instructions [] = ([], [])"
  by (simp add: instructions.simps)

lemma FindAndDelete_p2pkh:
  assumes "length b < 2 ^ 31" "b \<noteq> image160 h" "b \<noteq> []"
  shows "snd (FindAndDelete (push_data b) (SetDestination (CKeyID h))) = SetDestination (CKeyID h)"
proof -
  let ?s = "SetDestination (CKeyID h)" let ?h = "push_data (image160 h)"
  let ?r4 = "op_byte OP_CHECKSIG @ []" let ?r3 = "op_byte OP_EQUALVERIFY @ ?r4" let ?r2 = "?h @ ?r3" let ?r1 = "op_byte OP_HASH160 @ ?r2"
  have s: "?s = op_byte OP_DUP @ ?r1" by (simp add: p2pkh_script)
  obtain opcode where g: "GetOp2 (push_data b) = (True, opcode, b, [])" using GetOp2_push [of b "[]"] assms(1) by auto
  have gh: "GetOp2 (?h @ ?r3) = (True, 20, image160 h, ?r3)" by (rule GetOp2_push20) simp_all
  have op: "GetOp2 (op_byte x @ r) = (True, x, [], r)" if "x \<in> {OP_DUP, OP_HASH160, OP_EQUAL, OP_EQUALVERIFY, OP_CHECKSIG, OP_CHECKMULTISIG}" for x r
    by (rule GetOp2_op_byte) (use op_range [OF that] plain_ops [OF that] in auto)
  have "instructions ?s = ([op_byte OP_DUP, op_byte OP_HASH160, ?h, op_byte OP_EQUALVERIFY, op_byte OP_CHECKSIG], [])"
    unfolding s using instructions_Cons [OF op [of OP_DUP ?r1]] instructions_Cons [OF op [of OP_HASH160 ?r2]] instructions_Cons [OF gh]
      instructions_Cons [OF op [of OP_EQUALVERIFY ?r4]] instructions_Cons [OF op [of OP_CHECKSIG "[]"]]
    by (simp add: prod_eq_iff)
  moreover have ne: "push_data b \<noteq> i" if "GetOp2 i = (True, x, v, [])" "v \<noteq> b" for i x v
    using that g by auto
  have "?h \<noteq> push_data b" by (rule not_sym, rule ne [OF GetOp2_push20 [of _ "[]", simplified]]) (use assms(2) in auto)
  moreover have "op_byte x \<noteq> push_data b" if "x \<in> {OP_DUP, OP_HASH160, OP_EQUAL, OP_EQUALVERIFY, OP_CHECKSIG, OP_CHECKMULTISIG}" for x
    by (rule not_sym, rule ne [OF op [OF that, of "[]", simplified]]) (use assms(3) in auto)
  moreover have "length ?s < 2 ^ 32" using length_push_data [of "image160 h"] by (simp add: s)
  moreover have "push_data b \<noteq> []" using g by auto
  ultimately show ?thesis
    using find_and_delete_filter [OF g, of ?s] by (simp add: FindAndDelete_def p2pkh_script)
qed


lemma p2pkh_not_p2sh: "\<not> IsPayToScriptHash (SetDestination (CKeyID h))"
  by (simp add: IsPayToScriptHash_def p2pkh_script op_byte_def opcodes)

lemma canonical_length:
  "IsCanonicalSignature (s @ [t]) \<Longrightarrow> length s \<le> 72 \<and> length s \<ge> 8"
  by (rule ccontr) (auto simp: IsCanonicalSignature_def Let_def not_le)

lemma curve_lawsD:
  assumes "curve_laws E"
  shows "IsCanonicalPubKey (EC_POINT_point2oct E p f)"
    "\<lbrakk>ECDSA_sign E h d = Some s; t \<in> {0x01, 0x02, 0x03, 0x81, 0x82, 0x83}\<rbrakk> \<Longrightarrow> IsCanonicalSignature (s @ [t])"
  using assms unfolding curve_laws_def by metis+

text \<open>
  C31. Signing a pay-to-address output: if the store is sound and holds the key of the address, and
  the curve signs, then \<^verbatim>\<open>SignSignature\<close> for each of the six standard hash types returns true, and the only change to the
  transaction is the input script, which becomes the signature with the hash type and the public
  key.  The returned verdict is that of the verification of the script, so the transaction
  produced is accepted under the strict flags.  (A signature of 19 octets could, with its hash type, equal the address, and
  would then be deleted from the script it signs.)
\<close>

theorem SignSignature_p2pkh:
  assumes "curve_laws (env_curve env)" "keystore_ok (env_digests env) (env_curve env) ks" "sigcache_ok env c"
    and "mapKeys ks h = Some (secret, fc)" "nIn < length (vin tx)" "ht \<in> {0x01, 0x02, 0x03, 0x81, 0x82, 0x83}"
    and "ECDSA_sign (env_curve env) (image256 (SignatureHash (env_digests env) (SetDestination (CKeyID h)) tx nIn ht)) (le_val (rev secret)) = Some sg"
    and "length sg \<noteq> 19"
  shows "\<exists>c'. sigcache_ok env c' \<and> SignSignature env ks (SetDestination (CKeyID h)) tx nIn ht c =
    Inr (True, set_scriptSig nIn (push_data (sg @ [word_of_int ht]) @
      push_data (EC_POINT_point2oct (env_curve env) (EC_POINT_mul (env_curve env) (le_val (rev secret))) fc)) tx, c')"
proof -
  let ?D = "env_digests env" let ?E = "env_curve env" let ?s = "SetDestination (CKeyID h)"
  let ?sig = "sg @ [word_of_int ht]" let ?pk = "EC_POINT_point2oct ?E (EC_POINT_mul ?E (le_val (rev secret))) fc"
  let ?tx = "set_scriptSig nIn (push_data ?sig @ push_data ?pk) tx"
  let ?fl = "SCRIPT_VERIFY_P2SH OR SCRIPT_VERIFY_STRICTENC" let ?cx = "script_ctx env ?tx nIn ?fl 0"
  obtain key where key: "GetKey ?E ks h CKey_new = Inr (True, key)" "GetPubKey ?E key = Inr ?pk"
    "CKey_Sign ?E key (SignatureHash ?D ?s tx nIn ht) = Some sg"
    using GetKey_stored [OF assms(2,4)] assms(7) by metis
  have ht: "0 \<le> ht" "ht < 256" "(word_of_int ht :: byte) \<in> {0x01, 0x02, 0x03, 0x81, 0x82, 0x83}" using assms(6) by auto
  have can: "IsCanonicalSignature ?sig" "IsCanonicalPubKey ?pk"
    by (rule curve_lawsD(2) [OF assms(1,7) ht(3)], rule curve_lawsD(1) [OF assms(1)])
  have len: "length ?sig \<le> 73" "length ?pk \<le> 65" "9 \<le> length ?sig"
    using canonical_length [OF can(1)] can(2) by (auto simp: IsCanonicalPubKey_def split: if_splits)
  have "?sig \<noteq> image160 h" using assms(8) by (auto dest: arg_cong [of _ _ length])
  then have fad: "snd (FindAndDelete (push_data ?sig) ?s) = ?s" using FindAndDelete_p2pkh [of ?sig h] len by simp
  have addr: "Hash160 ?D ?pk = h" using assms(2,4) unfolding keystore_ok_def CPubKey_GetID_def by metis
  have "sig_ok ?cx ?s ?sig ?pk"
    using sig_accepts_signed [OF assms(1) ht(1,2), of ?s ?tx nIn "le_val (rev secret)" sg fc] assms(7) can
    by (simp add: sig_ok_def script_ctx_def SignatureHash_set_scriptSig)
  then have "spends ?cx (push_data ?sig @ push_data ?pk) ?s"
    using run_pushes [of ?sig ?pk ?cx] accepts_p2pkh [of "[]" ?cx ?pk ?sig h] len addr fad
    by (simp add: spends_def MAX_SCRIPT_ELEMENT_SIZE_def script_ctx_def p2pkh_not_p2sh)
  then obtain c' where c': "sigcache_ok env c'" "VerifyScript env (push_data ?sig @ push_data ?pk) ?s ?tx nIn ?fl 0 c = Inr (True, c')"
    using VerifyScript_spends_aux [OF assms(3)] by metis
  have "scriptSig (vin ?tx ! nIn) = push_data ?sig @ push_data ?pk" using assms(5) by (simp add: set_scriptSig_def)
  then show ?thesis
    using c' assms(5) unfolding SignSignature_def Solver_sign_def Let_def Solver_p2pkh
    by (simp add: Sign1_def key KeyStore_GetPubKey_def)
qed

lemma op_equal_plain:
  "stack st = b # a # s \<Longrightarrow> op_equal OP_EQUAL st = (True, st\<lparr>stack := bool_val (a = b) # s\<rparr>)"
  by (simp add: op_equal_def opcodes)

lemma op_dup_empty: "stack st = [] \<Longrightarrow> op_stack OP_DUP st = (False, st)"
  by (simp add: op_stack_def stack_op_def opcodes)

lemma p2pkh_short:
  assumes "stk = [] \<or> (\<exists>pk. stk = [pk])"
  shows "\<not> accepts cx stk (SetDestination (CKeyID h))"
proof -
  let ?s = "SetDestination (CKeyID h)" let ?D = "env_digests (cx_env cx)"
  define ES where "ES = (\<lambda>stk n. \<lparr>stack = stk, altstack = [], vfExec = [], nOpCount = n, pbegincodehash = ?s, sigcache = no_cache\<rparr>)"
  let ?r3 = "op_byte OP_EQUALVERIFY @ op_byte OP_CHECKSIG"
  have "\<not> fst (eval_loop cx ?s (ES [] 0))"
    unfolding p2pkh_script
    by (subst run_plain_op) (auto simp: eval_op_simps op_dup_empty ES_def p2pkh_script)
  moreover have "\<not> fst (eval_loop cx ?s (ES [pk] 0))" for pk
  proof -
    have "eval_loop cx ?s (ES [pk] 0) = eval_loop cx (op_byte OP_HASH160 @ push_data (image160 h) @ ?r3) (ES [pk, pk] 1)"
      unfolding p2pkh_script by (subst run_plain_op) (auto simp: eval_op_simps op_dup ES_def p2pkh_script)
    also have "\<dots> = eval_loop cx (push_data (image160 h) @ ?r3) (ES [image160 (Hash160 ?D pk), pk] 2)"
      by (subst run_plain_op) (auto simp: eval_op_simps op_hash160 ES_def numeral_2_eq_2)
    also have "\<dots> = eval_loop cx ?r3 (ES [image160 h, image160 (Hash160 ?D pk), pk] 2)"
      by (subst eval_loop_push) (auto simp: ES_def MAX_SCRIPT_ELEMENT_SIZE_def)
    also have "\<dots> = (if image160 (Hash160 ?D pk) = image160 h then eval_loop cx (op_byte OP_CHECKSIG @ []) (ES [pk] 3)
        else (False, ES [vchFalse, pk] 3))"
      by (cases "image160 (Hash160 ?D pk) = image160 h"; subst run_plain_op) (auto simp: eval_op_simps op_equal_def ES_def)
    also have "\<not> fst \<dots>"
      by (subst run_plain_op) (auto simp: eval_op_simps ES_def op_checksig_def)
    finally show ?thesis .
  qed
  ultimately show ?thesis
    using assms by (auto simp: accepts_def run_script_def EvalScript_def ES_def split_beta split: bool.splits option.splits)
qed

lemma eval_loop_PushAll:
  assumes "\<forall>v \<in> set vs. length v \<le> MAX_SCRIPT_ELEMENT_SIZE" "length (PushAll vs @ r) < 2 ^ 31" "vfExec st = []"
    "length (stack st) + length (altstack st) + length vs \<le> 1000"
  shows "eval_loop cx (PushAll vs @ r) st = eval_loop cx r (st\<lparr>stack := rev vs @ stack st\<rparr>)"
  using assms
proof (induction vs arbitrary: st)
  case Nil
  then show ?case by (simp add: PushAll_def)
next
  case (Cons v vs)
  have "eval_loop cx (push_data v @ PushAll vs @ r) st = eval_loop cx (PushAll vs @ r) (st\<lparr>stack := v # stack st\<rparr>)"
    by (rule eval_loop_push) (use Cons.prems in \<open>auto simp: PushAll_def MAX_SCRIPT_ELEMENT_SIZE_def\<close>)
  also have "\<dots> = eval_loop cx r (st\<lparr>stack := rev vs @ v # stack st\<rparr>)"
    using Cons.IH [of "st\<lparr>stack := v # stack st\<rparr>"] Cons.prems by (simp add: PushAll_def)
  finally show ?case by (simp add: PushAll_def)
qed

lemma run_PushAll:
  assumes "\<forall>v \<in> set vs. length v \<le> MAX_SCRIPT_ELEMENT_SIZE" "length (PushAll vs) \<le> 10000" "length vs \<le> 1000"
  shows "run_script cx [] (PushAll vs) = Some (rev vs)"
  using eval_loop_PushAll [of vs "[]"
      "\<lparr>stack = [], altstack = [], vfExec = [], nOpCount = 0, pbegincodehash = PushAll vs, sigcache = no_cache\<rparr>" cx] assms
  by (simp add: run_script_def EvalScript_def)

lemma IsPushOnly_PushAll:
  assumes "length (PushAll vs) < 2 ^ 31"
  shows "IsPushOnly (PushAll vs)"
  using assms
proof (induction vs)
  case (Cons v vs)
  have "length v \<le> length (push_data v)" by (simp add: push_data_def)
  then have "length v + length (PushAll vs) < 2 ^ 32" using Cons.prems by (simp add: PushAll_def)
  then obtain opcode where "opcode \<le> OP_PUSHDATA4" "GetOp2 (push_data v @ PushAll vs) = (True, opcode, v, PushAll vs)"
    using GetOp2_push by blast
  moreover have "OP_PUSHDATA4 \<le> OP_16" by (simp add: opcodes)
  moreover have "PushAll (v # vs) = push_data v @ PushAll vs" by (simp add: PushAll_def)
  moreover have "IsPushOnly (PushAll vs)" using Cons by (simp add: PushAll_def)
  ultimately show ?case by (subst IsPushOnly.simps) simp
qed (simp add: PushAll_def IsPushOnly.simps)

lemma accepts_p2sh:
  assumes "length stk < 999"
  shows "accepts cx (code # stk) (SetDestination (CScriptID h)) \<longleftrightarrow> Hash160 (env_digests (cx_env cx)) code = h"
proof -
  let ?s = "SetDestination (CScriptID h)" let ?D = "env_digests (cx_env cx)"
  define ES where "ES = (\<lambda>stk n. \<lparr>stack = stk, altstack = [], vfExec = [], nOpCount = n, pbegincodehash = ?s, sigcache = no_cache\<rparr>)"
  have s: "?s = op_byte OP_HASH160 @ push_data (image160 h) @ op_byte OP_EQUAL @ []"
    by (simp add: SetDestination_def push_uint160_def push_data_def opcodes)
  have "eval_loop cx ?s (ES (code # stk) 0) =
      eval_loop cx (push_data (image160 h) @ op_byte OP_EQUAL @ []) (ES (image160 (Hash160 ?D code) # stk) 1)"
    unfolding s using assms by (subst run_plain_op) (auto simp: eval_op_simps op_hash160 ES_def s)
  also have "\<dots> = eval_loop cx (op_byte OP_EQUAL @ []) (ES (image160 h # image160 (Hash160 ?D code) # stk) 1)"
    using assms by (subst eval_loop_push) (auto simp: ES_def MAX_SCRIPT_ELEMENT_SIZE_def)
  also have "\<dots> = (True, ES (bool_val (image160 (Hash160 ?D code) = image160 h) # stk) 2)"
    using assms by (subst run_plain_op) (auto simp: eval_op_simps op_equal_plain ES_def numeral_2_eq_2)
  finally have "eval_loop cx ?s (ES (code # stk) 0) = (True, ES (bool_val (Hash160 ?D code = h) # stk) 2)"
    by (simp add: image160_inj)
  moreover have "length ?s \<le> 10000" unfolding s using length_push_data [of "image160 h"] by simp
  ultimately show ?thesis by (simp add: accepts_def run_script_def EvalScript_def ES_def)
qed

section \<open>Properties\<close>

text \<open>
  C29. Only the owner of the address spends a pay-to-address output.  Whatever the input script is, if it
  leaves the stack \<open>stk\<close> (of at most 990 values), \<^verbatim>\<open>VerifyScript\<close> accepts exactly if the topmost value is a public key that hashes to the
  address and the value below it is a signature of this input by that key, of canonical form
  where the flags ask for it.
\<close>

theorem p2pkh_verify:
  assumes "sigcache_ok env c" "run_script (script_ctx env tx nIn flags ht) [] ss = Some stk" "length stk \<le> 990"
  shows "\<exists>c'. sigcache_ok env c' \<and> VerifyScript env ss (SetDestination (CKeyID h)) tx nIn flags ht c =
    Inr (\<exists>pk sig s. stk = pk # sig # s \<and> Hash160 (env_digests env) pk = h \<and>
      sig_ok (script_ctx env tx nIn flags ht) (snd (FindAndDelete (push_data sig) (SetDestination (CKeyID h)))) sig pk, c')"
proof -
  let ?cx = "script_ctx env tx nIn flags ht" let ?s = "SetDestination (CKeyID h)"
  have "accepts ?cx stk ?s \<longleftrightarrow> (\<exists>pk sig s. stk = pk # sig # s \<and> Hash160 (env_digests env) pk = h \<and>
      sig_ok ?cx (snd (FindAndDelete (push_data sig) ?s)) sig pk)"
  proof (cases "\<exists>pk sig s. stk = pk # sig # s")
    case True
    then obtain pk sig s where "stk = pk # sig # s" by blast
    then show ?thesis using accepts_p2pkh [of s ?cx pk sig h] assms(3) by (simp add: script_ctx_def)
  next
    case False
    then have "stk = [] \<or> (\<exists>pk. stk = [pk])" by (metis neq_Nil_conv)
    then show ?thesis using p2pkh_short False by blast
  qed
  moreover have "spends ?cx ss ?s \<longleftrightarrow> accepts ?cx stk ?s" using assms(2) by (simp add: spends_def p2pkh_not_p2sh)
  ultimately show ?thesis using VerifyScript_spends_aux [OF assms(1), of ss ?s tx nIn flags ht] by simp
qed

theorem p2pkh_verify_witness:
  "\<exists>c'. sigcache_ok toy_env c' \<and> VerifyScript toy_env [0x01, 0x05] (SetDestination (CKeyID 7)) CTransaction_null 0 0 0 no_cache = Inr (False, c')"
  using p2pkh_verify [of toy_env no_cache CTransaction_null 0 0 0 "[0x01, 0x05]" "[[5]]" 7]
  by (simp add: run_script_def EvalScript_def eval_loop.simps eval_step_eq eval_instr_def count_op_def push_size_def
      opcodes disabled_ops_def MAX_SCRIPT_ELEMENT_SIZE_def Let_def)

text \<open>
  C30. Pay-to-script-hash under the flag \<^verbatim>\<open>SCRIPT_VERIFY_P2SH\<close>: an input that pushes the values \<open>vs\<close> and then a
  script is accepted exactly if the script hashes to the identifier of the output and accepts the
  values as its stack.
\<close>

theorem p2sh_verify:
  assumes "sigcache_ok env c" "flags AND SCRIPT_VERIFY_P2SH \<noteq> 0"
    and "\<forall>v \<in> set (code # vs). length v \<le> MAX_SCRIPT_ELEMENT_SIZE" "length (PushAll (vs @ [code])) \<le> 10000" "length vs < 999"
  shows "\<exists>c'. sigcache_ok env c' \<and> VerifyScript env (PushAll (vs @ [code])) (SetDestination (CScriptID h)) tx nIn flags ht c =
    Inr (Hash160 (env_digests env) code = h \<and> accepts (script_ctx env tx nIn flags ht) (rev vs) code, c')"
proof -
  let ?cx = "script_ctx env tx nIn flags ht" let ?s = "SetDestination (CScriptID h)" let ?i = "PushAll (vs @ [code])"
  have "run_script ?cx [] ?i = Some (code # rev vs)" using run_PushAll [of "vs @ [code]" ?cx] assms(3-5) by auto
  moreover have "IsPayToScriptHash ?s"
    by (simp add: IsPayToScriptHash_def SetDestination_def push_uint160_def op_byte_def nth_append opcodes)
  moreover have "IsPushOnly ?i" using IsPushOnly_PushAll [of "vs @ [code]"] assms(4) by simp
  ultimately have "spends ?cx ?i ?s \<longleftrightarrow> Hash160 (env_digests env) code = h \<and> accepts ?cx (rev vs) code"
    using accepts_p2sh [of "rev vs" ?cx code h] assms(2,5) by (auto simp: spends_def script_ctx_def)
  then show ?thesis using VerifyScript_spends_aux [OF assms(1), of ?i ?s tx nIn flags ht] by simp
qed

lemma toy_hash: "Hash160 (env_digests toy_env) [0x61] = 0x61"
  by code_simp

theorem p2sh_verify_witness:
  "\<exists>c'. sigcache_ok toy_env c' \<and>
     VerifyScript toy_env (PushAll [[3], [0x61]]) (SetDestination (CScriptID 0x61)) CTransaction_null 0 1 0 no_cache = Inr (True, c')"
  using p2sh_verify [of toy_env no_cache 1 "[0x61]" "[[3]]" "0x61" CTransaction_null 0 0]
  by (simp add: SCRIPT_VERIFY_P2SH_def MAX_SCRIPT_ELEMENT_SIZE_def PushAll_def push_data_def opcodes toy_hash accepts_def run_script_def EvalScript_def eval_loop.simps eval_step_eq eval_instr_def count_op_def eval_op_def op_lists
      Let_def script_ctx_def)

text \<open>
  C33. Addresses survive the script: the destination extracted from the script of an address or a script
  identifier is that destination, such scripts are standard, and the script of no destination has none.
\<close>

theorem destination_roundtrip:
  "ExtractDestination D (SetDestination d) = (if d = CNoDestination then None else Some d)
   \<and> IsStandard_script (SetDestination d) = (d \<noteq> CNoDestination)"
proof (cases d)
  case CNoDestination
  then show ?thesis
    by (simp add: SetDestination_def ExtractDestination_def IsStandard_script_def Solver_def IsPayToScriptHash_def mTemplates_def match_template.simps op_byte_def)
qed (simp_all add: ExtractDestination_def IsStandard_script_def Solver_p2pkh Solver_p2sh)

text \<open>
  C32. A script made by \<^verbatim>\<open>SetMultisig\<close> for \<open>m\<close> of \<open>n \<le> 16\<close> keys is recognised: \<^verbatim>\<open>Solver\<close> returns \<open>m\<close>, the public
  keys in their order and \<open>n\<close>, the destinations are the addresses of the keys, the script is standard
  up to three keys, and it is the wallet's own exactly if the store holds all the keys.
\<close>

theorem SetMultisig_recognised:
  assumes "list_all2 (\<lambda>k pk. GetPubKey E k = Inr pk \<and> 33 \<le> length pk \<and> length pk \<le> 120) keys pks"
    and "1 \<le> m" "m \<le> length keys" "length keys \<le> 16"
  shows "\<exists>s. SetMultisig E (int m) keys = Inr s \<and>
    Solver s [] = (True, TX_MULTISIG, [[of_nat m]] @ pks @ [[of_nat (length keys)]]) \<and>
    ExtractDestinations D s = (True, TX_MULTISIG, map (\<lambda>pk. CKeyID (Hash160 D pk)) pks, m) \<and>
    IsStandard_script s = (length keys \<le> 3) \<and>
    IsMine D ks s = Some (\<forall>pk \<in> set pks. HaveKey ks (Hash160 D pk))"
proof -
  have len: "length keys = length pks" using assms(1) by (rule list_all2_lengthD)
  have pk: "\<forall>pk \<in> set pks. 33 \<le> length pk \<and> length pk \<le> 120"
    using assms(1) by (auto simp: list_all2_conv_all_nth in_set_conv_nth)
  have push: "push_pubkeys E keys s = Inr (s @ concat (map push_data pks))" for s
    using assms(1) by (induction keys pks arbitrary: s rule: list_all2_induct) auto
  let ?s = "op_byte (80 + m) @ concat (map push_data pks) @ op_byte (80 + length pks) @ op_byte OP_CHECKMULTISIG"
  have "SetMultisig E (int m) keys = Inr ?s"
    using assms(2-4) len EncodeOP_N_nat [of m] EncodeOP_N_nat [of "length pks"] by (auto simp: SetMultisig_def push)
  moreover have sol: "Solver ?s [] = (True, TX_MULTISIG, [[of_nat m]] @ pks @ [[of_nat (length keys)]])"
    using Solver_multisig [OF pk] assms(2-4) len by simp
  moreover have "ExtractDestinations D ?s = (True, TX_MULTISIG, map (\<lambda>pk. CKeyID (Hash160 D pk)) pks, m)"
    using assms(2-4) by (simp add: ExtractDestinations_def sol CPubKey_GetID_def unat_of_nat)
  moreover have "IsStandard_script ?s = (length keys \<le> 3)"
    using assms(2-4) by (auto simp: IsStandard_script_def sol Let_def word_less_nat_alt unat_of_nat)
  moreover have "length (filter P pks) = length pks \<longleftrightarrow> (\<forall>pk\<in>set pks. P pk)" for P
    by (metis filter_True length_filter_less nat_neq_iff)
  then have "IsMine D ks ?s = Some (\<forall>pk \<in> set pks. HaveKey ks (Hash160 D pk))"
    by (subst IsMine.simps) (simp add: sol HaveKeys_def CPubKey_GetID_def)
  ultimately show ?thesis by blast
qed

theorem SetMultisig_recognised_witness:
  "\<exists>s. SetMultisig der_curve 1 der_keys = Inr s \<and>
     Solver s [] = (True, TX_MULTISIG, [[1], 2 # replicate 32 1, 2 # replicate 32 1, [2]])"
  using SetMultisig_recognised [of der_curve der_keys "[2 # replicate 32 1, 2 # replicate 32 1]" 1]
  by (auto simp: der_keys_def MakeNewKey_def GetPubKey_def SetCompressedPubKey_def EC_KEY_regenerate_key_def der_curve_def)

lemma der_store_ok: "keystore_ok toy_digests der_curve der_store"
  by (simp add: keystore_ok_def der_store_def CPubKey_GetID_def der_curve_def)

theorem SignSignature_p2pkh_witness:
  "\<exists>c'. SignSignature der_env der_store (SetDestination (CKeyID (Hash160 toy_digests (2 # replicate 32 1)))) der_tx 0 1 no_cache =
    Inr (True, set_scriptSig 0 (push_data [0x30, 6, 2, 1, 1, 2, 1, 1, 1] @ push_data (2 # replicate 32 1)) der_tx, c')"
proof -
  have "\<exists>c'. sigcache_ok der_env c' \<and>
    SignSignature der_env der_store (SetDestination (CKeyID (Hash160 toy_digests (2 # replicate 32 1)))) der_tx 0 1 no_cache =
    Inr (True, set_scriptSig 0 (push_data ([0x30, 6, 2, 1, 1, 2, 1, 1] @ [word_of_int 1]) @
      push_data (EC_POINT_point2oct (env_curve der_env) (EC_POINT_mul (env_curve der_env) (le_val (rev (replicate 32 1)))) True)) der_tx, c')"
    by (rule SignSignature_p2pkh)
       (simp_all add: der_env_def der_curve_laws der_store_ok der_tx_def, simp_all add: der_store_def der_curve_def)
  then show ?thesis by (auto simp: der_env_def der_curve_def)
qed

text \<open>\<^verbatim>\<open>IsMine\<close> returns unless the store's script hashes nest scripts forever.\<close>

lemma IsMine_returns:
  assumes "\<And>h s. mapScripts ks h = Some s \<Longrightarrow> \<not> IsPayToScriptHash s"
  shows "\<exists>b. IsMine D ks s = Some b"
proof -
  have no_p2sh: "Solver s [] \<noteq> (ok, TX_SCRIPTHASH, v)" if "\<not> IsPayToScriptHash s" for s ok v
  proof -
    have "scan_templates s ts \<noteq> (ok, TX_SCRIPTHASH, v)" if "TX_SCRIPTHASH \<notin> fst ` set ts" for ts
      using that by (induction ts) (auto split: option.splits)
    from this [of mTemplates] show ?thesis using that by (simp add: Solver_def mTemplates_def)
  qed
  have base: "\<exists>b. IsMine D ks s = Some b" if "\<not> IsPayToScriptHash s" for s
    using no_p2sh [OF that] by (cases "Solver s []") (auto simp: IsMine.simps Let_def)
  then show ?thesis
    by (cases "Solver s []") (auto simp: IsMine.simps [of D ks s] GetCScript_def Let_def assms split: option.splits)
qed

end
