(* ===== verification/Compress.thy ===== *)
theory Compress
  imports Solver
begin

text \<open>
  The compact serialization of outputs: amounts (\<^verbatim>\<open>CTxOutCompressor\<close>, \<^verbatim>\<open>src/src/main.cpp\<close> 3864 to 3907 and
  \<^verbatim>\<open>src/src/main.h\<close> 680 to 703), scripts (\<^verbatim>\<open>CScriptCompressor\<close>, \<^verbatim>\<open>src/src/script.cpp\<close> 1762 to 1885 and
  \<^verbatim>\<open>src/src/script.h\<close> 603 to 663), and the undo records of inputs, transactions and blocks
  (\<^verbatim>\<open>src/src/main.h\<close> 711 to 822).  A serializer that can run into an assertion returns a result;
  the locale \<open>codec_res\<close> is its contract.
\<close>

section \<open>Variable length integers of signed type\<close>

text \<open>
  For a signed argument the test \<^verbatim>\<open>n <= 0x7F\<close> of \<^verbatim>\<open>WriteVarInt\<close> holds for every negative value, so such a
  value is written as its low seven bits.
\<close>

definition WriteVarInt_int :: "int \<Rightarrow> byte list" where
  "WriteVarInt_int n = (if n < 0 then [word_of_int n AND 0x7F] else WriteVarInt (nat n))"

definition ReadVarInt_int :: "int reader" where
  "ReadVarInt_int is = rbind (ReadVarInt 32 is) (\<lambda>(n, is). Inr (to_signed 32 n, is))"

section \<open>Amounts\<close>

function strip_zeros :: "u64 \<Rightarrow> nat \<Rightarrow> u64 \<times> nat" where
  "strip_zeros n e = (if n mod 10 = 0 \<and> e < 9 then strip_zeros (n div 10) (e + 1) else (n, e))"
  by auto
termination
  by (relation "measure (\<lambda>(n, e). 9 - e)") auto

declare strip_zeros.simps [simp del]

definition CompressAmount :: "u64 \<Rightarrow> u64 res" where
  "CompressAmount n =
     (if n = 0 then Inr 0
      else let (n, e) = strip_zeros n 0 in
      if e < 9 then
        (let d = n mod 10 in
         if \<not> (d \<ge> 1 \<and> d \<le> 9) then Inl Assert_failed
         else Inr (1 + (n div 10 * 9 + d - 1) * 10 + of_nat e))
      else Inr (1 + (n - 1) * 10 + 9))"

definition DecompressAmount :: "u64 \<Rightarrow> u64" where
  "DecompressAmount x =
     (if x = 0 then 0
      else let x = x - 1; e = unat (x mod 10); x = x div 10;
               n = (if e < 9 then x div 9 * 10 + (x mod 9 + 1) else x + 1)
           in ((\<lambda>n. n * 10) ^^ e) n)"

section \<open>Scripts\<close>

definition nSpecialScripts :: nat where "nSpecialScripts = 6"

definition IsToKeyID :: "CScript \<Rightarrow> byte list option" where
  "IsToKeyID script =
     (if length script = 25 \<and> unat (script ! 0) = OP_DUP \<and> unat (script ! 1) = OP_HASH160 \<and> script ! 2 = 20
         \<and> unat (script ! 23) = OP_EQUALVERIFY \<and> unat (script ! 24) = OP_CHECKSIG
      then Some (take 20 (drop 3 script)) else None)"

definition IsToScriptID :: "CScript \<Rightarrow> byte list option" where
  "IsToScriptID script =
     (if length script = 23 \<and> unat (script ! 0) = OP_HASH160 \<and> script ! 1 = 20 \<and> unat (script ! 22) = OP_EQUAL
      then Some (take 20 (drop 2 script)) else None)"

definition IsToPubKey :: "'p curve \<Rightarrow> CScript \<Rightarrow> byte list option" where
  "IsToPubKey E script =
     (if length script = 35 \<and> script ! 0 = 33 \<and> unat (script ! 34) = OP_CHECKSIG \<and> (script ! 1 = 0x02 \<or> script ! 1 = 0x03)
      then Some (take 33 (drop 1 script))
      else if length script = 67 \<and> script ! 0 = 65 \<and> unat (script ! 66) = OP_CHECKSIG \<and> script ! 1 = 0x04
      then (let pubkey = take 65 (drop 1 script) in
            if fst (SetPubKey E pubkey CKey_new) then Some pubkey else None)
      else None)"

definition Compress_script :: "'p curve \<Rightarrow> CScript \<Rightarrow> byte list option" where
  "Compress_script E script =
     (case IsToKeyID script of Some keyID \<Rightarrow> Some (0x00 # keyID) | None \<Rightarrow>
     (case IsToScriptID script of Some scriptID \<Rightarrow> Some (0x01 # scriptID) | None \<Rightarrow>
     (case IsToPubKey E script of
        Some pubkey \<Rightarrow>
          (let x = take 32 (drop 1 pubkey) in
           if pubkey ! 0 = 0x02 \<or> pubkey ! 0 = 0x03 then Some (pubkey ! 0 # x)
           else if pubkey ! 0 = 0x04 then Some ((0x04 OR (pubkey ! 64 AND 0x01)) # x)
           else None)
      | None \<Rightarrow> None)))"

definition GetSpecialSize :: "nat \<Rightarrow> nat" where
  "GetSpecialSize nSize =
     (if nSize = 0 \<or> nSize = 1 then 20
      else if nSize = 2 \<or> nSize = 3 \<or> nSize = 4 \<or> nSize = 5 then 32 else 0)"

text \<open>
  \<open>None\<close> where \<^verbatim>\<open>Decompress\<close> returns false and leaves the script as it was.  The copy of the public key
  reads 65 bytes, which the uncompressed form has.
\<close>

definition Decompress_script :: "'p curve \<Rightarrow> nat \<Rightarrow> byte list \<Rightarrow> CScript option res" where
  "Decompress_script E nSize ins =
     (if nSize = 0 then
        Inr (Some (op_byte OP_DUP @ op_byte OP_HASH160 @ [20] @ take 20 ins @ op_byte OP_EQUALVERIFY @ op_byte OP_CHECKSIG))
      else if nSize = 1 then Inr (Some (op_byte OP_HASH160 @ [20] @ take 20 ins @ op_byte OP_EQUAL))
      else if nSize = 2 \<or> nSize = 3 then Inr (Some ([33, of_nat nSize] @ take 32 ins @ op_byte OP_CHECKSIG))
      else if nSize = 4 \<or> nSize = 5 then
        (case SetPubKey E (of_nat (nSize - 2) # take 32 ins) CKey_new of
           (False, _) \<Rightarrow> Inr None
         | (True, key) \<Rightarrow>
             rbind (GetPubKey E (SetCompressedPubKey False key)) (\<lambda>pubkey.
               Inr (Some ([65] @ take 65 pubkey @ op_byte OP_CHECKSIG))))
      else Inr None)"

definition script_compr_size :: "'p curve \<Rightarrow> CScript \<Rightarrow> nat" where
  "script_compr_size E script = (case Compress_script E script of
     Some compr \<Rightarrow> length compr
   | None \<Rightarrow> length script + GetSizeOfVarInt ((length script + nSpecialScripts) mod 2 ^ 32))"

definition ser_script_compr :: "'p curve \<Rightarrow> CScript \<Rightarrow> byte list" where
  "ser_script_compr E script = (case Compress_script E script of
     Some compr \<Rightarrow> compr
   | None \<Rightarrow> WriteVarInt ((length script + nSpecialScripts) mod 2 ^ 32) @ script)"

text \<open>The script object that is read into is empty before.\<close>

definition unser_script_compr :: "'p curve \<Rightarrow> CScript reader" where
  "unser_script_compr E is =
     rbind (ReadVarInt 32 is) (\<lambda>(nSize, is).
       if nSize < nSpecialScripts then
         rbind (stream_read (GetSpecialSize nSize) is) (\<lambda>(vch, is).
           rbind (Decompress_script E nSize vch) (\<lambda>r. Inr (case r of Some script \<Rightarrow> script | None \<Rightarrow> [], is)))
       else stream_read (nSize - nSpecialScripts) is)"

section \<open>Outputs and undo records\<close>

definition ser_txoutc :: "'p curve \<Rightarrow> CTxOut \<Rightarrow> byte list res" where
  "ser_txoutc E txout =
     rbind (CompressAmount (word_of_int (nValue txout))) (\<lambda>nVal.
       Inr (WriteVarInt (unat nVal) @ ser_script_compr E (scriptPubKey txout)))"

definition unser_txoutc :: "'p curve \<Rightarrow> CTxOut reader" where
  "unser_txoutc E is =
     rbind (ReadVarInt 64 is) (\<lambda>(nVal, is).
     rbind (unser_script_compr E is) (\<lambda>(script, is).
     Inr (\<lparr>nValue = sint (DecompressAmount (of_nat nVal)), scriptPubKey = script\<rparr>, is)))"

record CTxInUndo =
  undo_txout :: CTxOut
  undo_fCoinBase :: bool
  undo_nHeight :: u32
  undo_nVersion :: int

definition CTxInUndo_of :: "CTxOut \<Rightarrow> CTxInUndo" where
  "CTxInUndo_of txoutIn = \<lparr>undo_txout = txoutIn, undo_fCoinBase = False, undo_nHeight = 0, undo_nVersion = 0\<rparr>"

definition ser_txinundo :: "'p curve \<Rightarrow> CTxInUndo \<Rightarrow> byte list res" where
  "ser_txinundo E u =
     rbind (ser_txoutc E (undo_txout u)) (\<lambda>out.
       Inr (WriteVarInt (unat (undo_nHeight u * 2 + (if undo_fCoinBase u then 1 else 0))) @
            (if undo_nHeight u > 0 then WriteVarInt_int (undo_nVersion u) else []) @ out))"

definition unser_txinundo :: "'p curve \<Rightarrow> CTxInUndo reader" where
  "unser_txinundo E is =
     rbind (ReadVarInt 32 is) (\<lambda>(nCode, is).
     rbind (if nCode div 2 > 0 then ReadVarInt_int is else Inr (0, is)) (\<lambda>(v, is).
     rbind (unser_txoutc E is) (\<lambda>(out, is).
     Inr (\<lparr>undo_txout = out, undo_fCoinBase = (nCode mod 2 = 1), undo_nHeight = of_nat (nCode div 2), undo_nVersion = v\<rparr>, is))))"

text \<open>Vectors of objects whose serializer returns a result.\<close>

fun ser_all :: "('a \<Rightarrow> byte list res) \<Rightarrow> 'a list \<Rightarrow> byte list res" where
  "ser_all ser [] = Inr []"
| "ser_all ser (x # xs) = rbind (ser x) (\<lambda>b. rbind (ser_all ser xs) (\<lambda>bs. Inr (b @ bs)))"

definition Serialize_vector_res :: "('a \<Rightarrow> byte list res) \<Rightarrow> 'a list \<Rightarrow> byte list res" where
  "Serialize_vector_res ser v = rbind (ser_all ser v) (\<lambda>bs. Inr (WriteCompactSize (length v) @ bs))"

type_synonym CTxUndo = "CTxInUndo list"
type_synonym CBlockUndo = "CTxUndo list"

definition ser_txundo :: "'p curve \<Rightarrow> CTxUndo \<Rightarrow> byte list res" where
  "ser_txundo E = Serialize_vector_res (ser_txinundo E)"

definition unser_txundo :: "'p curve \<Rightarrow> CTxUndo reader" where
  "unser_txundo E = Unserialize_vector (unser_txinundo E)"

definition ser_blockundo :: "'p curve \<Rightarrow> CBlockUndo \<Rightarrow> byte list res" where
  "ser_blockundo E = Serialize_vector_res (ser_txundo E)"

definition unser_blockundo :: "'p curve \<Rightarrow> CBlockUndo reader" where
  "unser_blockundo E = Unserialize_vector (unser_txundo E)"

text \<open>
  The undo file as a byte string that is appended to.  \<open>magic\<close> are the four bytes \<^verbatim>\<open>pchMessageStart\<close>; the
  result is the file and the position of the data.  Reading returns \<open>None\<close> for each of its failures.
\<close>

definition undo_WriteToDisk :: "digests \<Rightarrow> 'p curve \<Rightarrow> byte list \<Rightarrow> byte list \<Rightarrow> uint256 \<Rightarrow> CBlockUndo \<Rightarrow> (byte list \<times> nat) res" where
  "undo_WriteToDisk D E magic file hashBlock undo =
     rbind (ser_blockundo E undo) (\<lambda>bs.
       let file1 = file @ magic @ write_le 4 (length bs)
       in Inr (file1 @ bs @ image256 (Hash D (image256 hashBlock @ bs)), length file1))"

definition undo_ReadFromDisk :: "digests \<Rightarrow> 'p curve \<Rightarrow> byte list \<Rightarrow> nat \<Rightarrow> uint256 \<Rightarrow> CBlockUndo option" where
  "undo_ReadFromDisk D E file nPos hashBlock = (case unser_blockundo E (drop nPos file) of
     Inl _ \<Rightarrow> None
   | Inr (undo, rest) \<Rightarrow> (case read_le 32 rest of
       Inl _ \<Rightarrow> None
     | Inr (chk, _) \<Rightarrow> (case ser_blockundo E undo of
         Inl _ \<Rightarrow> None
       | Inr bs \<Rightarrow> if of_nat chk \<noteq> Hash D (image256 hashBlock @ bs) then None else Some undo)))"

section \<open>Reference definitions\<close>

text \<open>
  What OpenSSL documents of uncompressed points: a valid one is the uncompressed encoding of the point it decodes to, and
  its first coordinate with the parity of the second decodes to the same point.
\<close>

definition point_laws :: "'p curve \<Rightarrow> bool" where
  "point_laws E \<longleftrightarrow> (\<forall>x y p. length x = 32 \<and> length y = 32 \<and> EC_POINT_oct2point E (0x04 # x @ y) = Some p \<longrightarrow>
     EC_POINT_oct2point E ((if last y AND 1 = 0 then 2 else 3) # x) = Some p \<and> EC_POINT_point2oct E p False = 0x04 # x @ y)"

text \<open>The values the compact formats can carry.\<close>

definition valid_txoutc :: "'p curve \<Rightarrow> CTxOut \<Rightarrow> bool" where
  "valid_txoutc E txout \<longleftrightarrow> point_laws E \<and> 0 \<le> nValue txout \<and> nValue txout < 2 ^ 60 \<and> length (scriptPubKey txout) + 6 < 2 ^ 32"

definition valid_txinundo :: "'p curve \<Rightarrow> CTxInUndo \<Rightarrow> bool" where
  "valid_txinundo E u \<longleftrightarrow> valid_txoutc E (undo_txout u) \<and> unat (undo_nHeight u) < 2 ^ 31 \<and>
     (if undo_nHeight u = 0 then undo_nVersion u = 0 else 0 \<le> undo_nVersion u \<and> undo_nVersion u < 2 ^ 31)"

definition valid_blockundo :: "'p curve \<Rightarrow> CBlockUndo \<Rightarrow> bool" where
  "valid_blockundo E undo \<longleftrightarrow> length undo \<le> MAX_SIZE \<and>
     (\<forall>t\<in>set undo. length t \<le> MAX_SIZE \<and> (\<forall>u\<in>set t. valid_txinundo E u))"

text \<open>A concrete curve with the laws: points are first coordinates, with second coordinate zero.\<close>

definition flat_curve :: "byte list curve" where
  "flat_curve = \<lparr>EC_POINT_mul = (\<lambda>d. le_bytes 32 d),
     EC_POINT_oct2point = (\<lambda>bs. if length bs = 65 \<and> hd bs = 4 \<and> drop 33 bs = replicate 32 0 then Some (take 32 (tl bs))
       else if length bs = 33 \<and> hd bs = 2 then Some (tl bs) else None),
     EC_POINT_point2oct = (\<lambda>p c. if c then 2 # p else 4 # p @ replicate 32 0),
     ECDSA_sign = (\<lambda>h d. None), ECDSA_verify = (\<lambda>h s p. False)\<rparr>"

definition flat_undo :: CBlockUndo where
  "flat_undo = [[\<lparr>undo_txout = \<lparr>nValue = 5000000, scriptPubKey = 65 # 4 # replicate 32 7 @ replicate 32 0 @ [0xAC]\<rparr>,
     undo_fCoinBase = True, undo_nHeight = 3, undo_nVersion = 1\<rparr>]]"

section \<open>Lemmas\<close>

lemma u64_of_nat:
  assumes "x < 2 ^ 64" "y < 2 ^ 64"
  shows "(of_nat x :: u64) div of_nat y = of_nat (x div y)" "(of_nat x :: u64) mod of_nat y = of_nat (x mod y)"
    "(of_nat x :: u64) = of_nat y \<longleftrightarrow> x = y"
  using assms by (simp_all add: word_unat_eq_iff unat_div unat_mod unat_of_nat less_imp_diff_less
      mod_less_eq_dividend order_le_less_trans [OF div_le_dividend] order_le_less_trans [OF mod_less_eq_dividend])

lemma dec_digit: "e < b \<Longrightarrow> (q * b + e) mod b = e" "e < b \<Longrightarrow> (q * b + e) div b = q" for q e b :: nat
  by simp_all

lemma pow10_iter: "((\<lambda>n. n * 10) ^^ e) (n :: u64) = n * 10 ^ e"
  by (induction e) (simp_all add: algebra_simps)

lemma strip_zeros_spec:
  assumes "strip_zeros (of_nat n) e = (m, e')" "n < 2 ^ 64" "0 < n" "e \<le> 9"
  shows "\<exists>k. m = of_nat k \<and> n = k * 10 ^ (e' - e) \<and> 0 < k \<and> e \<le> e' \<and> e' \<le> 9 \<and> (e' = 9 \<or> k mod 10 \<noteq> 0)"
  using assms
proof (induction "9 - e" arbitrary: n e)
  case 0
  then show ?case by (subst (asm) strip_zeros.simps) auto
next
  case (Suc d)
  show ?case
  proof (cases "n mod 10 = 0")
    case True
    then have z: "(of_nat n :: u64) mod 10 = 0" "(of_nat n :: u64) div 10 = of_nat (n div 10)"
      using u64_of_nat(1,2) [of n 10] Suc.prems(2) by simp_all
    have "e < 9" using Suc.hyps(2) by simp
    then have "strip_zeros (of_nat (n div 10)) (e + 1) = (m, e')"
      using Suc.prems(1) z by (subst (asm) strip_zeros.simps) simp
    moreover have "n div 10 < 2 ^ 64" "0 < n div 10" using Suc.prems(2,3) True by auto
    moreover have "d = 9 - (e + 1)" using Suc.hyps(2) by simp
    ultimately obtain k where k: "m = of_nat k" "n div 10 = k * 10 ^ (e' - (e + 1))" "0 < k" "e + 1 \<le> e'" "e' \<le> 9" "e' = 9 \<or> k mod 10 \<noteq> 0"
      using Suc.hyps(1) [of "e + 1" "n div 10"] \<open>e < 9\<close> by (metis Suc_eq_plus1 Suc_leI)
    have "n = 10 * (n div 10)" using True by auto
    also have "\<dots> = k * 10 ^ (e' - e)" using k(2,4) by (simp add: power_eq_if)
    finally show ?thesis using k by auto
  next
    case False
    then have z: "(of_nat n :: u64) mod 10 \<noteq> 0"
      using u64_of_nat(2) [of n 10] u64_of_nat(3) [of "n mod 10" 0] Suc.prems(2) by simp
    then have "m = of_nat n" "e' = e" using Suc.prems(1) by (simp_all add: strip_zeros.simps [of _ e])
    then show ?thesis using Suc.prems False by auto
  qed
qed

lemma DecompressAmount_nat:
  assumes "x < 2 ^ 64" "0 < x"
  shows "DecompressAmount (of_nat x) = of_nat (
    (if (x - 1) mod 10 < 9 then (x - 1) div 10 div 9 * 10 + ((x - 1) div 10 mod 9 + 1) else (x - 1) div 10 + 1) * 10 ^ ((x - 1) mod 10))"
proof -
  define y where "y = x - 1"
  have y: "y < 2 ^ 64" "y div 10 < 2 ^ 64" "(of_nat x :: u64) - 1 = of_nat y"
    using assms by (auto simp: y_def of_nat_diff)
  have ne: "(of_nat x :: u64) \<noteq> 0" using u64_of_nat(3) [of x 0] assms by simp
  note d = u64_of_nat(1,2) [OF y(1), of 10] u64_of_nat(1,2) [OF y(2), of 9]
  have "unat ((of_nat (y mod 10)) :: u64) = y mod 10" by (simp add: unat_of_nat)
  then show ?thesis
    using d unfolding DecompressAmount_def Let_def y(3) y_def [symmetric]
    by (simp add: ne pow10_iter add_ac)
qed

lemma amount_roundtrip_aux:
  assumes "n < 2 ^ 60"
  shows "\<exists>x. CompressAmount (of_nat n) = Inr (of_nat x) \<and> x < 2 ^ 64 \<and> DecompressAmount (of_nat x) = of_nat n"
proof (cases "n = 0")
  case True
  then show ?thesis by (auto simp: CompressAmount_def DecompressAmount_def intro: exI [of _ 0])
next
  case False
  obtain m e where s: "strip_zeros (of_nat n) 0 = (m, e)" by fastforce
  obtain k where k: "m = of_nat k" "n = k * 10 ^ e" "0 < k" "e \<le> 9" "e = 9 \<or> k mod 10 \<noteq> 0"
    using strip_zeros_spec [OF s] assms False by auto
  have kn: "k \<le> n" using k(2) by simp
  then have k64: "k < 2 ^ 60" using assms by simp
  have nz: "(of_nat n :: u64) \<noteq> 0" using u64_of_nat(3) [of n 0] assms False by simp
  show ?thesis
  proof (cases "e < 9")
    case True
    define d where "d = k mod 10"
    have d: "1 \<le> d" "d \<le> 9" using k(5) True by (auto simp: d_def)
    define y where "y = (k div 10 * 9 + (d - 1)) * 10 + e"
    have yb: "y + 1 < 2 ^ 64" using k64 True d unfolding y_def by auto
    have w: "(of_nat k :: u64) mod 10 = of_nat d" "(of_nat k :: u64) div 10 = of_nat (k div 10)"
      using u64_of_nat(1,2) [of k 10] k64 by (simp_all add: d_def)
    have dw: "1 \<le> (of_nat d :: u64)" "(of_nat d :: u64) \<le> 9" "(of_nat d :: u64) - 1 = of_nat (d - 1)"
      using d by (simp_all add: word_le_nat_alt unat_of_nat of_nat_diff)
    have "CompressAmount (of_nat n) = Inr (of_nat (y + 1))"
      using nz True dw unfolding CompressAmount_def s k(1) y_def
      by (simp add: w add_diff_eq [symmetric] Let_def)
    moreover have "y mod 10 = e" "y div 10 = k div 10 * 9 + (d - 1)"
      unfolding y_def by (rule dec_digit, use True in simp)+
    moreover have "(k div 10 * 9 + (d - 1)) div 9 = k div 10" "(k div 10 * 9 + (d - 1)) mod 9 = d - 1"
      by (rule dec_digit, use d in simp)+
    ultimately have "DecompressAmount (of_nat (y + 1)) = of_nat ((k div 10 * 10 + d) * 10 ^ e)"
      using DecompressAmount_nat [OF yb] True d by (simp del: add_diff_assoc)
    moreover have "(k div 10 * 10 + d) * 10 ^ e = n" by (simp add: d_def k(2))
    ultimately show ?thesis using yb \<open>CompressAmount (of_nat n) = _\<close> by metis
  next
    case False
    then have e: "e = 9" using k(4) by simp
    define y where "y = (k - 1) * 10 + 9"
    have yb: "y + 1 < 2 ^ 64" using k64 unfolding y_def by auto
    have "CompressAmount (of_nat n) = Inr (of_nat (y + 1))"
      using nz k(3) unfolding CompressAmount_def s k(1) e y_def by (simp add: of_nat_diff)
    moreover have "y mod 10 = 9" "y div 10 = k - 1" by (simp_all add: y_def)
    ultimately show ?thesis
      using DecompressAmount_nat [OF yb] yb k(2,3) by (auto simp: e intro: exI [of _ "y + 1"])
  qed
qed

section \<open>Scripts\<close>

lemma list_25:
  assumes "length s = a + b + c"
  shows "s = take a s @ take b (drop a s) @ drop (a + b) s"
  by (metis append_take_drop_id drop_drop add.commute)

lemma take_nth_1: "1 \<le> length s \<Longrightarrow> take 1 s = [s ! 0]"
  by (cases s) auto

lemma ReadVarInt_small:
  assumes "unat b < 128"
  shows "ReadVarInt w (b # rest) = Inr (unat b mod 2 ^ w, rest)"
  using digit_bits(3,4) [OF assms] by (simp add: ReadVarInt_def)

lemma op_byte_unat: "unat b = opcode \<Longrightarrow> [b] = op_byte opcode"
  by (auto simp: op_byte_def)

lemma IsToKeyID_split:
  assumes "IsToKeyID s = Some h"
  shows "s = op_byte OP_DUP @ op_byte OP_HASH160 @ [20] @ h @ op_byte OP_EQUALVERIFY @ op_byte OP_CHECKSIG \<and> length h = 20"
proof -
  have l: "length s = 25" and c: "unat (s ! 0) = OP_DUP" "unat (s ! 1) = OP_HASH160" "s ! 2 = 20"
    "unat (s ! 23) = OP_EQUALVERIFY" "unat (s ! 24) = OP_CHECKSIG" and h: "h = take 20 (drop 3 s)"
    using assms by (auto simp: IsToKeyID_def split: if_splits)
  have "s = take 3 s @ take 20 (drop 3 s) @ drop 23 s" using list_25 [of s 3 20 2] l by simp
  moreover have "take 3 s = [s ! 0] @ [s ! 1] @ [s ! 2]" "drop 23 s = [s ! 23] @ [s ! 24]"
    using l by (auto intro!: nth_equalityI simp: less_Suc_eq numeral_eq_Suc)
  ultimately show ?thesis unfolding h c(3) op_byte_unat [OF c(1)] op_byte_unat [OF c(2)] op_byte_unat [OF c(4)] op_byte_unat [OF c(5)]
    using l by simp
qed

lemma IsToScriptID_split:
  assumes "IsToScriptID s = Some h"
  shows "s = op_byte OP_HASH160 @ [20] @ h @ op_byte OP_EQUAL \<and> length h = 20"
proof -
  have l: "length s = 23" and c: "unat (s ! 0) = OP_HASH160" "s ! 1 = 20" "unat (s ! 22) = OP_EQUAL" and h: "h = take 20 (drop 2 s)"
    using assms by (auto simp: IsToScriptID_def split: if_splits)
  have "s = take 2 s @ take 20 (drop 2 s) @ drop 22 s" using list_25 [of s 2 20 1] l by simp
  moreover have "take 2 s = [s ! 0] @ [s ! 1]" "drop 22 s = [s ! 22]"
    using l by (auto intro!: nth_equalityI simp: less_Suc_eq numeral_eq_Suc)
  ultimately show ?thesis unfolding h c(2) op_byte_unat [OF c(1)] op_byte_unat [OF c(3)]
    using l by simp
qed

lemma split_middle:
  assumes "length s = n + 2" "unat (s ! (n + 1)) = opcode"
  shows "s = [s ! 0] @ take n (drop 1 s) @ op_byte opcode"
proof -
  have "s = take 1 s @ take n (drop 1 s) @ drop (1 + n) s" using list_25 [of s 1 n 1] assms(1) by simp
  moreover have "drop (1 + n) s = [s ! (n + 1)]" using assms(1) by (auto intro!: nth_equalityI)
  moreover have "take 1 s = [s ! 0]" by (rule take_nth_1) (simp add: assms(1))
  ultimately show ?thesis unfolding op_byte_unat [OF assms(2), symmetric] by simp
qed

lemma IsToPubKey_split:
  assumes "IsToPubKey E s = Some pk"
  shows "(s = [33] @ pk @ op_byte OP_CHECKSIG \<and> length pk = 33 \<and> (pk ! 0 = 2 \<or> pk ! 0 = 3)) \<or>
    (s = [65] @ pk @ op_byte OP_CHECKSIG \<and> length pk = 65 \<and> pk ! 0 = 4 \<and> fst (SetPubKey E pk CKey_new))"
proof (cases "length s = 35 \<and> s ! 0 = 33 \<and> unat (s ! 34) = OP_CHECKSIG \<and> (s ! 1 = 0x02 \<or> s ! 1 = 0x03)")
  case True
  then have "pk = take 33 (drop 1 s)" using assms by (simp add: IsToPubKey_def)
  moreover have "s = [s ! 0] @ take 33 (drop 1 s) @ op_byte OP_CHECKSIG" by (rule split_middle) (use True in simp_all)
  ultimately show ?thesis using True by simp
next
  case False
  then have c: "length s = 67" "s ! 0 = 65" "unat (s ! 66) = OP_CHECKSIG" "s ! 1 = 0x04" "pk = take 65 (drop 1 s)"
    "fst (SetPubKey E pk CKey_new)"
    using assms by (simp_all add: IsToPubKey_def Let_def split: if_splits)
  moreover have "s = [s ! 0] @ take 65 (drop 1 s) @ op_byte OP_CHECKSIG" by (rule split_middle) (use c in simp_all)
  ultimately show ?thesis by simp
qed

lemma parity_code:
  fixes b :: byte
  shows "unat (0x04 OR (b AND 0x01)) = (if b AND 1 = 0 then 4 else 5)"
proof -
  have "b AND 1 = 0 \<or> b AND 1 = 1" by (simp add: and_one_eq mod_2_eq_odd)
  then show ?thesis by auto
qed

lemma Decompress_uncompressed:
  assumes "point_laws E" "length pk = 65" "pk ! 0 = 4" "fst (SetPubKey E pk CKey_new)"
  shows "Decompress_script E (unat (0x04 OR (pk ! 64 AND 0x01))) (take 32 (drop 1 pk)) = Inr (Some ([65] @ pk @ op_byte OP_CHECKSIG))"
proof -
  define x y where "x = take 32 (drop 1 pk)" and "y = drop 33 pk"
  have l: "length x = 32" "length y = 32" using assms(2) by (simp_all add: x_def y_def)
  have "pk = take 1 pk @ take 32 (drop 1 pk) @ drop 33 pk" using list_25 [of pk 1 32 32] assms(2) by simp
  moreover have "take 1 pk = [4]" using take_nth_1 [of pk] assms(2,3) by simp
  ultimately have pk: "pk = 4 # x @ y" unfolding x_def y_def by simp
  have "last y = pk ! 64" using assms(2) by (simp add: y_def last_conv_nth)
  moreover obtain p where p: "EC_POINT_oct2point E pk = Some p"
    using assms(4) by (auto simp: SetPubKey_def o2i_ECPublicKey_def split: list.splits option.splits)
  ultimately have q: "EC_POINT_oct2point E ((if pk ! 64 AND 1 = 0 then 2 else 3) # x) = Some p" "EC_POINT_point2oct E p False = pk"
    using assms(1) l unfolding point_laws_def pk by (metis, metis)
  define n where "n = unat ((0x04 :: byte) OR (pk ! 64 AND 0x01))"
  have n: "n = 4 \<or> n = 5" "(of_nat (n - 2) :: byte) = (if pk ! 64 AND 1 = 0 then 2 else 3)"
    by (simp_all add: n_def parity_code)
  obtain key where "SetPubKey E (of_nat (n - 2) # x) CKey_new = (True, key)" "pub_key (pkey key) = Some p"
    using q(1) unfolding n(2) by (simp add: SetPubKey_def o2i_ECPublicKey_def l SetCompressedPubKey_def)
  then show ?thesis
    using n(1) q(2) assms(2) l unfolding n_def [symmetric] x_def [symmetric] Decompress_script_def
    by (auto simp: GetPubKey_def SetCompressedPubKey_def)
qed

lemma Compress_Decompress:
  assumes "point_laws E" "Compress_script E s = Some (b # bs)"
  shows "unat b < 6 \<and> length bs = GetSpecialSize (unat b) \<and> Decompress_script E (unat b) bs = Inr (Some s)"
proof (cases "IsToKeyID s")
  case (Some h)
  then show ?thesis using assms(2) IsToKeyID_split [OF Some] by (auto simp: Compress_script_def GetSpecialSize_def Decompress_script_def)
next
  case None
  note n1 = this
  show ?thesis
  proof (cases "IsToScriptID s")
    case (Some h)
    then show ?thesis using assms(2) n1 IsToScriptID_split [OF Some] by (auto simp: Compress_script_def GetSpecialSize_def Decompress_script_def)
  next
    case None
    then obtain pk where pk: "IsToPubKey E s = Some pk" using assms(2) n1 by (auto simp: Compress_script_def split: option.splits)
    have c: "Compress_script E s = (if pk ! 0 = 2 \<or> pk ! 0 = 3 then Some (pk ! 0 # take 32 (drop 1 pk))
        else if pk ! 0 = 4 then Some ((0x04 OR (pk ! 64 AND 0x01)) # take 32 (drop 1 pk)) else None)"
      by (simp add: Compress_script_def n1 None pk Let_def)
    consider (compressed) "s = [33] @ pk @ op_byte OP_CHECKSIG" "length pk = 33" "pk ! 0 = 2 \<or> pk ! 0 = 3"
      | (plain) "s = [65] @ pk @ op_byte OP_CHECKSIG" "length pk = 65" "pk ! 0 = 4" "fst (SetPubKey E pk CKey_new)"
      using IsToPubKey_split [OF pk] by blast
    then show ?thesis
    proof cases
      case a: compressed
      then have "pk = pk ! 0 # take 32 (drop 1 pk)" by (cases pk) simp_all
      then show ?thesis using assms(2) c a
        by (auto simp: GetSpecialSize_def Decompress_script_def)
    next
      case a: plain
      have "b = (0x04 OR (pk ! 64 AND 0x01))" "bs = take 32 (drop 1 pk)" using assms(2) c a(3) by simp_all
      then show ?thesis
        using Decompress_uncompressed [OF assms(1) a(2-4)] a(1,2) by (simp add: parity_code GetSpecialSize_def)
    qed
  qed
qed

lemma script_compr_roundtrip:
  assumes "point_laws E" "length s + 6 < 2 ^ 32"
  shows "unser_script_compr E (ser_script_compr E s @ rest) = Inr (s, rest)"
proof (cases "Compress_script E s")
  case None
  then show ?thesis
    using assms(2) ReadVarInt_write [of "length s + 6" 32]
    by (simp add: ser_script_compr_def unser_script_compr_def nSpecialScripts_def)
next
  case (Some c)
  then obtain b bs where c: "c = b # bs" by (auto simp: Compress_script_def Let_def split: option.splits if_splits)
  from Compress_Decompress [OF assms(1) Some [unfolded c]]
  have d: "unat b < 6" "length bs = GetSpecialSize (unat b)" "Decompress_script E (unat b) bs = Inr (Some s)" by simp_all
  have "stream_read (GetSpecialSize (unat b)) (bs @ rest) = Inr (bs, rest)" using stream_read_append [of bs rest] d(2) by simp
  then show ?thesis using d Some ReadVarInt_small [of b 32 "bs @ rest"]
    by (simp add: ser_script_compr_def unser_script_compr_def nSpecialScripts_def c)
qed

section \<open>The contract of a serializer that can fail\<close>

locale codec_res =
  fixes ser :: "'a \<Rightarrow> byte list res"
    and unser :: "'a reader"
    and valid :: "'a \<Rightarrow> bool"
  assumes ser_unser: "valid x \<Longrightarrow> \<exists>bs. ser x = Inr bs \<and> (\<forall>rest. unser (bs @ rest) = Inr (x, rest))"
begin

lemma ser_all_unser:
  "\<forall>x\<in>set xs. valid x \<Longrightarrow> \<exists>bs. ser_all ser xs = Inr bs \<and> (\<forall>rest. read_elements unser (length xs) (bs @ rest) = Inr (xs, rest))"
proof (induction xs)
  case (Cons x xs)
  obtain b where b: "ser x = Inr b" "\<And>rest. unser (b @ rest) = Inr (x, rest)" using ser_unser [of x] Cons.prems by auto
  obtain bs where bs: "ser_all ser xs = Inr bs" "\<And>rest. read_elements unser (length xs) (bs @ rest) = Inr (xs, rest)"
    using Cons by auto
  show ?case using b bs by simp
qed simp

lemma vector_ser_unser:
  assumes "length xs \<le> MAX_SIZE" "\<forall>x\<in>set xs. valid x"
  shows "\<exists>bs. Serialize_vector_res ser xs = Inr bs \<and> (\<forall>rest. Unserialize_vector unser (bs @ rest) = Inr (xs, rest))"
  using ser_all_unser [OF assms(2)] ReadCompactSize_write [OF assms(1)]
  by (auto simp: Serialize_vector_res_def Unserialize_vector_def)

end

lemma VarInt_int_roundtrip: "0 \<le> v \<Longrightarrow> v < 2 ^ 31 \<Longrightarrow> ReadVarInt_int (WriteVarInt_int v @ rest) = Inr (v, rest)"
  using ReadVarInt_write [of "nat v" 32 rest] by (simp add: ReadVarInt_int_def WriteVarInt_int_def to_signed_def)

interpretation txoutc: codec_res "ser_txoutc E" "unser_txoutc E" "valid_txoutc E"
proof
  fix out assume v: "valid_txoutc E out"
  then have "nat (nValue out) < 2 ^ 60" by (simp add: valid_txoutc_def nat_less_iff)
  then obtain x where x: "CompressAmount (of_nat (nat (nValue out))) = Inr (of_nat x)" "x < 2 ^ 64"
    "DecompressAmount (of_nat x) = of_nat (nat (nValue out))"
    using amount_roundtrip_aux by blast
  have w: "(of_nat (nat (nValue out)) :: u64) = word_of_int (nValue out)" using v by (simp add: valid_txoutc_def)
  have "sint (word_of_int (nValue out) :: u64) = nValue out"
    using v by (simp add: valid_txoutc_def signed_of_int signed_take_bit_int_eq_self)
  then show "\<exists>bs. ser_txoutc E out = Inr bs \<and> (\<forall>rest. unser_txoutc E (bs @ rest) = Inr (out, rest))"
    using x v script_compr_roundtrip [of E "scriptPubKey out"] ReadVarInt_write [of x 64]
    by (simp add: w ser_txoutc_def unser_txoutc_def valid_txoutc_def unat_of_nat)
qed

interpretation txinundo: codec_res "ser_txinundo E" "unser_txinundo E" "valid_txinundo E"
proof
  fix u assume v: "valid_txinundo E u"
  then obtain bs where bs: "ser_txoutc E (undo_txout u) = Inr bs" "\<And>rest. unser_txoutc E (bs @ rest) = Inr (undo_txout u, rest)"
    using txoutc.ser_unser [of E "undo_txout u"] by (auto simp: valid_txinundo_def)
  define c where "c = unat (undo_nHeight u) * 2 + (if undo_fCoinBase u then 1 else 0)"
  have h: "unat (undo_nHeight u) < 2 ^ 31" using v by (simp add: valid_txinundo_def)
  then have c32: "c < 2 ^ 32" by (simp add: c_def)
  have "undo_nHeight u * 2 + (if undo_fCoinBase u then 1 else 0) = of_nat c" by (simp add: c_def)
  then have code: "unat (undo_nHeight u * 2 + (if undo_fCoinBase u then 1 else 0)) = c"
    using c32 by (simp add: unat_of_nat del: of_nat_add)
  have dm: "c div 2 = unat (undo_nHeight u)" "(c mod 2 = Suc 0) = undo_fCoinBase u" by (auto simp: c_def)
  show "\<exists>bs. ser_txinundo E u = Inr bs \<and> (\<forall>rest. unser_txinundo E (bs @ rest) = Inr (u, rest))"
    using v bs VarInt_int_roundtrip [of "undo_nVersion u"] ReadVarInt_write [OF c32]
    by (auto simp: ser_txinundo_def unser_txinundo_def code dm valid_txinundo_def unat_gt_0 word_gt_0)
qed

interpretation txundo: codec_res "ser_txundo E" "unser_txundo E" "\<lambda>t. length t \<le> MAX_SIZE \<and> (\<forall>u\<in>set t. valid_txinundo E u)"
  by unfold_locales (use txinundo.vector_ser_unser in \<open>auto simp: ser_txundo_def unser_txundo_def\<close>)

interpretation blockundo: codec_res "ser_blockundo E" "unser_blockundo E" "valid_blockundo E"
  by unfold_locales (use txundo.vector_ser_unser in \<open>auto simp: ser_blockundo_def unser_blockundo_def valid_blockundo_def\<close>)

lemma undo_read_written:
  assumes "valid_blockundo E undo"
  shows "\<exists>bs. ser_blockundo E undo = Inr bs \<and> (\<forall>f later. undo_ReadFromDisk D E ((f @ bs @ image256 (Hash D (image256 hashBlock @ bs))) @ later)
      (length f) hashBlock' = (if Hash D (image256 hashBlock' @ bs) = Hash D (image256 hashBlock @ bs) then Some undo else None))"
proof -
  obtain bs where bs: "ser_blockundo E undo = Inr bs" "\<And>rest. unser_blockundo E (bs @ rest) = Inr (undo, rest)"
    using blockundo.ser_unser [OF assms] by auto
  let ?h = "Hash D (image256 hashBlock @ bs)"
  have "read_le 32 (image256 ?h @ later) = Inr (unat ?h, later)" for later
    using read_le_write [of "unat ?h" 32 later] unat_less_len [of ?h] by (simp add: image256_def write_le_def)
  moreover have "drop (length f) ((f @ bs @ image256 ?h) @ later) = bs @ image256 ?h @ later" for f later by simp
  ultimately have "undo_ReadFromDisk D E ((f @ bs @ image256 ?h) @ later) (length f) hashBlock' =
      (if Hash D (image256 hashBlock' @ bs) = ?h then Some undo else None)" for f later
    unfolding undo_ReadFromDisk_def by (simp add: bs)
  then show ?thesis using bs(1) by blast
qed

section \<open>Properties\<close>

text \<open>
  C34. Undo data on disk: what \<^verbatim>\<open>CBlockUndo::WriteToDisk\<close> appends for a block, \<^verbatim>\<open>ReadFromDisk\<close> at the returned position gives back
  (amounts, scripts in all their special encodings, heights and versions), whatever
  follows in the file; read for another block it is rejected unless the checksums of the two blocks agree.
\<close>

theorem undo_disk_roundtrip:
  assumes "valid_blockundo E undo"
  shows "\<exists>bs file' pos. ser_blockundo E undo = Inr bs \<and>
    undo_WriteToDisk D E magic file hashBlock undo = Inr (file', pos) \<and>
    undo_ReadFromDisk D E (file' @ later) pos hashBlock' =
      (if Hash D (image256 hashBlock' @ bs) = Hash D (image256 hashBlock @ bs) then Some undo else None)"
proof -
  obtain bs where bs: "ser_blockundo E undo = Inr bs" "\<And>f. undo_ReadFromDisk D E ((f @ bs @ image256 (Hash D (image256 hashBlock @ bs))) @ later)
      (length f) hashBlock' = (if Hash D (image256 hashBlock' @ bs) = Hash D (image256 hashBlock @ bs) then Some undo else None)"
    using undo_read_written [OF assms, of D hashBlock hashBlock'] by (elim exE conjE) (rule that, blast+)
  from bs(2) [of "file @ magic @ write_le 4 (length bs)"] show ?thesis using bs(1) by (simp add: undo_WriteToDisk_def Let_def)
qed

lemma flat_curve_laws: "point_laws flat_curve"
  by (auto simp: point_laws_def flat_curve_def split: if_splits)

theorem undo_disk_roundtrip_witness:
  "\<exists>bs file' pos. ser_blockundo flat_curve flat_undo = Inr bs \<and>
    undo_WriteToDisk toy_digests flat_curve [1, 2, 3, 4] [9] 5 flat_undo = Inr (file', pos) \<and>
    undo_ReadFromDisk toy_digests flat_curve (file' @ [8]) pos 5 = Some flat_undo"
  using undo_disk_roundtrip [of flat_curve flat_undo toy_digests "[1, 2, 3, 4]" "[9]" 5 "[8]" 5]
  by (simp add: valid_blockundo_def flat_undo_def valid_txinundo_def valid_txoutc_def flat_curve_laws MAX_SIZE_def)

text \<open>A negative version, which a transaction can have, is lost in the compact form.\<close>

lemma negative_version_lost: "ReadVarInt_int (WriteVarInt_int (- 1)) = Inr (127, [])"
  by (simp add: ReadVarInt_int_def WriteVarInt_int_def ReadVarInt_small to_signed_def)

end
