(* ===== verification/Coins.thy ===== *)
theory Coins
  imports Compress
begin

text \<open>
  Unspent outputs: the class \<^verbatim>\<open>CCoins\<close> with its serialization (\<^verbatim>\<open>src/src/main.h\<close> 876 to 1077), the views on the set
  of coins (\<^verbatim>\<open>CCoinsView\<close> and its subclasses, \<^verbatim>\<open>src/src/main.cpp\<close> 160 to 272, \<^verbatim>\<open>src/src/txdb.cpp\<close> 13 to 67)
  and the operations of a transaction on a view (\<^verbatim>\<open>src/src/main.cpp\<close> 1245 to 1404).

  A stack of views is a term: a cache or the memory pool view contains its backend.  A query of a cache stores
  what the backend returned, so queries return the view too.  The database keeps the serialized
  coins.  A pointer to a block index is the hash of the block, the null pointer is \<open>None\<close>.
\<close>

section \<open>Coins of a transaction\<close>

record CCoins =
  coins_fCoinBase :: bool
  coins_vout :: "CTxOut list"
  coins_nHeight :: int
  coins_nVersion :: int

definition CCoins_of :: "CTransaction \<Rightarrow> int \<Rightarrow> CCoins" where
  "CCoins_of tx nHeightIn =
     \<lparr>coins_fCoinBase = IsCoinBase tx, coins_vout = vout tx, coins_nHeight = nHeightIn, coins_nVersion = tx_nVersion tx\<rparr>"

definition CCoins_empty :: CCoins where
  "CCoins_empty = \<lparr>coins_fCoinBase = False, coins_vout = [], coins_nHeight = 0, coins_nVersion = 0\<rparr>"

definition Cleanup_vout :: "CTxOut list \<Rightarrow> CTxOut list" where
  "Cleanup_vout outs = rev (dropWhile CTxOut_IsNull (rev outs))"

definition Cleanup :: "CCoins \<Rightarrow> CCoins" where
  "Cleanup c = c\<lparr>coins_vout := Cleanup_vout (coins_vout c)\<rparr>"

definition out_avail :: "CTxOut list \<Rightarrow> nat \<Rightarrow> bool" where
  "out_avail outs i \<longleftrightarrow> i < length outs \<and> \<not> CTxOut_IsNull (outs ! i)"

definition IsAvailable :: "CCoins \<Rightarrow> nat \<Rightarrow> bool" where
  "IsAvailable c nPos \<longleftrightarrow> out_avail (coins_vout c) nPos"

definition IsPruned :: "CCoins \<Rightarrow> bool" where
  "IsPruned c \<longleftrightarrow> (\<forall>out\<in>set (coins_vout c). CTxOut_IsNull out)"

text \<open>The coins and undo record after \<^verbatim>\<open>Spend\<close>; \<open>None\<close> where it returns false and changes nothing.\<close>

definition Spend :: "nat \<Rightarrow> CCoins \<Rightarrow> (CCoins \<times> CTxInUndo) option" where
  "Spend n c =
     (if n \<ge> length (coins_vout c) then None
      else if CTxOut_IsNull (coins_vout c ! n) then None
      else let undo = CTxInUndo_of (coins_vout c ! n);
               c' = Cleanup (c\<lparr>coins_vout := (coins_vout c)[n := CTxOut_null]\<rparr>)
           in Some (c', if length (coins_vout c') = 0
                        then undo\<lparr>undo_nHeight := word_of_int (coins_nHeight c), undo_fCoinBase := coins_fCoinBase c,
                                  undo_nVersion := coins_nVersion c\<rparr>
                        else undo))"

definition Spend_pos :: "nat \<Rightarrow> CCoins \<Rightarrow> CCoins option" where
  "Spend_pos nPos c = map_option fst (Spend nPos c)"

section \<open>Serialization of coins\<close>

definition mask_used :: "CTxOut list \<Rightarrow> nat \<Rightarrow> bool" where
  "mask_used outs b \<longleftrightarrow> list_ex (\<lambda>i. out_avail outs (2 + b * 8 + i)) [0..<8]"

text \<open>\<^verbatim>\<open>CalcMaskSize\<close>: the number of bytes up to the last used one, and of the used ones.\<close>

definition CalcMaskSize :: "CTxOut list \<Rightarrow> nat \<times> nat" where
  "CalcMaskSize outs =
     fold (\<lambda>b (nLastUsedByte, nNonzeroBytes). if mask_used outs b then (b + 1, nNonzeroBytes + 1) else (nLastUsedByte, nNonzeroBytes))
       [0..<(length outs + 5) div 8] (0, 0)"

definition chAvail :: "CTxOut list \<Rightarrow> nat \<Rightarrow> byte" where
  "chAvail outs b = fold (\<lambda>i ch. if out_avail outs (2 + b * 8 + i) then ch OR push_bit i 1 else ch) [0..<8] 0"

definition coins_code :: "CCoins \<Rightarrow> nat \<Rightarrow> nat" where
  "coins_code c nMaskCode =
     (let fFirst = out_avail (coins_vout c) 0; fSecond = out_avail (coins_vout c) 1
      in (8 * (nMaskCode - (if fFirst \<or> fSecond then 0 else 1)) + (if coins_fCoinBase c then 1 else 0)
          + (if fFirst then 2 else 0) + (if fSecond then 4 else 0)) mod 2 ^ 32)"

definition ser_coins :: "'p curve \<Rightarrow> CCoins \<Rightarrow> byte list res" where
  "ser_coins E c =
     (let outs = coins_vout c; (nMaskSize, nMaskCode) = CalcMaskSize outs in
      if \<not> (out_avail outs 0 \<or> out_avail outs 1 \<or> nMaskCode > 0) then Inl Assert_failed
      else rbind (ser_all (ser_txoutc E) (filter (\<lambda>out. \<not> CTxOut_IsNull out) outs)) (\<lambda>bs.
        Inr (WriteVarInt_int (coins_nVersion c) @ WriteVarInt (coins_code c nMaskCode) @
             map (chAvail outs) [0..<nMaskSize] @ bs @ WriteVarInt_int (coins_nHeight c))))"

fun read_mask :: "nat \<Rightarrow> bool list reader" where
  "read_mask 0 is = Inr ([], is)"
| "read_mask (Suc n) [] = Inl Ios_failure"
| "read_mask (Suc n) (ch # is) =
     rbind (read_mask (if ch \<noteq> 0 then n else Suc n) is) (\<lambda>(v, is). Inr (map (\<lambda>p. bit ch p) [0..<8] @ v, is))"

fun read_outs :: "'p curve \<Rightarrow> bool list \<Rightarrow> CTxOut list reader" where
  "read_outs E [] is = Inr ([], is)"
| "read_outs E (a # as) is =
     rbind (if a then unser_txoutc E is else Inr (CTxOut_null, is)) (\<lambda>(out, is).
     rbind (read_outs E as is) (\<lambda>(outs, is). Inr (out # outs, is)))"

definition unser_coins :: "'p curve \<Rightarrow> CCoins reader" where
  "unser_coins E is =
     rbind (ReadVarInt_int is) (\<lambda>(v, is).
     rbind (ReadVarInt 32 is) (\<lambda>(nCode, is).
     rbind (read_mask (nCode div 8 + (if nCode div 2 mod 4 \<noteq> 0 then 0 else 1)) is) (\<lambda>(mask, is).
     rbind (read_outs E ([odd (nCode div 2), odd (nCode div 4)] @ mask) is) (\<lambda>(outs, is).
     rbind (ReadVarInt_int is) (\<lambda>(h, is).
     Inr (Cleanup \<lparr>coins_fCoinBase = odd nCode, coins_vout = outs, coins_nHeight = h, coins_nVersion = v\<rparr>, is))))))"

section \<open>Views\<close>

definition MEMPOOL_HEIGHT :: int where "MEMPOOL_HEIGHT = 0x7FFFFFFF"

type_synonym blockptr = "uint256 option"
type_synonym coins_map = "uint256 \<rightharpoonup> CCoins"

datatype CCoinsView =
    CCoinsViewNull
  | CCoinsViewDB "uint256 \<rightharpoonup> byte list" blockptr bool
  | CCoinsViewCache coins_map blockptr CCoinsView
  | CCoinsViewMemPool "uint256 \<rightharpoonup> CTransaction" CCoinsView

text \<open>
  The database: reading an entry, and the entry a batch writes.  Coins that are not pruned have a serialization.  The last
  component of a database view says whether LevelDB carries out writes; where it does not, \<^verbatim>\<open>WriteBatch\<close> throws.
\<close>

definition db_WriteBatch :: "bool \<Rightarrow> 'v \<Rightarrow> (bool \<times> 'v) res" where
  "db_WriteBatch fWrites written = (if fWrites then Inr (True, written) else Inl Runtime_error)"

definition db_GetCoins :: "'p curve \<Rightarrow> (uint256 \<rightharpoonup> byte list) \<Rightarrow> uint256 \<Rightarrow> CCoins option" where
  "db_GetCoins E m txid =
     (case m txid of None \<Rightarrow> None | Some bs \<Rightarrow> (case unser_coins E bs of Inr (c, _) \<Rightarrow> Some c | Inl _ \<Rightarrow> None))"

definition BatchWriteCoins :: "'p curve \<Rightarrow> CCoins \<Rightarrow> byte list option" where
  "BatchWriteCoins E coins =
     (if IsPruned coins then None else case ser_coins E coins of Inr bs \<Rightarrow> Some bs | Inl _ \<Rightarrow> None)"

definition db_SetCoins :: "'p curve \<Rightarrow> (uint256 \<rightharpoonup> byte list) \<Rightarrow> uint256 \<Rightarrow> CCoins \<Rightarrow> uint256 \<rightharpoonup> byte list" where
  "db_SetCoins E m txid coins = m(txid := BatchWriteCoins E coins)"

definition db_HaveCoins :: "(uint256 \<rightharpoonup> byte list) \<Rightarrow> uint256 \<Rightarrow> bool" where
  "db_HaveCoins m txid \<longleftrightarrow> m txid \<noteq> None"

text \<open>\<open>known\<close> are the hashes with an entry in \<^verbatim>\<open>mapBlockIndex\<close>.\<close>

definition db_GetBestBlock :: "(uint256 \<Rightarrow> bool) \<Rightarrow> blockptr \<Rightarrow> blockptr" where
  "db_GetBestBlock known best = (case best of None \<Rightarrow> None | Some h \<Rightarrow> if known h then Some h else None)"

definition db_BatchWrite :: "'p curve \<Rightarrow> (uint256 \<rightharpoonup> byte list) \<Rightarrow> blockptr \<Rightarrow> coins_map \<Rightarrow> blockptr \<Rightarrow>
    (uint256 \<rightharpoonup> byte list) \<times> blockptr" where
  "db_BatchWrite E m best mapCoins pindex =
     (\<lambda>h. case mapCoins h of None \<Rightarrow> m h | Some coins \<Rightarrow> BatchWriteCoins E coins,
      if pindex = None then best else pindex)"

text \<open>The virtual functions, by the class of the view.\<close>

definition mempool_coins :: "(uint256 \<rightharpoonup> CTransaction) \<Rightarrow> uint256 \<Rightarrow> CCoins option \<Rightarrow> CCoins option" where
  "mempool_coins mapTx txid r = (case r of
     Some coins \<Rightarrow> Some coins
   | None \<Rightarrow> map_option (\<lambda>tx. CCoins_of tx MEMPOOL_HEIGHT) (mapTx txid))"

fun view_GetCoins :: "'p curve \<Rightarrow> CCoinsView \<Rightarrow> uint256 \<Rightarrow> CCoins option \<times> CCoinsView" where
  "view_GetCoins E CCoinsViewNull txid = (None, CCoinsViewNull)"
| "view_GetCoins E (CCoinsViewDB m best w) txid = (db_GetCoins E m txid, CCoinsViewDB m best w)"
| "view_GetCoins E (CCoinsViewCache cacheCoins pindexTip base) txid =
     (case cacheCoins txid of
        Some coins \<Rightarrow> (Some coins, CCoinsViewCache cacheCoins pindexTip base)
      | None \<Rightarrow> (case view_GetCoins E base txid of
          (Some coins, base') \<Rightarrow> (Some coins, CCoinsViewCache (cacheCoins(txid \<mapsto> coins)) pindexTip base')
        | (None, base') \<Rightarrow> (None, CCoinsViewCache cacheCoins pindexTip base')))"
| "view_GetCoins E (CCoinsViewMemPool mapTx base) txid =
     (case view_GetCoins E base txid of (r, base') \<Rightarrow> (mempool_coins mapTx txid r, CCoinsViewMemPool mapTx base'))"

text \<open>\<^verbatim>\<open>HaveCoins\<close>: a cache fetches the coins, the database looks for the key, the pool view asks the pool first.\<close>

fun view_HaveCoins :: "'p curve \<Rightarrow> CCoinsView \<Rightarrow> uint256 \<Rightarrow> bool \<times> CCoinsView" where
  "view_HaveCoins E CCoinsViewNull txid = (False, CCoinsViewNull)"
| "view_HaveCoins E (CCoinsViewDB m best w) txid = (db_HaveCoins m txid, CCoinsViewDB m best w)"
| "view_HaveCoins E (CCoinsViewCache cacheCoins pindexTip base) txid =
     (case view_GetCoins E (CCoinsViewCache cacheCoins pindexTip base) txid of (r, v) \<Rightarrow> (r \<noteq> None, v))"
| "view_HaveCoins E (CCoinsViewMemPool mapTx base) txid =
     (if mapTx txid \<noteq> None then (True, CCoinsViewMemPool mapTx base)
      else case view_HaveCoins E base txid of (f, base') \<Rightarrow> (f, CCoinsViewMemPool mapTx base'))"

text \<open>
  The reference that \<^verbatim>\<open>CCoinsViewCache::GetCoins\<close> returns, and an assignment through it, which changes the entry of
  the cache.
\<close>

definition view_GetCoins_ref :: "'p curve \<Rightarrow> CCoinsView \<Rightarrow> uint256 \<Rightarrow> (CCoins \<times> CCoinsView) res" where
  "view_GetCoins_ref E v txid = (case view_GetCoins E v txid of
     (Some coins, v') \<Rightarrow> Inr (coins, v') | (None, v') \<Rightarrow> Inl Assert_failed)"

fun view_assign :: "CCoinsView \<Rightarrow> uint256 \<Rightarrow> CCoins \<Rightarrow> CCoinsView" where
  "view_assign (CCoinsViewCache cacheCoins pindexTip base) txid coins = CCoinsViewCache (cacheCoins(txid \<mapsto> coins)) pindexTip base"
| "view_assign v txid coins = v"

fun view_SetCoins :: "'p curve \<Rightarrow> CCoinsView \<Rightarrow> uint256 \<Rightarrow> CCoins \<Rightarrow> (bool \<times> CCoinsView) res" where
  "view_SetCoins E CCoinsViewNull txid coins = Inr (False, CCoinsViewNull)"
| "view_SetCoins E (CCoinsViewDB m best w) txid coins = db_WriteBatch w (CCoinsViewDB (db_SetCoins E m txid coins) best w)"
| "view_SetCoins E (CCoinsViewCache cacheCoins pindexTip base) txid coins =
     Inr (True, CCoinsViewCache (cacheCoins(txid \<mapsto> coins)) pindexTip base)"
| "view_SetCoins E (CCoinsViewMemPool mapTx base) txid coins =
     rbind (view_SetCoins E base txid coins) (\<lambda>(f, base'). Inr (f, CCoinsViewMemPool mapTx base'))"

fun view_GetBestBlock :: "(uint256 \<Rightarrow> bool) \<Rightarrow> CCoinsView \<Rightarrow> blockptr \<times> CCoinsView" where
  "view_GetBestBlock known CCoinsViewNull = (None, CCoinsViewNull)"
| "view_GetBestBlock known (CCoinsViewDB m best w) = (db_GetBestBlock known best, CCoinsViewDB m best w)"
| "view_GetBestBlock known (CCoinsViewCache cacheCoins pindexTip base) =
     (case pindexTip of
        Some h \<Rightarrow> (Some h, CCoinsViewCache cacheCoins pindexTip base)
      | None \<Rightarrow> (case view_GetBestBlock known base of (p, base') \<Rightarrow> (p, CCoinsViewCache cacheCoins p base')))"
| "view_GetBestBlock known (CCoinsViewMemPool mapTx base) =
     (case view_GetBestBlock known base of (p, base') \<Rightarrow> (p, CCoinsViewMemPool mapTx base'))"

text \<open>The database dereferences the pointer, so it is not called with the null pointer.\<close>

fun view_SetBestBlock :: "CCoinsView \<Rightarrow> blockptr \<Rightarrow> (bool \<times> CCoinsView) res" where
  "view_SetBestBlock CCoinsViewNull pindex = Inr (False, CCoinsViewNull)"
| "view_SetBestBlock (CCoinsViewDB m best w) pindex = db_WriteBatch w (CCoinsViewDB m pindex w)"
| "view_SetBestBlock (CCoinsViewCache cacheCoins pindexTip base) pindex = Inr (True, CCoinsViewCache cacheCoins pindex base)"
| "view_SetBestBlock (CCoinsViewMemPool mapTx base) pindex =
     rbind (view_SetBestBlock base pindex) (\<lambda>(f, base'). Inr (f, CCoinsViewMemPool mapTx base'))"

fun view_BatchWrite :: "'p curve \<Rightarrow> CCoinsView \<Rightarrow> coins_map \<Rightarrow> blockptr \<Rightarrow> (bool \<times> CCoinsView) res" where
  "view_BatchWrite E CCoinsViewNull mapCoins pindex = Inr (False, CCoinsViewNull)"
| "view_BatchWrite E (CCoinsViewDB m best w) mapCoins pindex =
     (case db_BatchWrite E m best mapCoins pindex of (m', best') \<Rightarrow> db_WriteBatch w (CCoinsViewDB m' best' w))"
| "view_BatchWrite E (CCoinsViewCache cacheCoins pindexTip base) mapCoins pindex =
     Inr (True, CCoinsViewCache (cacheCoins ++ mapCoins) pindex base)"
| "view_BatchWrite E (CCoinsViewMemPool mapTx base) mapCoins pindex =
     rbind (view_BatchWrite E base mapCoins pindex) (\<lambda>(f, base'). Inr (f, CCoinsViewMemPool mapTx base'))"

text \<open>\<^verbatim>\<open>Flush\<close> is a method of the cache; other views are left as they are.\<close>

fun view_Flush :: "'p curve \<Rightarrow> CCoinsView \<Rightarrow> (bool \<times> CCoinsView) res" where
  "view_Flush E (CCoinsViewCache cacheCoins pindexTip base) =
     rbind (view_BatchWrite E base cacheCoins pindexTip) (\<lambda>(fOk, base').
     Inr (fOk, CCoinsViewCache (if fOk then Map.empty else cacheCoins) pindexTip base'))"
| "view_Flush E v = Inr (False, v)"

section \<open>Reference definitions\<close>

text \<open>The coins the serialization can carry.\<close>

definition valid_coins :: "'p curve \<Rightarrow> CCoins \<Rightarrow> bool" where
  "valid_coins E c \<longleftrightarrow> Cleanup c = c \<and> coins_vout c \<noteq> [] \<and> length (coins_vout c) < 2 ^ 28 \<and>
     (\<forall>out\<in>set (coins_vout c). out = CTxOut_null \<or> valid_txoutc E out) \<and>
     0 \<le> coins_nVersion c \<and> coins_nVersion c < 2 ^ 31 \<and> 0 \<le> coins_nHeight c \<and> coins_nHeight c < 2 ^ 31"

text \<open>The coins a view shows.\<close>

definition view_coins :: "'p curve \<Rightarrow> CCoinsView \<Rightarrow> coins_map" where
  "view_coins E v txid = fst (view_GetCoins E v txid)"

text \<open>Coins that are completely spent count as absent: that is what the database keeps.\<close>

definition unspent :: "CCoins option \<Rightarrow> CCoins option" where
  "unspent r = (case r of Some c \<Rightarrow> if IsPruned c then None else Some c | None \<Rightarrow> None)"

fun is_cache :: "CCoinsView \<Rightarrow> bool" where
  "is_cache (CCoinsViewCache m p base) = True"
| "is_cache v = False"

definition storable :: "'p curve \<Rightarrow> CCoins \<Rightarrow> bool" where
  "storable E c \<longleftrightarrow> IsPruned c \<or> valid_coins E c"

text \<open>
  What happens to a cache: the operations of a client, and the disk that starts or stops to take writes.  After an
  exception the view is as it was.
\<close>

datatype coin_op = QueryCoins uint256 | QueryHave uint256 | UpdateCoin uint256 CCoins | FlushView | DiskWrites bool
datatype coin_answer = CoinsAnswer "CCoins option" | BoolAnswer bool | Thrown exn | NoAnswer

fun set_disk :: "bool \<Rightarrow> CCoinsView \<Rightarrow> CCoinsView" where
  "set_disk w CCoinsViewNull = CCoinsViewNull"
| "set_disk w (CCoinsViewDB m best w') = CCoinsViewDB m best w"
| "set_disk w (CCoinsViewCache m p base) = CCoinsViewCache m p (set_disk w base)"
| "set_disk w (CCoinsViewMemPool mapTx base) = CCoinsViewMemPool mapTx (set_disk w base)"

definition caught :: "CCoinsView \<Rightarrow> (bool \<times> CCoinsView) res \<Rightarrow> coin_answer \<times> CCoinsView" where
  "caught v r = (case r of Inl e \<Rightarrow> (Thrown e, v) | Inr (f, v') \<Rightarrow> (BoolAnswer f, v'))"

definition view_step :: "'p curve \<Rightarrow> coin_op \<Rightarrow> CCoinsView \<Rightarrow> coin_answer \<times> CCoinsView" where
  "view_step E op v = (case op of
     QueryCoins t \<Rightarrow> (case view_GetCoins E v t of (r, v') \<Rightarrow> (CoinsAnswer r, v'))
   | QueryHave t \<Rightarrow> (case view_HaveCoins E v t of (f, v') \<Rightarrow> (BoolAnswer f, v'))
   | UpdateCoin t c \<Rightarrow> caught v (view_SetCoins E v t c)
   | FlushView \<Rightarrow> caught v (view_Flush E v)
   | DiskWrites w \<Rightarrow> (NoAnswer, set_disk w v))"

text \<open>
  The same on a plain map of coins, which may hold coins that are completely spent, and the state of the disk.  Only a
  flush into the database, \<open>over\<close>, can fail, and only it forgets the spent coins.
\<close>

type_synonym coins_state = "coins_map \<times> bool"

definition flushed :: "bool \<Rightarrow> coins_map \<Rightarrow> coins_map" where
  "flushed over M = (if over then (\<lambda>t. unspent (M t)) else M)"

definition map_step :: "bool \<Rightarrow> coin_op \<Rightarrow> coins_state \<Rightarrow> coin_answer \<times> coins_state" where
  "map_step over op S = (case S of (M, w) \<Rightarrow> case op of
     QueryCoins t \<Rightarrow> (CoinsAnswer (M t), (M, w))
   | QueryHave t \<Rightarrow> (BoolAnswer (M t \<noteq> None), (M, w))
   | UpdateCoin t c \<Rightarrow> (BoolAnswer True, (M(t \<mapsto> c), w))
   | FlushView \<Rightarrow> if over \<and> \<not> w then (Thrown Runtime_error, (M, w)) else (BoolAnswer True, (flushed over M, w))
   | DiskWrites w' \<Rightarrow> (NoAnswer, (M, w')))"

fun run_steps :: "(coin_op \<Rightarrow> 's \<Rightarrow> coin_answer \<times> 's) \<Rightarrow> coin_op list \<Rightarrow> 's \<Rightarrow> coin_answer list \<times> 's" where
  "run_steps step [] s = ([], s)"
| "run_steps step (op # ops) s =
     (case step op s of (r, s') \<Rightarrow> case run_steps step ops s' of (rs, s'') \<Rightarrow> (r # rs, s''))"

text \<open>Whether the view below a cache is the database, and whether the database takes writes.\<close>

fun over_db :: "CCoinsView \<Rightarrow> bool" where
  "over_db (CCoinsViewCache m p (CCoinsViewDB d best w)) = True"
| "over_db v = False"

fun disk_writes :: "CCoinsView \<Rightarrow> bool" where
  "disk_writes CCoinsViewNull = False"
| "disk_writes (CCoinsViewDB m best w) = w"
| "disk_writes (CCoinsViewCache m p base) = disk_writes base"
| "disk_writes (CCoinsViewMemPool mapTx base) = disk_writes base"

text \<open>The state of the plain map that a view stands for.\<close>

definition coins_abs :: "'p curve \<Rightarrow> CCoinsView \<Rightarrow> coins_state" where
  "coins_abs E v = (view_coins E v, disk_writes v)"

fun op_storable :: "'p curve \<Rightarrow> coin_op \<Rightarrow> bool" where
  "op_storable E (UpdateCoin t c) = storable E c"
| "op_storable E op = True"

text \<open>
  A stack of caches over the database, in which everything that a flush may have to write can be
  written, and every entry of the database is the serialization of coins that are not spent.
\<close>

fun view_wf :: "'p curve \<Rightarrow> CCoinsView \<Rightarrow> bool" where
  "view_wf E (CCoinsViewDB m best w) \<longleftrightarrow> (\<forall>t bs. m t = Some bs \<longrightarrow> (\<exists>c. valid_coins E c \<and> ser_coins E c = Inr bs))"
| "view_wf E (CCoinsViewCache m p base) \<longleftrightarrow> (\<forall>t c. m t = Some c \<longrightarrow> storable E c) \<and> view_wf E base"
| "view_wf E v \<longleftrightarrow> False"

definition demo_coins :: CCoins where
  "demo_coins = \<lparr>coins_fCoinBase = True, coins_vout = [\<lparr>nValue = 5, scriptPubKey = []\<rparr>], coins_nHeight = 7, coins_nVersion = 1\<rparr>"

section \<open>Lemmas\<close>

lemma mask_fold:
  "\<exists>k c. fold (\<lambda>b (l, z). if U b then (b + 1, z + 1) else (l, z)) [0..<n] (0, 0) = (k, c) \<and>
     k \<le> n \<and> (\<forall>b. k \<le> b \<and> b < n \<longrightarrow> \<not> U b) \<and> (k > 0 \<longrightarrow> U (k - 1)) \<and> c = length (filter U [0..<k])"
proof (induction n)
  case (Suc n)
  then obtain k c where IH: "fold (\<lambda>b (l, z). if U b then (b + 1, z + 1) else (l, z)) [0..<n] (0, 0) = (k, c)"
    "k \<le> n" "\<forall>b. k \<le> b \<and> b < n \<longrightarrow> \<not> U b" "k > 0 \<longrightarrow> U (k - 1)" "c = length (filter U [0..<k])"
    by (elim exE conjE) (rule that)
  have "filter U [k..<n] = []" using IH(3) by (simp add: filter_empty_conv)
  moreover have "[0..<n] = [0..<k] @ [k..<n]" using IH(2) upt_add_eq_append [of 0 k "n - k"] by simp
  ultimately have c: "c = length (filter U [0..<n])" using IH(5) by simp
  show ?case
  proof (cases "U n")
    case True
    have 1: "fold (\<lambda>b (l, z). if U b then (b + 1, z + 1) else (l, z)) [0..<Suc n] (0, 0) = (Suc n, Suc c)"
      using IH(1) True by simp
    have 2: "Suc c = length (filter U [0..<Suc n])" using c True by simp
    show ?thesis unfolding 1 using True 2 by (intro exI [of _ "Suc n"] exI [of _ "Suc c"]) auto
  next
    case False
    have 1: "fold (\<lambda>b (l, z). if U b then (b + 1, z + 1) else (l, z)) [0..<Suc n] (0, 0) = (k, c)"
      using IH(1) False by simp
    have "\<forall>b. k \<le> b \<and> b < Suc n \<longrightarrow> \<not> U b" using IH(3) False by (auto simp: less_Suc_eq)
    then show ?thesis unfolding 1 using IH(2,4,5) by (intro exI [of _ k] exI [of _ c]) auto
  qed
next
  case 0
  show ?case by (intro exI [of _ 0]) simp
qed

lemma CalcMaskSize_spec:
  assumes "CalcMaskSize outs = (k, c)"
  shows "\<forall>b\<ge>k. \<not> mask_used outs b" "k > 0 \<longrightarrow> mask_used outs (k - 1)" "c = length (filter (mask_used outs) [0..<k])"
    "k \<le> (length outs + 5) div 8"
proof -
  let ?n = "(length outs + 5) div 8"
  obtain k' c' where m: "fold (\<lambda>b (l, z). if mask_used outs b then (b + 1, z + 1) else (l, z)) [0..<?n] (0, 0) = (k', c')"
    "k' \<le> ?n" "\<forall>b. k' \<le> b \<and> b < ?n \<longrightarrow> \<not> mask_used outs b" "k' > 0 \<longrightarrow> mask_used outs (k' - 1)" "c' = length (filter (mask_used outs) [0..<k'])"
    using mask_fold [of "mask_used outs" ?n] by (elim exE conjE) (rule that)
  have e: "k' = k" "c' = c" using assms m(1) unfolding CalcMaskSize_def by simp_all
  have "\<not> mask_used outs b" if "?n \<le> b" for b
  proof -
    have "length outs \<le> 2 + b * 8" using that by linarith
    then show ?thesis by (auto simp: mask_used_def list_ex_iff out_avail_def)
  qed
  then show "\<forall>b\<ge>k. \<not> mask_used outs b" using m(3) unfolding e by (metis not_le)
  show "k > 0 \<longrightarrow> mask_used outs (k - 1)" "c = length (filter (mask_used outs) [0..<k])" "k \<le> ?n" using m e by simp_all
qed

lemma bit_chAvail: "p < 8 \<Longrightarrow> bit (chAvail outs b) p \<longleftrightarrow> out_avail outs (2 + b * 8 + p)"
  unfolding chAvail_def by (subst bit_or_fold) auto

lemma chAvail_0: "chAvail outs b \<noteq> 0 \<longleftrightarrow> mask_used outs b"
proof
  assume "mask_used outs b"
  then obtain p where "p < 8" "bit (chAvail outs b) p" by (auto simp: mask_used_def list_ex_iff bit_chAvail)
  then show "chAvail outs b \<noteq> 0" by auto
next
  assume a: "chAvail outs b \<noteq> 0"
  show "mask_used outs b"
  proof (rule ccontr)
    assume "\<not> mask_used outs b"
    then have "\<not> bit (chAvail outs b) p" if "p < 8" for p
      using that bit_chAvail [OF that, of outs b] by (auto simp: mask_used_def list_ex_iff)
    then have "chAvail outs b = 0" by (intro bit_word_eqI) simp
    then show False using a by simp
  qed
qed

lemma read_mask_ser:
  assumes "bs = [] \<or> mask_used outs (last bs)"
  shows "read_mask (length (filter (mask_used outs) bs)) (map (chAvail outs) bs @ rest) =
    Inr (concat (map (\<lambda>b. map (\<lambda>p. out_avail outs (2 + b * 8 + p)) [0..<8]) bs), rest)"
  using assms
proof (induction bs)
  case (Cons b bs)
  have bits: "map (bit (chAvail outs b)) [0..<8] = map (\<lambda>p. out_avail outs (2 + b * 8 + p)) [0..<8]"
    by (simp add: bit_chAvail)
  show ?case
  proof (cases "bs = []")
    case True
    then show ?thesis using Cons.prems chAvail_0 [of outs b] bits by simp
  next
    case False
    then have l: "mask_used outs (last bs)" "length (filter (mask_used outs) bs) > 0"
      using Cons.prems by (auto simp: filter_empty_conv intro!: last_in_set bexI [of _ "last bs"])
    then obtain n where n: "length (filter (mask_used outs) bs) = Suc n" using gr0_implies_Suc by blast
    show ?thesis using Cons.IH l(1) n chAvail_0 [of outs b] bits by simp
  qed
qed simp

lemma concat_bytes: "concat (map (\<lambda>b. map (\<lambda>p. f (b * 8 + p)) [0..<8]) [0..<k]) = map f [0..<8 * k]"
proof (induction k)
  case (Suc k)
  have "[0..<8 * Suc k] = [0..<8 * k] @ map (\<lambda>p. k * 8 + p) [0..<8]"
    using map_add_upt [of "k * 8" 8] upt_add_eq_append [of 0 "8 * k" 8] by (simp add: add.commute mult.commute)
  then show ?case using Suc by simp
qed simp

lemma Cleanup_replicate: "Cleanup_vout (outs @ replicate n CTxOut_null) = Cleanup_vout outs"
proof -
  have "CTxOut_IsNull CTxOut_null" by (simp add: CTxOut_IsNull_def CTxOut_null_def)
  then have "dropWhile CTxOut_IsNull (replicate n CTxOut_null @ ys) = dropWhile CTxOut_IsNull ys" for ys by (induction n) simp_all
  then show ?thesis by (simp add: Cleanup_vout_def)
qed

lemma read_outs_ser:
  assumes "list_all2 (\<lambda>a out. if a then valid_txoutc E out else out = CTxOut_null) as outs"
  shows "\<exists>bs. ser_all (ser_txoutc E) (filter (\<lambda>out. \<not> CTxOut_IsNull out) outs) = Inr bs \<and>
    (\<forall>rest. read_outs E as (bs @ rest) = Inr (outs, rest))"
  using assms
proof (induction as outs rule: list_all2_induct)
  case (Cons a as out outs)
  then obtain bs where bs: "ser_all (ser_txoutc E) (filter (\<lambda>out. \<not> CTxOut_IsNull out) outs) = Inr bs"
    "\<And>rest. read_outs E as (bs @ rest) = Inr (outs, rest)" by blast
  show ?case
  proof (cases a)
    case True
    then have v: "valid_txoutc E out" using Cons.hyps(1) by simp
    then have "\<not> CTxOut_IsNull out" by (auto simp: valid_txoutc_def CTxOut_IsNull_def)
    then show ?thesis using txoutc.ser_unser [OF v] bs True by auto
  next
    case False
    then show ?thesis using Cons.hyps(1) bs by (simp add: CTxOut_IsNull_def CTxOut_null_def)
  qed
qed simp

lemma Cleanup_snoc: "Cleanup_vout (outs @ [out]) = (if CTxOut_IsNull out then Cleanup_vout outs else outs @ [out])"
  by (simp add: Cleanup_vout_def)

lemma length_Cleanup: "length (Cleanup_vout outs) \<le> length outs"
  by (simp add: Cleanup_vout_def) (metis length_dropWhile_le length_rev)

lemma Cleanup_last:
  assumes "Cleanup_vout outs = outs" "outs \<noteq> []"
  shows "\<not> CTxOut_IsNull (last outs)"
proof
  assume n: "CTxOut_IsNull (last outs)"
  have "Cleanup_vout (butlast outs @ [last outs]) = Cleanup_vout (butlast outs)" using n by (simp add: Cleanup_snoc)
  then have "outs = Cleanup_vout (butlast outs)" using assms by simp
  then have "length outs \<le> length (butlast outs)" by (metis length_Cleanup)
  moreover have "0 < length outs" using assms(2) by simp
  ultimately show False unfolding length_butlast by linarith
qed

lemma Cleanup_iff: "Cleanup c = c \<longleftrightarrow> Cleanup_vout (coins_vout c) = coins_vout c"
  by (cases c) (simp add: Cleanup_def)

lemma code_bits:
  fixes q :: nat and cb f s :: bool
  defines "c \<equiv> 8 * q + (if cb then 1 else 0) + (if f then 2 else 0) + (if s then 4 else 0)"
  shows "odd c = cb" "odd (c div 2) = f" "odd (c div 4) = s" "c div 8 = q" "c div 2 mod 4 \<noteq> 0 \<longleftrightarrow> f \<or> s"
proof -
  define r :: nat where "r = (if cb then 1 else 0) + (if f then 2 else 0) + (if s then 4 else 0)"
  have c: "c = 8 * q + r" "r < 8" by (simp_all add: c_def r_def)
  have r: "odd r = cb" "odd (r div 2) = f" "odd (r div 4) = s" "r div 2 mod 4 \<noteq> 0 \<longleftrightarrow> f \<or> s"
    unfolding r_def by (cases cb; cases f; cases s; simp)+
  have d: "c div 2 = 4 * q + r div 2" "c div 4 = 2 * q + r div 4" unfolding c(1) by presburger+
  show "c div 8 = q" using c by simp
  show "odd c = cb" unfolding r(1) [symmetric] c(1) by simp
  show "odd (c div 2) = f" unfolding r(2) [symmetric] d(1) by simp
  show "odd (c div 4) = s" unfolding r(3) [symmetric] d(2) by simp
  show "c div 2 mod 4 \<noteq> 0 \<longleftrightarrow> f \<or> s" unfolding r(4) [symmetric] d(1) by simp
qed

lemma padded_outs:
  assumes "valid_coins E c" "CalcMaskSize (coins_vout c) = (k, z)"
  shows "length (coins_vout c) \<le> 2 + 8 * k"
    "list_all2 (\<lambda>a out. if a then valid_txoutc E out else out = CTxOut_null)
       (map (out_avail (coins_vout c)) [0..<2 + 8 * k]) (coins_vout c @ replicate (2 + 8 * k - length (coins_vout c)) CTxOut_null)"
proof -
  let ?o = "coins_vout c"
  have v: "?o \<noteq> []" "Cleanup_vout ?o = ?o" "\<forall>out\<in>set ?o. out = CTxOut_null \<or> valid_txoutc E out"
    using assms(1) unfolding valid_coins_def Cleanup_iff by simp_all
  have a: "out_avail ?o (length ?o - 1)"
    using Cleanup_last [OF v(2,1)] v(1) by (simp add: out_avail_def last_conv_nth)
  show l: "length ?o \<le> 2 + 8 * k"
  proof (rule ccontr)
    assume n: "\<not> length ?o \<le> 2 + 8 * k"
    define j where "j = length ?o - 1 - 2"
    have j: "length ?o - 1 = 2 + j div 8 * 8 + j mod 8" "k \<le> j div 8" "j mod 8 < 8"
      using n by (auto simp: j_def)
    then have "mask_used ?o (j div 8)" using a unfolding mask_used_def list_ex_iff by (intro bexI [of _ "j mod 8"]) simp_all
    then show False using CalcMaskSize_spec(1) [OF assms(2)] j(2) by blast
  qed
  show "list_all2 (\<lambda>a out. if a then valid_txoutc E out else out = CTxOut_null)
       (map (out_avail ?o) [0..<2 + 8 * k]) (?o @ replicate (2 + 8 * k - length ?o) CTxOut_null)"
  proof (rule list_all2_all_nthI)
    show "length (map (out_avail ?o) [0..<2 + 8 * k]) = length (?o @ replicate (2 + 8 * k - length ?o) CTxOut_null)" using l by simp
    fix i assume i: "i < length (map (out_avail ?o) [0..<2 + 8 * k])"
    have n: "CTxOut_IsNull CTxOut_null" by (simp add: CTxOut_IsNull_def CTxOut_null_def)
    have "valid_txoutc E out \<Longrightarrow> \<not> CTxOut_IsNull out" for out by (auto simp: valid_txoutc_def CTxOut_IsNull_def)
    moreover have "i < length ?o \<Longrightarrow> ?o ! i = CTxOut_null \<or> valid_txoutc E (?o ! i)" using v(3) by simp
    moreover have "(map (out_avail ?o) [0..<2 + 8 * k]) ! i = out_avail ?o i" using i by (simp del: upt_Suc)
    ultimately show "if (map (out_avail ?o) [0..<2 + 8 * k]) ! i then valid_txoutc E ((?o @ replicate (2 + 8 * k - length ?o) CTxOut_null) ! i)
        else (?o @ replicate (2 + 8 * k - length ?o) CTxOut_null) ! i = CTxOut_null"
      using i n by (auto simp: nth_append out_avail_def)
  qed
qed

lemma mask_concat:
  "concat (map (\<lambda>b. map (\<lambda>p. out_avail outs (2 + b * 8 + p)) [0..<8]) [0..<k]) = map (\<lambda>i. out_avail outs (2 + i)) [0..<8 * k]"
  using concat_bytes [of "\<lambda>i. out_avail outs (2 + i)" k] by (simp add: add.assoc)

lemma two_upt: "map g [0..<2 + n] = [g 0, g 1] @ map (\<lambda>i. g (2 + i)) [0..<n]"
proof -
  have "[0..<2 + n] = [0, 1] @ map (\<lambda>i. i + 2) [0..<n]"
    unfolding map_add_upt by (simp add: upt_conv_Cons numeral_2_eq_2 del: upt_Suc)
  then show ?thesis by (simp add: add.commute del: upt_Suc)
qed

lemma coins_roundtrip:
  assumes "valid_coins E c"
  shows "\<exists>bs. ser_coins E c = Inr bs \<and> (\<forall>rest. unser_coins E (bs @ rest) = Inr (c, rest))"
proof -
  let ?o = "coins_vout c"
  obtain k z where kz: "CalcMaskSize ?o = (k, z)" by fastforce
  note sp = CalcMaskSize_spec [OF kz] and pad = padded_outs [OF assms kz]
  let ?full = "?o @ replicate (2 + 8 * k - length ?o) CTxOut_null"
  have v: "?o \<noteq> []" "Cleanup_vout ?o = ?o" "length ?o < 2 ^ 28" "0 \<le> coins_nVersion c" "coins_nVersion c < 2 ^ 31"
    "0 \<le> coins_nHeight c" "coins_nHeight c < 2 ^ 31"
    using assms unfolding valid_coins_def Cleanup_iff by simp_all
  have null: "CTxOut_IsNull CTxOut_null" by (simp add: CTxOut_IsNull_def CTxOut_null_def)
  obtain bs where bs: "ser_all (ser_txoutc E) (filter (\<lambda>out. \<not> CTxOut_IsNull out) ?o) = Inr bs"
    "\<And>rest. read_outs E (map (out_avail ?o) [0..<2 + 8 * k]) (bs @ rest) = Inr (?full, rest)"
    using read_outs_ser [OF pad(2)] null by (auto simp: filter_replicate)
  define f s where "f = out_avail ?o 0" and "s = out_avail ?o 1"
  define q where "q = z - (if f \<or> s then 0 else 1)"
  define n where "n = 8 * q + (if coins_fCoinBase c then 1 else 0) + (if f then 2 else 0) + (if s then 4 else 0)"
  have "z \<le> k" unfolding sp(3) using length_filter_le [of "mask_used ?o" "[0..<k]"] by simp
  then have "n < 2 ^ 32" using sp(4) v(3) unfolding n_def q_def by auto
  moreover have "coins_code c z = n mod 2 ^ 32" by (simp add: coins_code_def f_def s_def q_def n_def Let_def)
  ultimately have code: "coins_code c z = 8 * q + (if coins_fCoinBase c then 1 else 0) + (if f then 2 else 0) + (if s then 4 else 0)"
    and c32: "coins_code c z < 2 ^ 32" by (simp_all add: n_def)
  note cb = code_bits [of q "coins_fCoinBase c" f s, folded code]
  have some: "f \<or> s \<or> z > 0"
  proof (rule ccontr)
    assume n: "\<not> ?thesis"
    then have "k = 0" using sp(2,3) by (cases k) simp_all
    then have "length ?o \<le> 2" using pad(1) by simp
    moreover have "out_avail ?o (length ?o - 1)"
      using Cleanup_last [OF v(2,1)] v(1) by (simp add: out_avail_def last_conv_nth)
    moreover have "length ?o - 1 = 0 \<or> length ?o - 1 = 1" using calculation(1) by linarith
    ultimately show False using n unfolding f_def s_def by metis
  qed
  then have z: "q + (if f \<or> s then 0 else 1) = z" by (auto simp: q_def)
  have avail: "map (out_avail ?o) [0..<2 + 8 * k] = [f, s] @ map (\<lambda>i. out_avail ?o (2 + i)) [0..<8 * k]"
    unfolding f_def s_def by (rule two_upt)
  have lm: "[0..<k] = [] \<or> mask_used ?o (last [0..<k])" using sp(2) by (cases k) simp_all
  have mask: "read_mask z (map (chAvail ?o) [0..<k] @ rest) = Inr (map (\<lambda>i. out_avail ?o (2 + i)) [0..<8 * k], rest)" for rest
    unfolding sp(3) read_mask_ser [OF lm] mask_concat ..
  have clean: "Cleanup \<lparr>coins_fCoinBase = coins_fCoinBase c, coins_vout = ?full, coins_nHeight = coins_nHeight c, coins_nVersion = coins_nVersion c\<rparr> = c"
    by (cases c) (use v(2) in \<open>simp add: Cleanup_def Cleanup_replicate\<close>)
  let ?bs = "WriteVarInt_int (coins_nVersion c) @ WriteVarInt (coins_code c z) @ map (chAvail ?o) [0..<k] @ bs @ WriteVarInt_int (coins_nHeight c)"
  have "ser_coins E c = Inr ?bs"
    using some bs(1) unfolding ser_coins_def kz f_def s_def Let_def by auto
  moreover have "unser_coins E (?bs @ rest) = Inr (c, rest)" for rest
    unfolding unser_coins_def append_assoc VarInt_int_roundtrip [OF v(4,5)] rbind_simps prod.case ReadVarInt_write [OF c32] cb z mask
      bs(2) [unfolded avail] VarInt_int_roundtrip [OF v(6,7)] clean by (rule refl)
  ultimately show ?thesis by blast
qed

interpretation coins: codec_res "ser_coins E" "unser_coins E" "valid_coins E"
  by unfold_locales (rule coins_roundtrip)

section \<open>The contract of a coins store\<close>

text \<open>
  What the validation code relies on: a query shows the current coins and changes nothing visible,
  an update changes the coins of its transaction only.
\<close>

locale coins_store =
  fixes get :: "'v \<Rightarrow> uint256 \<Rightarrow> CCoins option \<times> 'v"
    and have_coins :: "'v \<Rightarrow> uint256 \<Rightarrow> bool \<times> 'v"
    and set_coins :: "'v \<Rightarrow> uint256 \<Rightarrow> CCoins \<Rightarrow> (bool \<times> 'v) res"
    and shown :: "'v \<Rightarrow> coins_map"
    and ok :: "'v \<Rightarrow> bool"
  assumes get_law: "ok v \<Longrightarrow> fst (get v t) = shown v t \<and> shown (snd (get v t)) = shown v \<and> ok (snd (get v t))"
    and have_law: "ok v \<Longrightarrow> fst (have_coins v t) = (shown v t \<noteq> None) \<and> shown (snd (have_coins v t)) = shown v \<and> ok (snd (have_coins v t))"
    and set_eq: "ok v \<Longrightarrow> \<exists>v'. set_coins v t c = Inr (True, v') \<and> shown v' = (shown v)(t \<mapsto> c) \<and> ok v'"
begin

lemma get_eq: "ok v \<Longrightarrow> \<exists>v'. get v t = (shown v t, v') \<and> shown v' = shown v \<and> ok v'"
  using get_law [of v t] by (cases "get v t") simp

lemma have_eq: "ok v \<Longrightarrow> \<exists>v'. have_coins v t = (shown v t \<noteq> None, v') \<and> shown v' = shown v \<and> ok v'"
  using have_law [of v t] by (cases "have_coins v t") simp

end

lemma view_coins_simps:
  "view_coins E CCoinsViewNull t = None"
  "view_coins E (CCoinsViewDB d best w) t = db_GetCoins E d t"
  "view_coins E (CCoinsViewCache m p base) t = (case m t of Some c \<Rightarrow> Some c | None \<Rightarrow> view_coins E base t)"
  "view_coins E (CCoinsViewMemPool mapTx base) t = mempool_coins mapTx t (view_coins E base t)"
  by (simp_all add: view_coins_def split: option.split prod.split)

lemma view_GetCoins_keeps: "view_coins E (snd (view_GetCoins E v t)) x = view_coins E v x"
proof (induction v)
  case (CCoinsViewCache m p base)
  obtain r b where g: "view_GetCoins E base t = (r, b)" by fastforce
  have "r = view_coins E base t" "view_coins E b x = view_coins E base x"
    using CCoinsViewCache.IH g by (simp_all add: view_coins_def)
  then show ?case
    by (cases "m t"; cases r) (auto simp: g view_coins_simps split: option.splits)
next
  case (CCoinsViewMemPool m base)
  then show ?case by (simp add: view_coins_simps split: prod.splits) (metis snd_conv)
qed (simp_all add: view_coins_simps)

lemma is_cache_GetCoins: "is_cache v \<Longrightarrow> is_cache (snd (view_GetCoins E v t))"
  by (cases v) (auto split: option.splits prod.splits)

lemma HaveCoins_cache: "is_cache v \<Longrightarrow> view_HaveCoins E v t = (view_coins E v t \<noteq> None, snd (view_GetCoins E v t))"
  by (cases v) (auto simp: view_coins_def split: option.splits prod.splits)

interpretation cache: coins_store "view_GetCoins E" "view_HaveCoins E" "view_SetCoins E" "view_coins E" is_cache
proof
  fix v t c assume v: "is_cache v"
  have k: "view_coins E (snd (view_GetCoins E v t)) = view_coins E v" by (rule ext) (rule view_GetCoins_keeps)
  show "fst (view_GetCoins E v t) = view_coins E v t \<and> view_coins E (snd (view_GetCoins E v t)) = view_coins E v \<and>
      is_cache (snd (view_GetCoins E v t))"
    using k is_cache_GetCoins [OF v] by (simp add: view_coins_def)
  show "fst (view_HaveCoins E v t) = (view_coins E v t \<noteq> None) \<and> view_coins E (snd (view_HaveCoins E v t)) = view_coins E v \<and>
      is_cache (snd (view_HaveCoins E v t))"
    using k is_cache_GetCoins [OF v] by (simp add: HaveCoins_cache [OF v])
  show "\<exists>v'. view_SetCoins E v t c = Inr (True, v') \<and> view_coins E v' = (view_coins E v)(t \<mapsto> c) \<and> is_cache v'"
    using v by (cases v) (auto simp: view_coins_simps)
qed

lemma db_entry:
  assumes "storable E c"
  shows "(case BatchWriteCoins E c of None \<Rightarrow> None | Some bs \<Rightarrow> (case unser_coins E bs of Inr (c, _) \<Rightarrow> Some c | Inl _ \<Rightarrow> None)) = unspent (Some c)"
proof (cases "IsPruned c")
  case False
  then obtain bs where "ser_coins E c = Inr bs" "unser_coins E (bs @ []) = Inr (c, [])"
    using assms coins_roundtrip [of E c] unfolding storable_def by blast
  then show ?thesis using False by (simp add: BatchWriteCoins_def unspent_def)
qed (simp add: BatchWriteCoins_def unspent_def)

lemma unspent_idem [simp]: "unspent (unspent r) = unspent r"
  by (simp add: unspent_def split: option.splits)

lemma pruned_valid: "valid_coins E c \<Longrightarrow> \<not> IsPruned c"
  using Cleanup_last [of "coins_vout c"] last_in_set [of "coins_vout c"]
  by (auto simp: valid_coins_def Cleanup_iff IsPruned_def)

lemma view_wf_valid:
  assumes "view_wf E (CCoinsViewDB d best w)" "view_coins E (CCoinsViewDB d best w) t = Some c"
  shows "valid_coins E c"
proof -
  obtain bs where bs: "d t = Some bs" "(case unser_coins E bs of Inr (c, _) \<Rightarrow> Some c | Inl _ \<Rightarrow> None) = Some c"
    using assms(2) by (auto simp: view_coins_simps db_GetCoins_def split: option.splits)
  then obtain c' where c': "valid_coins E c'" "ser_coins E c' = Inr bs" using assms(1) by auto
  then have "unser_coins E (bs @ []) = Inr (c', [])" using coins_roundtrip [of E c'] by (metis sum.inject(2))
  then show ?thesis using bs(2) c'(1) by simp
qed

lemma view_wf_storable: "view_wf E v \<Longrightarrow> view_coins E v t = Some c \<Longrightarrow> storable E c"
proof (induction v)
  case (CCoinsViewDB d best w)
  from view_wf_valid [OF CCoinsViewDB] show ?case by (simp add: storable_def)
next
  case (CCoinsViewCache m p base)
  then show ?case by (auto simp: view_coins_simps split: option.splits)
qed simp_all

lemma view_wf_GetCoins: "view_wf E v \<Longrightarrow> view_wf E (snd (view_GetCoins E v t))"
proof (induction v)
  case (CCoinsViewCache m p base)
  have "view_coins E base t = Some c \<Longrightarrow> storable E c" for c using view_wf_storable CCoinsViewCache.prems by auto
  then show ?case using CCoinsViewCache by (auto simp: view_coins_def split: option.splits prod.splits)
qed simp_all

lemma BatchWrite_db:
  assumes "\<forall>t c. m t = Some c \<longrightarrow> storable E c" "view_wf E (CCoinsViewDB d best w)"
  shows "\<exists>base. view_BatchWrite E (CCoinsViewDB d best w) m p = db_WriteBatch w base \<and> view_wf E base \<and> disk_writes base = w \<and>
    (\<forall>t. view_coins E base t = unspent (view_coins E (CCoinsViewCache m p (CCoinsViewDB d best w)) t)) \<and> (\<exists>d' best'. base = CCoinsViewDB d' best' w)"
proof -
  define d' where "d' = (\<lambda>h. case m h of None \<Rightarrow> d h | Some coins \<Rightarrow> BatchWriteCoins E coins)"
  define base where "base = CCoinsViewDB d' (if p = None then best else p) w"
  have "\<exists>c'. valid_coins E c' \<and> ser_coins E c' = Inr bs" if "m t = Some c" "BatchWriteCoins E c = Some bs" for t c bs
    using that assms(1) by (auto simp: BatchWriteCoins_def storable_def split: if_splits sum.splits)
  then have wf: "view_wf E base" using assms(2) by (auto simp: base_def d'_def split: option.splits)
  have "view_coins E base t = unspent (view_coins E (CCoinsViewCache m p (CCoinsViewDB d best w)) t)" for t
  proof (cases "m t")
    case None
    have "unspent (db_GetCoins E d t) = db_GetCoins E d t"
      using view_wf_valid [OF assms(2), of t] pruned_valid [of E] by (auto simp: unspent_def view_coins_simps split: option.splits)
    then show ?thesis using None by (simp add: base_def d'_def view_coins_simps db_GetCoins_def)
  next
    case (Some c)
    then have "storable E c" using assms(1) by blast
    from db_entry [OF this] show ?thesis using Some by (simp add: base_def d'_def view_coins_simps db_GetCoins_def)
  qed
  then show ?thesis using wf by (intro exI [of _ base]) (simp add: base_def d'_def db_BatchWrite_def)
qed

lemma Flush_refines:
  assumes "is_cache v" "view_wf E v"
  shows "if over_db v \<and> \<not> disk_writes v then view_Flush E v = Inl Runtime_error
    else \<exists>p base. view_Flush E v = Inr (True, CCoinsViewCache Map.empty p base) \<and> view_wf E base \<and>
      over_db (CCoinsViewCache Map.empty p base) = over_db v \<and> disk_writes base = disk_writes v \<and> view_coins E base = flushed (over_db v) (view_coins E v)"
proof -
  obtain m p base where v: "v = CCoinsViewCache m p base" using assms(1) by (cases v) auto
  have st: "\<forall>t c. m t = Some c \<longrightarrow> storable E c" and wf: "view_wf E base" using assms(2) by (auto simp: v)
  show ?thesis
  proof (cases base)
    case (CCoinsViewDB d best w)
    then show ?thesis using BatchWrite_db [OF st, of d best w p] wf
      by (auto simp: v db_WriteBatch_def flushed_def fun_eq_iff)
  next
    case (CCoinsViewCache m' p' base')
    moreover have "view_wf E (CCoinsViewCache (m' ++ m) p base')" using st wf CCoinsViewCache by (auto simp: map_add_def split: option.splits)
    ultimately show ?thesis by (auto simp: v flushed_def view_coins_simps map_add_def fun_eq_iff split: option.splits)
  qed (use wf in simp_all)
qed

lemma set_disk_keeps:
  "view_coins E (set_disk w v) = view_coins E v" "view_wf E (set_disk w v) = view_wf E v" "over_db (set_disk w v) = over_db v" "is_cache (set_disk w v) = is_cache v"
proof -
  show "view_coins E (set_disk w v) = view_coins E v" by (induction v) (auto simp: view_coins_simps fun_eq_iff split: option.splits)
  show "view_wf E (set_disk w v) = view_wf E v" by (induction v) auto
  show "over_db (set_disk w v) = over_db v" by (induction v rule: over_db.induct) auto
  show "is_cache (set_disk w v) = is_cache v" by (cases v) auto
qed

lemma disk_writes_set: "view_wf E v \<Longrightarrow> disk_writes (set_disk w v) = w"
  by (induction v) auto

lemma GetCoins_keeps_disk:
  "over_db (snd (view_GetCoins E v t)) = over_db v" "disk_writes (snd (view_GetCoins E v t)) = disk_writes v"
proof -
  show "disk_writes (snd (view_GetCoins E v t)) = disk_writes v"
    by (induction v) (auto split: option.splits prod.splits)
  show "over_db (snd (view_GetCoins E v t)) = over_db v"
    by (induction v rule: over_db.induct) (auto split: option.splits prod.splits)
qed

lemma step_refines:
  assumes "is_cache v" "view_wf E v" "op_storable E op" "view_step E op v = (r, v')"
  shows "map_step (over_db v) op (coins_abs E v) = (r, coins_abs E v') \<and> is_cache v' \<and> view_wf E v' \<and> over_db v' = over_db v"
proof (cases op)
  case (QueryCoins t)
  then have "v' = snd (view_GetCoins E v t)" "r = CoinsAnswer (view_coins E v t)"
    using assms(4) by (auto simp: view_step_def view_coins_def split: prod.splits)
  then show ?thesis using QueryCoins cache.get_law [OF assms(1), of E t] view_wf_GetCoins [OF assms(2)]
    by (simp add: map_step_def coins_abs_def GetCoins_keeps_disk)
next
  case (QueryHave t)
  then have "v' = snd (view_GetCoins E v t)" "r = BoolAnswer (view_coins E v t \<noteq> None)"
    using assms(4) by (auto simp: view_step_def HaveCoins_cache [OF assms(1)])
  then show ?thesis using QueryHave cache.get_law [OF assms(1), of E t] view_wf_GetCoins [OF assms(2)]
    by (simp add: map_step_def coins_abs_def GetCoins_keeps_disk)
next
  case (UpdateCoin t c)
  obtain m p base where v: "v = CCoinsViewCache m p base" using assms(1) by (cases v) auto
  have "over_db (CCoinsViewCache (m(t \<mapsto> c)) p base) = over_db v" by (cases base) (simp_all add: v)
  then show ?thesis using UpdateCoin assms by (auto simp: v view_step_def caught_def map_step_def coins_abs_def view_coins_simps)
next
  case FlushView
  show ?thesis
  proof (cases "over_db v \<and> \<not> disk_writes v")
    case True
    then have "view_Flush E v = Inl Runtime_error" using Flush_refines [OF assms(1,2)] by simp
    then show ?thesis using True FlushView assms by (auto simp: view_step_def caught_def map_step_def coins_abs_def)
  next
    case False
    then obtain p base where b: "view_Flush E v = Inr (True, CCoinsViewCache Map.empty p base)" "view_wf E base"
      "over_db (CCoinsViewCache Map.empty p base) = over_db v" "disk_writes base = disk_writes v" "view_coins E base = flushed (over_db v) (view_coins E v)"
      using Flush_refines [OF assms(1,2)] by auto
    have "view_coins E (CCoinsViewCache Map.empty p base) = view_coins E base" by (simp add: view_coins_simps fun_eq_iff)
    then show ?thesis using False FlushView assms(4) b by (auto simp: view_step_def caught_def map_step_def coins_abs_def)
  qed
next
  case (DiskWrites w)
  then show ?thesis using assms by (auto simp: view_step_def map_step_def coins_abs_def set_disk_keeps disk_writes_set)
qed

lemma run_steps_refines:
  assumes "is_cache v" "view_wf E v" "list_all (op_storable E) ops" "run_steps (view_step E) ops v = (rs, v')"
  shows "run_steps (map_step (over_db v)) ops (coins_abs E v) = (rs, coins_abs E v') \<and> is_cache v' \<and> view_wf E v' \<and> over_db v' = over_db v"
  using assms
proof (induction ops arbitrary: v rs)
  case (Cons op ops)
  obtain r v1 where s: "view_step E op v = (r, v1)" by fastforce
  obtain rs1 where rs: "run_steps (view_step E) ops v1 = (rs1, v')" "rs = r # rs1" using Cons.prems(4) s by (auto split: prod.splits)
  have ops: "op_storable E op" "list_all (op_storable E) ops" using Cons.prems(3) by simp_all
  note st = step_refines [OF Cons.prems(1,2) ops(1) s]
  then have "run_steps (map_step (over_db v1)) ops (coins_abs E v1) = (rs1, coins_abs E v') \<and> is_cache v' \<and> view_wf E v' \<and> over_db v' = over_db v1"
    using Cons.IH [OF _ _ ops(2) rs(1)] by blast
  then show ?case using st rs(2) by simp
qed simp

section \<open>Properties\<close>

text \<open>
  C35. The stack of coin views refines one map.  On any stack of caches over the database, every sequence of \<^verbatim>\<open>GetCoins\<close>,
  \<^verbatim>\<open>HaveCoins\<close>, \<^verbatim>\<open>SetCoins\<close> and \<^verbatim>\<open>Flush\<close>, during which the disk may start and stop to take writes, gives exactly the
  answers and exceptions of a plain map of coins.  In that map coins that are completely spent stay visible, to
  \<^verbatim>\<open>HaveCoins\<close> too, until a flush into the database succeeds.  The stack stays well-formed and ends with a view that shows the map.
  A final \<^verbatim>\<open>Flush\<close> throws if its target is a database that takes no writes; otherwise it succeeds, empties the cache and leaves the
  map in the layer below, without the spent coins if that layer is the database.
\<close>

theorem coin_views_refine_map:
  assumes "is_cache v" "view_wf E v" "list_all (op_storable E) ops"
    and "run_steps (view_step E) ops v = (rs, v')" "run_steps (map_step (over_db v)) ops (view_coins E v, disk_writes v) = (rs', M, w)"
  shows "rs = rs' \<and> view_coins E v' = M \<and> view_wf E v' \<and>
    (if over_db v \<and> \<not> w then view_Flush E v' = Inl Runtime_error
     else \<exists>p base. view_Flush E v' = Inr (True, CCoinsViewCache Map.empty p base) \<and> view_wf E base \<and> view_coins E base = flushed (over_db v) M)"
proof -
  note r = run_steps_refines [OF assms(1-4), unfolded coins_abs_def]
  then have m: "rs = rs'" "view_coins E v' = M" "disk_writes v' = w" using assms(5) by simp_all
  have v': "is_cache v'" "view_wf E v'" "over_db v' = over_db v" using r by simp_all
  show ?thesis using Flush_refines [OF v'(1,2)] v' m by auto
qed

theorem coin_views_refine_map_witness:
  "fst (run_steps (view_step flat_curve) [UpdateCoin 3 demo_coins, QueryHave 3, DiskWrites False, FlushView, DiskWrites True, UpdateCoin 3 CCoins_empty, QueryHave 3, FlushView, QueryHave 3]
      (CCoinsViewCache Map.empty None (CCoinsViewDB Map.empty None True))) =
    [BoolAnswer True, BoolAnswer True, NoAnswer, Thrown Runtime_error, NoAnswer, BoolAnswer True, BoolAnswer True, BoolAnswer True, BoolAnswer False]"
proof -
  let ?ops = "[UpdateCoin 3 demo_coins, QueryHave 3, DiskWrites False, FlushView, DiskWrites True, UpdateCoin 3 CCoins_empty, QueryHave 3, FlushView, QueryHave 3]"
  let ?v = "CCoinsViewCache Map.empty None (CCoinsViewDB Map.empty None True)"
  have "storable flat_curve demo_coins" "storable flat_curve CCoins_empty"
    by (simp_all add: storable_def valid_coins_def demo_coins_def Cleanup_def Cleanup_vout_def CTxOut_IsNull_def valid_txoutc_def flat_curve_laws
        CCoins_empty_def IsPruned_def)
  then have c: "is_cache ?v" "view_wf flat_curve ?v" "list_all (op_storable flat_curve) ?ops" by simp_all
  obtain rs v' where r: "run_steps (view_step flat_curve) ?ops ?v = (rs, v')" by fastforce
  obtain rs' M w where m: "run_steps (map_step (over_db ?v)) ?ops (view_coins flat_curve ?v, disk_writes ?v) = (rs', M, w)" by (metis prod.collapse)
  have "rs = rs'" using coin_views_refine_map [OF c r m] by blast
  moreover have "rs' = [BoolAnswer True, BoolAnswer True, NoAnswer, Thrown Runtime_error, NoAnswer, BoolAnswer True, BoolAnswer True, BoolAnswer True, BoolAnswer False]"
    using m by (simp add: map_step_def flushed_def unspent_def CCoins_empty_def IsPruned_def)
  ultimately show ?thesis using r by simp
qed

end
