(* ===== verification/BlockStore.thy ===== *)
theory BlockStore
  imports Merkle Coins "HOL-Library.Sublist"
begin

text \<open>
  The block index and the files of blocks and undo data (\<^verbatim>\<open>src/src/main.h\<close> 193 to 244, 1442 to 1489 and 1541 to 1885,
  \<^verbatim>\<open>src/src/main.cpp\<close> 1496 to 1517 and 1929 to 2021).  A pointer to a block index is the hash of the block.  A file is its list of
  bytes.  The record \<open>io_env\<close> holds what the operating system and the database answer: which amounts of disk space are free,
  whether a file can be opened, positioned and resized, and whether a write to the database succeeds; a failing database write throws.
\<close>

section \<open>Positions\<close>

record CDiskBlockPos =
  pos_nFile :: int
  pos_nPos :: u32

record CDiskTxPos = CDiskBlockPos +
  nTxOffset :: u32

definition CDiskBlockPos_null :: CDiskBlockPos where
  "CDiskBlockPos_null = \<lparr>pos_nFile = -1, pos_nPos = 0\<rparr>"

definition CDiskBlockPos_IsNull :: "'a CDiskBlockPos_scheme \<Rightarrow> bool" where
  "CDiskBlockPos_IsNull p \<longleftrightarrow> pos_nFile p = -1"

definition CDiskTxPos_of :: "CDiskBlockPos \<Rightarrow> u32 \<Rightarrow> CDiskTxPos" where
  "CDiskTxPos_of blockIn nTxOffsetIn = CDiskBlockPos.extend blockIn \<lparr>nTxOffset = nTxOffsetIn\<rparr>"

section \<open>Statistics of a block file\<close>

record CBlockFileInfo =
  fi_nBlocks :: u32
  fi_nSize :: u32
  fi_nUndoSize :: u32
  fi_nHeightFirst :: u32
  fi_nHeightLast :: u32
  fi_nTimeFirst :: u64
  fi_nTimeLast :: u64

definition CBlockFileInfo_null :: CBlockFileInfo where
  "CBlockFileInfo_null = \<lparr>fi_nBlocks = 0, fi_nSize = 0, fi_nUndoSize = 0, fi_nHeightFirst = 0, fi_nHeightLast = 0,
     fi_nTimeFirst = 0, fi_nTimeLast = 0\<rparr>"

definition AddBlock :: "u32 \<Rightarrow> u64 \<Rightarrow> CBlockFileInfo \<Rightarrow> CBlockFileInfo" where
  "AddBlock nHeightIn nTimeIn f =
     (let f = (if fi_nBlocks f = 0 \<or> fi_nHeightFirst f > nHeightIn then f\<lparr>fi_nHeightFirst := nHeightIn\<rparr> else f);
          f = (if fi_nBlocks f = 0 \<or> fi_nTimeFirst f > nTimeIn then f\<lparr>fi_nTimeFirst := nTimeIn\<rparr> else f);
          f = f\<lparr>fi_nBlocks := fi_nBlocks f + 1\<rparr>;
          f = (if nHeightIn > fi_nHeightFirst f then f\<lparr>fi_nHeightLast := nHeightIn\<rparr> else f)
      in if nTimeIn > fi_nTimeLast f then f\<lparr>fi_nTimeLast := nTimeIn\<rparr> else f)"

definition ser_fileinfo :: "CBlockFileInfo \<Rightarrow> byte list" where
  "ser_fileinfo f = WriteVarInt (unat (fi_nBlocks f)) @ WriteVarInt (unat (fi_nSize f)) @ WriteVarInt (unat (fi_nUndoSize f)) @
     WriteVarInt (unat (fi_nHeightFirst f)) @ WriteVarInt (unat (fi_nHeightLast f)) @ WriteVarInt (unat (fi_nTimeFirst f)) @
     WriteVarInt (unat (fi_nTimeLast f))"

definition unser_fileinfo :: "CBlockFileInfo reader" where
  "unser_fileinfo is =
     rbind (ReadVarInt 32 is) (\<lambda>(b, is). rbind (ReadVarInt 32 is) (\<lambda>(s, is). rbind (ReadVarInt 32 is) (\<lambda>(u, is).
     rbind (ReadVarInt 32 is) (\<lambda>(hf, is). rbind (ReadVarInt 32 is) (\<lambda>(hl, is).
     rbind (ReadVarInt 64 is) (\<lambda>(tf, is). rbind (ReadVarInt 64 is) (\<lambda>(tl, is).
     Inr (\<lparr>fi_nBlocks = of_nat b, fi_nSize = of_nat s, fi_nUndoSize = of_nat u, fi_nHeightFirst = of_nat hf,
           fi_nHeightLast = of_nat hl, fi_nTimeFirst = of_nat tf, fi_nTimeLast = of_nat tl\<rparr>, is))))))))"

section \<open>Block index\<close>

definition BLOCK_VALID_TRANSACTIONS :: nat where "BLOCK_VALID_TRANSACTIONS = 3"
definition BLOCK_VALID_SCRIPTS :: nat where "BLOCK_VALID_SCRIPTS = 5"
definition BLOCK_VALID_MASK :: nat where "BLOCK_VALID_MASK = 7"
definition BLOCK_HAVE_DATA :: nat where "BLOCK_HAVE_DATA = 8"
definition BLOCK_HAVE_UNDO :: nat where "BLOCK_HAVE_UNDO = 16"
definition BLOCK_FAILED_VALID :: nat where "BLOCK_FAILED_VALID = 32"
definition BLOCK_FAILED_CHILD :: nat where "BLOCK_FAILED_CHILD = 64"
definition BLOCK_FAILED_MASK :: nat where "BLOCK_FAILED_MASK = 96"

record CBlockIndex =
  ix_phashBlock :: blockptr
  ix_pprev :: blockptr
  ix_pnext :: blockptr
  ix_nHeight :: int
  ix_nFile :: int
  ix_nDataPos :: u32
  ix_nUndoPos :: u32
  ix_nChainWork :: uint256
  ix_nWorkTransition :: u32
  ix_nPrimeChainType :: u32
  ix_nPrimeChainLength :: u32
  ix_nMoneySupply :: int
  ix_nTx :: u32
  ix_nChainTx :: u32
  ix_nStatus :: nat
  ix_nVersion :: int
  ix_hashMerkleRoot :: uint256
  ix_nTime :: u32
  ix_nBits :: u32
  ix_nNonce :: u32

definition CBlockIndex_of :: "'a CBlockHeader_scheme \<Rightarrow> CBlockIndex" where
  "CBlockIndex_of b = \<lparr>ix_phashBlock = None, ix_pprev = None, ix_pnext = None, ix_nHeight = 0, ix_nFile = 0, ix_nDataPos = 0,
     ix_nUndoPos = 0, ix_nChainWork = 0, ix_nWorkTransition = 0, ix_nPrimeChainType = 0, ix_nPrimeChainLength = 0,
     ix_nMoneySupply = 0, ix_nTx = 0, ix_nChainTx = 0, ix_nStatus = 0, ix_nVersion = blk_nVersion b,
     ix_hashMerkleRoot = hashMerkleRoot b, ix_nTime = blk_nTime b, ix_nBits = blk_nBits b, ix_nNonce = blk_nNonce b\<rparr>"

definition ix_GetBlockPos :: "CBlockIndex \<Rightarrow> CDiskBlockPos" where
  "ix_GetBlockPos ix = (if ix_nStatus ix AND BLOCK_HAVE_DATA \<noteq> 0 then \<lparr>pos_nFile = ix_nFile ix, pos_nPos = ix_nDataPos ix\<rparr>
     else CDiskBlockPos_null)"

definition ix_GetUndoPos :: "CBlockIndex \<Rightarrow> CDiskBlockPos" where
  "ix_GetUndoPos ix = (if ix_nStatus ix AND BLOCK_HAVE_UNDO \<noteq> 0 then \<lparr>pos_nFile = ix_nFile ix, pos_nPos = ix_nUndoPos ix\<rparr>
     else CDiskBlockPos_null)"

definition ix_GetBlockHeader :: "CBlockIndex \<Rightarrow> CBlockHeader" where
  "ix_GetBlockHeader ix =
     (let b = CBlockHeader_null\<lparr>blk_nVersion := ix_nVersion ix\<rparr>;
          b = (case ix_pprev ix of None \<Rightarrow> b | Some h \<Rightarrow> b\<lparr>hashPrevBlock := h\<rparr>)
      in b\<lparr>hashMerkleRoot := ix_hashMerkleRoot ix, blk_nTime := ix_nTime ix, blk_nBits := ix_nBits ix, blk_nNonce := ix_nNonce ix\<rparr>)"

definition IsInMainChain :: "blockptr \<Rightarrow> CBlockIndex \<Rightarrow> bool" where
  "IsInMainChain pindexBest ix \<longleftrightarrow> ix_pnext ix \<noteq> None \<or> ix_phashBlock ix = pindexBest"

text \<open>The block and up to \<open>n - 1\<close> of its predecessors, the last block first.\<close>

fun ancestors :: "(uint256 \<rightharpoonup> CBlockIndex) \<Rightarrow> nat \<Rightarrow> blockptr \<Rightarrow> CBlockIndex list" where
  "ancestors m 0 p = []"
| "ancestors m (Suc n) p = (case Option.bind p m of None \<Rightarrow> [] | Some ix \<Rightarrow> ix # ancestors m n (ix_pprev ix))"

definition nMedianTimeSpan :: nat where "nMedianTimeSpan = 99"

definition GetMedianTimePast :: "(uint256 \<rightharpoonup> CBlockIndex) \<Rightarrow> uint256 \<Rightarrow> int" where
  "GetMedianTimePast m h =
     (let pmedian = sort (map (\<lambda>ix. uint (ix_nTime ix)) (ancestors m nMedianTimeSpan (Some h)))
      in pmedian ! (length pmedian div 2))"

text \<open>\<^verbatim>\<open>GetMedianTime\<close>: half a span forward along \<^verbatim>\<open>pnext\<close>, or the time of the block if there are too few.\<close>

fun forward :: "(uint256 \<rightharpoonup> CBlockIndex) \<Rightarrow> nat \<Rightarrow> uint256 \<Rightarrow> uint256 option" where
  "forward m 0 h = Some h"
| "forward m (Suc n) h = (case Option.bind (m h) ix_pnext of None \<Rightarrow> None | Some h' \<Rightarrow> forward m n h')"

definition GetMedianTime :: "(uint256 \<rightharpoonup> CBlockIndex) \<Rightarrow> uint256 \<Rightarrow> CBlockIndex \<Rightarrow> int" where
  "GetMedianTime m h ix = (case forward m (nMedianTimeSpan div 2) h of
     None \<Rightarrow> uint (ix_nTime ix) | Some h' \<Rightarrow> GetMedianTimePast m h')"

text \<open>\<^verbatim>\<open>CBlockIndexWorkComparator\<close>: less work first, and of two with the same work the greater hash.\<close>

definition work_less :: "CBlockIndex \<Rightarrow> CBlockIndex \<Rightarrow> bool" where
  "work_less pa pb =
     (if ix_nChainWork pa > ix_nChainWork pb then False
      else if ix_nChainWork pa < ix_nChainWork pb then True
      else if the (ix_phashBlock pa) < the (ix_phashBlock pb) then False
      else if the (ix_phashBlock pa) > the (ix_phashBlock pb) then True
      else False)"

section \<open>Files\<close>

definition MAX_BLOCKFILE_SIZE :: u32 where "MAX_BLOCKFILE_SIZE = 0x8000000"
definition BLOCKFILE_CHUNK_SIZE :: u32 where "BLOCKFILE_CHUNK_SIZE = 0x1000000"
definition UNDOFILE_CHUNK_SIZE :: u32 where "UNDOFILE_CHUNK_SIZE = 0x100000"

record io_env =
  io_space :: "nat \<Rightarrow> bool"
  io_open :: bool
  io_db :: bool

text \<open>
  The files, the globals that describe the last block file, and the entries of the block tree
  database: block file statistics, the number of the last file, block indexes and the transaction index.
\<close>

record block_store =
  blkFiles :: "int \<Rightarrow> byte list"
  revFiles :: "int \<Rightarrow> byte list"
  nLastBlockFile :: int
  infoLastBlockFile :: CBlockFileInfo
  db_fileinfo :: "int \<rightharpoonup> CBlockFileInfo"
  db_lastfile :: "int option"
  db_index :: "uint256 \<rightharpoonup> CBlockIndex"
  db_txindex :: "uint256 \<rightharpoonup> CDiskTxPos"

definition WriteBlockIndex :: "io_env \<Rightarrow> CBlockIndex \<Rightarrow> block_store \<Rightarrow> block_store res" where
  "WriteBlockIndex io ix S = (if io_db io then Inr (S\<lparr>db_index := (db_index S)(the (ix_phashBlock ix) \<mapsto> ix)\<rparr>) else Inl Runtime_error)"

definition WriteBlockFileInfo :: "io_env \<Rightarrow> int \<Rightarrow> CBlockFileInfo \<Rightarrow> block_store \<Rightarrow> block_store res" where
  "WriteBlockFileInfo io nFile info S = (if io_db io then Inr (S\<lparr>db_fileinfo := (db_fileinfo S)(nFile \<mapsto> info)\<rparr>) else Inl Runtime_error)"

definition WriteLastBlockFile :: "io_env \<Rightarrow> int \<Rightarrow> block_store \<Rightarrow> block_store res" where
  "WriteLastBlockFile io nFile S = (if io_db io then Inr (S\<lparr>db_lastfile := Some nFile\<rparr>) else Inl Runtime_error)"

definition WriteTxIndex :: "io_env \<Rightarrow> (uint256 \<times> CDiskTxPos) list \<Rightarrow> block_store \<Rightarrow> block_store res" where
  "WriteTxIndex io vPos S = (if io_db io then Inr (S\<lparr>db_txindex := (db_txindex S) ++ map_of (rev vPos)\<rparr>) else Inl Runtime_error)"

text \<open>\<^verbatim>\<open>AllocateFileRange\<close> and \<^verbatim>\<open>fseek\<close> beyond the end extend a file with zeros.\<close>

definition extend_file :: "byte list \<Rightarrow> nat \<Rightarrow> byte list" where
  "extend_file f n = f @ replicate (n - length f) 0"

text \<open>\<^verbatim>\<open>TruncateFile\<close> sets the length of a file, and may lengthen it too.  A file that cannot be opened is left alone.\<close>

definition TruncateFile :: "byte list \<Rightarrow> nat \<Rightarrow> byte list" where
  "TruncateFile f n = take n (extend_file f n)"

definition FlushBlockFile :: "io_env \<Rightarrow> bool \<Rightarrow> block_store \<Rightarrow> block_store" where
  "FlushBlockFile io fFinalize S =
     (if fFinalize \<and> io_open io then
        S\<lparr>blkFiles := (blkFiles S)(nLastBlockFile S := TruncateFile (blkFiles S (nLastBlockFile S)) (unat (fi_nSize (infoLastBlockFile S)))),
          revFiles := (revFiles S)(nLastBlockFile S := TruncateFile (revFiles S (nLastBlockFile S)) (unat (fi_nUndoSize (infoLastBlockFile S))))\<rparr>
      else S)"

text \<open>The statistics of a file as the database has them, or those of an empty file.\<close>

definition ReadBlockFileInfo :: "block_store \<Rightarrow> int \<Rightarrow> CBlockFileInfo" where
  "ReadBlockFileInfo S nFile = (case db_fileinfo S nFile of Some info \<Rightarrow> info | None \<Rightarrow> CBlockFileInfo_null)"

text \<open>The loop of \<^verbatim>\<open>FindBlockPos\<close> leaves full files; it ends only if a file with room comes.\<close>

partial_function (option) next_file_loop :: "io_env \<Rightarrow> u32 \<Rightarrow> block_store \<Rightarrow> bool \<Rightarrow> (block_store \<times> bool) option" where
  "next_file_loop io nAddSize S fUpdatedLast =
     (if fi_nSize (infoLastBlockFile S) + nAddSize \<ge> MAX_BLOCKFILE_SIZE then
        let S = FlushBlockFile io True S; S = S\<lparr>nLastBlockFile := nLastBlockFile S + 1\<rparr>
        in next_file_loop io nAddSize (S\<lparr>infoLastBlockFile := ReadBlockFileInfo S (nLastBlockFile S)\<rparr>) True
      else Some (S, fUpdatedLast))"

definition chunks :: "u32 \<Rightarrow> u32 \<Rightarrow> u32" where
  "chunks n chunk = (n + chunk - 1) div chunk"

text \<open>The place of a new block; \<open>known\<close> is the position of a block that is in a file already.\<close>

definition FindBlockPos :: "io_env \<Rightarrow> CDiskBlockPos option \<Rightarrow> u32 \<Rightarrow> u32 \<Rightarrow> u64 \<Rightarrow> CValidationState \<Rightarrow> block_store \<Rightarrow>
    ((bool \<times> CValidationState) \<times> CDiskBlockPos \<times> block_store) res option" where
  "FindBlockPos io known nAddSize nHeight nTime state S =
     Option.bind (case known of
         Some pos \<Rightarrow> Some (if nLastBlockFile S \<noteq> pos_nFile pos
           then (S\<lparr>nLastBlockFile := pos_nFile pos,
                   infoLastBlockFile := ReadBlockFileInfo S (pos_nFile pos)\<rparr>, True)
           else (S, False))
       | None \<Rightarrow> next_file_loop io nAddSize S False) (\<lambda>(S, fUpdatedLast).
     let pos = (case known of Some pos \<Rightarrow> pos
                | None \<Rightarrow> \<lparr>pos_nFile = nLastBlockFile S, pos_nPos = fi_nSize (infoLastBlockFile S)\<rparr>);
         info = (infoLastBlockFile S)\<lparr>fi_nSize := fi_nSize (infoLastBlockFile S) + nAddSize\<rparr>;
         S = S\<lparr>infoLastBlockFile := AddBlock nHeight nTime info\<rparr>;
         nOldChunks = chunks (pos_nPos pos) BLOCKFILE_CHUNK_SIZE; nNewChunks = chunks (fi_nSize (infoLastBlockFile S)) BLOCKFILE_CHUNK_SIZE;
         nEnd = nNewChunks * BLOCKFILE_CHUNK_SIZE;
         fGrow = (known = None \<and> nNewChunks > nOldChunks)
     in Some (if fGrow \<and> \<not> io_space io (unat (nEnd - pos_nPos pos)) then Inr (Error state, pos, S)
        else let S = (if fGrow \<and> io_open io
                      then S\<lparr>blkFiles := (blkFiles S)(pos_nFile pos := extend_file (blkFiles S (pos_nFile pos)) (unat nEnd))\<rparr> else S)
        in rbind (WriteBlockFileInfo io (nLastBlockFile S) (infoLastBlockFile S) S) (\<lambda>S.
           rbind (if fUpdatedLast then WriteLastBlockFile io (nLastBlockFile S) S else Inr S) (\<lambda>S.
           Inr ((True, state), pos, S)))))"

definition FindUndoPos :: "io_env \<Rightarrow> int \<Rightarrow> u32 \<Rightarrow> CValidationState \<Rightarrow> block_store \<Rightarrow>
    ((bool \<times> CValidationState) \<times> CDiskBlockPos \<times> block_store) res" where
  "FindUndoPos io nFile nAddSize state S =
     (let grow = (\<lambda>nPos nNewSize S.
        let pos = \<lparr>pos_nFile = nFile, pos_nPos = nPos\<rparr>; nNewChunks = chunks nNewSize UNDOFILE_CHUNK_SIZE;
            nEnd = nNewChunks * UNDOFILE_CHUNK_SIZE; fGrow = (nNewChunks > chunks nPos UNDOFILE_CHUNK_SIZE)
        in if fGrow \<and> \<not> io_space io (unat (nEnd - nPos)) then Inr (Error state, pos, S)
           else Inr ((True, state), pos, if fGrow \<and> io_open io
                  then S\<lparr>revFiles := (revFiles S)(nFile := extend_file (revFiles S nFile) (unat nEnd))\<rparr> else S))
      in if nFile = nLastBlockFile S then
           let nPos = fi_nUndoSize (infoLastBlockFile S); nNewSize = nPos + nAddSize;
               S = S\<lparr>infoLastBlockFile := (infoLastBlockFile S)\<lparr>fi_nUndoSize := nNewSize\<rparr>\<rparr>
           in rbind (WriteBlockFileInfo io (nLastBlockFile S) (infoLastBlockFile S) S) (grow nPos nNewSize)
         else case db_fileinfo S nFile of
           None \<Rightarrow> Inr (Abort state, \<lparr>pos_nFile = nFile, pos_nPos = 0\<rparr>, S)
         | Some info \<Rightarrow>
             let nPos = fi_nUndoSize info; nNewSize = nPos + nAddSize
             in rbind (WriteBlockFileInfo io nFile (info\<lparr>fi_nUndoSize := nNewSize\<rparr>) S) (grow nPos nNewSize))"

text \<open>Writing at a position of a file: undo data, and blocks.  \<open>None\<close> where the file cannot be opened.\<close>

definition undo_write_at :: "io_env \<Rightarrow> digests \<Rightarrow> 'p curve \<Rightarrow> byte list \<Rightarrow> CDiskBlockPos \<Rightarrow> uint256 \<Rightarrow> CBlockUndo \<Rightarrow> block_store \<Rightarrow>
    (CDiskBlockPos \<times> block_store) option res" where
  "undo_write_at io D E magic pos hashBlock undo S =
     (if CDiskBlockPos_IsNull pos \<or> \<not> io_open io then Inr None
      else let f = revFiles S (pos_nFile pos) in
        rbind (undo_WriteToDisk D E magic (take (unat (pos_nPos pos)) (extend_file f (unat (pos_nPos pos)))) hashBlock undo) (\<lambda>(f', nPos).
        Inr (Some (pos\<lparr>pos_nPos := of_nat nPos\<rparr>, S\<lparr>revFiles := (revFiles S)(pos_nFile pos := f' @ drop (length f') f)\<rparr>))))"

definition undo_read_at :: "io_env \<Rightarrow> digests \<Rightarrow> 'p curve \<Rightarrow> CDiskBlockPos \<Rightarrow> uint256 \<Rightarrow> block_store \<Rightarrow> CBlockUndo option" where
  "undo_read_at io D E pos hashBlock S =
     (if CDiskBlockPos_IsNull pos \<or> \<not> io_open io then None
      else undo_ReadFromDisk D E (revFiles S (pos_nFile pos)) (unat (pos_nPos pos)) hashBlock)"

definition block_WriteToDisk :: "io_env \<Rightarrow> bn_mpi \<Rightarrow> byte list \<Rightarrow> CDiskBlockPos \<Rightarrow> CBlock \<Rightarrow> block_store \<Rightarrow> (CDiskBlockPos \<times> block_store) option" where
  "block_WriteToDisk io M magic pos b S =
     (if CDiskBlockPos_IsNull pos \<or> \<not> io_open io then None
      else let f = blkFiles S (pos_nFile pos); bs = ser_block M b; n = unat (pos_nPos pos);
               f' = take n (extend_file f n) @ magic @ write_le 4 (length bs)
           in Some (pos\<lparr>pos_nPos := of_nat (length f')\<rparr>,
                    S\<lparr>blkFiles := (blkFiles S)(pos_nFile pos := f' @ bs @ drop (length f' + length bs) f)\<rparr>))"

definition block_ReadFromDisk :: "io_env \<Rightarrow> bn_mpi \<Rightarrow> CDiskBlockPos \<Rightarrow> block_store \<Rightarrow> CBlock option" where
  "block_ReadFromDisk io M pos S =
     (if CDiskBlockPos_IsNull pos \<or> \<not> io_open io then None
      else case unser_block M (drop (unat (pos_nPos pos)) (blkFiles S (pos_nFile pos))) of Inl _ \<Rightarrow> None | Inr (b, _) \<Rightarrow> Some b)"

definition block_ReadFromDisk_ix :: "io_env \<Rightarrow> digests \<Rightarrow> bn_mpi \<Rightarrow> CBlockIndex \<Rightarrow> block_store \<Rightarrow> CBlock option" where
  "block_ReadFromDisk_ix io D M ix S = (case block_ReadFromDisk io M (ix_GetBlockPos ix) S of
     None \<Rightarrow> None
   | Some b \<Rightarrow> if ix_phashBlock ix \<noteq> Some (block_GetHash D M b) then None else Some b)"

section \<open>Reference definitions\<close>

text \<open>Finitely many files are known, and none is larger than the limit.\<close>

definition store_ok :: "block_store \<Rightarrow> bool" where
  "store_ok S \<longleftrightarrow> finite (dom (db_fileinfo S)) \<and> fi_nSize (infoLastBlockFile S) \<le> MAX_BLOCKFILE_SIZE \<and>
     (\<forall>n info. db_fileinfo S n = Some info \<longrightarrow> fi_nSize info \<le> MAX_BLOCKFILE_SIZE)"

text \<open>The size of the data in a file: the last file is described in memory, the others in the database.\<close>

definition file_size :: "block_store \<Rightarrow> int \<Rightarrow> u32" where
  "file_size S f = fi_nSize (if f = nLastBlockFile S then infoLastBlockFile S else ReadBlockFileInfo S f)"

definition keeps_data :: "block_store \<Rightarrow> block_store \<Rightarrow> bool" where
  "keeps_data S S' \<longleftrightarrow> (\<forall>f. prefix (take (unat (file_size S f)) (blkFiles S f)) (blkFiles S' f))"

text \<open>One round of the loop: the next file becomes the last one, and no data is lost.\<close>

definition next_file :: "io_env \<Rightarrow> block_store \<Rightarrow> block_store" where
  "next_file io S = (FlushBlockFile io True S)\<lparr>nLastBlockFile := nLastBlockFile S + 1, infoLastBlockFile := ReadBlockFileInfo S (nLastBlockFile S + 1)\<rparr>"

definition demo_store :: block_store where
  "demo_store = \<lparr>blkFiles = (\<lambda>_. []), revFiles = (\<lambda>_. []), nLastBlockFile = 0,
     infoLastBlockFile = CBlockFileInfo_null\<lparr>fi_nBlocks := 9, fi_nSize := 0x7FFFFFF\<rparr>, db_fileinfo = [1 \<mapsto> CBlockFileInfo_null\<lparr>fi_nBlocks := 1, fi_nSize := 700\<rparr>], db_lastfile = None,
     db_index = Map.empty, db_txindex = Map.empty\<rparr>"

section \<open>Lemmas\<close>

interpretation fileinfo: codec ser_fileinfo unser_fileinfo "\<lambda>_. True"
proof
  fix f rest
  have b: "unat (x :: u32) < 2 ^ 32" "unat (y :: u64) < 2 ^ 64" for x y using unat_less_len [of x] unat_less_len [of y] by simp_all
  show "unser_fileinfo (ser_fileinfo f @ rest) = Inr (f, rest)"
    by (simp add: ser_fileinfo_def unser_fileinfo_def ReadVarInt_write b del: power_numeral)
qed

text \<open>A block of the height of the second one lowers the recorded last height.\<close>

lemma AddBlock_lowers:
  "fi_nHeightLast (AddBlock 6 1 (AddBlock 9 1 (AddBlock 5 1 CBlockFileInfo_null))) = 6"
  by code_simp

lemma FlushBlockFile_keeps [simp]:
  "nLastBlockFile (FlushBlockFile io f S) = nLastBlockFile S" "infoLastBlockFile (FlushBlockFile io f S) = infoLastBlockFile S"
  "db_fileinfo (FlushBlockFile io f S) = db_fileinfo S" "k \<noteq> nLastBlockFile S \<Longrightarrow> blkFiles (FlushBlockFile io f S) k = blkFiles S k"
  by (simp_all add: FlushBlockFile_def)

lemma FlushBlockFile_data: "prefix (take (unat (fi_nSize (infoLastBlockFile S))) (blkFiles S (nLastBlockFile S))) (blkFiles (FlushBlockFile io f S) (nLastBlockFile S))"
  by (simp add: FlushBlockFile_def TruncateFile_def extend_file_def take_is_prefix)

lemma next_file_loop_step:
  "next_file_loop io nAddSize S u =
     (if fi_nSize (infoLastBlockFile S) + nAddSize \<ge> MAX_BLOCKFILE_SIZE then next_file_loop io nAddSize (next_file io S) True else Some (S, u))"
  by (subst next_file_loop.simps) (simp add: Let_def next_file_def ReadBlockFileInfo_def)

lemma next_file_keeps:
  assumes "store_ok S"
  shows "store_ok (next_file io S)" "db_fileinfo (next_file io S) = db_fileinfo S" "nLastBlockFile (next_file io S) = nLastBlockFile S + 1"
    "f \<noteq> nLastBlockFile S \<Longrightarrow> file_size (next_file io S) f = file_size S f \<and> blkFiles (next_file io S) f = blkFiles S f"
    "prefix (take (unat (file_size S (nLastBlockFile S))) (blkFiles S (nLastBlockFile S))) (blkFiles (next_file io S) (nLastBlockFile S))"
proof -
  show d: "db_fileinfo (next_file io S) = db_fileinfo S" and l: "nLastBlockFile (next_file io S) = nLastBlockFile S + 1"
    by (simp_all add: next_file_def)
  have i: "infoLastBlockFile (next_file io S) = ReadBlockFileInfo S (nLastBlockFile S + 1)" by (simp add: next_file_def)
  have "fi_nSize (ReadBlockFileInfo S f) \<le> MAX_BLOCKFILE_SIZE" for f
    using assms by (simp add: store_ok_def ReadBlockFileInfo_def CBlockFileInfo_null_def split: option.split)
  then show "store_ok (next_file io S)" using assms d i by (simp add: store_ok_def)
  have "ReadBlockFileInfo (next_file io S) = ReadBlockFileInfo S" by (simp add: ReadBlockFileInfo_def fun_eq_iff d)
  then show "file_size (next_file io S) f = file_size S f \<and> blkFiles (next_file io S) f = blkFiles S f" if "f \<noteq> nLastBlockFile S"
    using that i l by (simp add: file_size_def) (simp add: next_file_def)
  show "prefix (take (unat (file_size S (nLastBlockFile S))) (blkFiles S (nLastBlockFile S))) (blkFiles (next_file io S) (nLastBlockFile S))"
    using FlushBlockFile_data [of S io True] by (simp add: file_size_def next_file_def)
qed

lemma files_ahead_less:
  assumes "store_ok S" "db_fileinfo S (nLastBlockFile S + 1) = Some info"
  shows "card {k \<in> dom (db_fileinfo S). nLastBlockFile S + 1 < k} < card {k \<in> dom (db_fileinfo S). nLastBlockFile S < k}"
proof (rule psubset_card_mono)
  show "finite {k \<in> dom (db_fileinfo S). nLastBlockFile S < k}" using assms(1) by (simp add: store_ok_def)
  have "nLastBlockFile S + 1 \<in> {k \<in> dom (db_fileinfo S). nLastBlockFile S < k}" using assms(2) by (simp add: domI)
  then have "{k \<in> dom (db_fileinfo S). nLastBlockFile S + 1 < k} \<noteq> {k \<in> dom (db_fileinfo S). nLastBlockFile S < k}" by blast
  then show "{k \<in> dom (db_fileinfo S). nLastBlockFile S + 1 < k} \<subset> {k \<in> dom (db_fileinfo S). nLastBlockFile S < k}" by auto
qed

lemma next_file_loop_returns:
  assumes "store_ok S" "nAddSize < MAX_BLOCKFILE_SIZE"
  shows "\<exists>S' f. next_file_loop io nAddSize S u = Some (S', f) \<and> fi_nSize (infoLastBlockFile S') + nAddSize < MAX_BLOCKFILE_SIZE \<and>
    store_ok S' \<and> nLastBlockFile S \<le> nLastBlockFile S' \<and> fi_nSize (infoLastBlockFile S') = file_size S (nLastBlockFile S') \<and>
    keeps_data S S' \<and> (\<forall>f<nLastBlockFile S. blkFiles S' f = blkFiles S f)"
  using assms(1)
proof (induction "card {k \<in> dom (db_fileinfo S). nLastBlockFile S < k}" arbitrary: S u rule: less_induct)
  case less
  let ?S1 = "next_file io S"
  note k = next_file_keeps [where io = io, OF less.prems]
  show ?case
  proof (cases "fi_nSize (infoLastBlockFile S) + nAddSize \<ge> MAX_BLOCKFILE_SIZE")
    case False
    then show ?thesis using less.prems by (simp add: next_file_loop_step [of io nAddSize S] file_size_def keeps_data_def take_is_prefix)
  next
    case True
    have "\<exists>S' f. next_file_loop io nAddSize ?S1 True = Some (S', f) \<and> fi_nSize (infoLastBlockFile S') + nAddSize < MAX_BLOCKFILE_SIZE \<and>
      store_ok S' \<and> nLastBlockFile ?S1 \<le> nLastBlockFile S' \<and> fi_nSize (infoLastBlockFile S') = file_size ?S1 (nLastBlockFile S') \<and>
      keeps_data ?S1 S' \<and> (\<forall>f<nLastBlockFile ?S1. blkFiles S' f = blkFiles ?S1 f)"
    proof (cases "db_fileinfo S (nLastBlockFile S + 1)")
      case None
      then have z: "fi_nSize (infoLastBlockFile ?S1) = 0" by (simp add: next_file_def ReadBlockFileInfo_def CBlockFileInfo_null_def)
      have "\<not> MAX_BLOCKFILE_SIZE \<le> nAddSize" using assms(2) by simp
      then have "next_file_loop io nAddSize ?S1 True = Some (?S1, True)" using z by (subst next_file_loop_step) simp
      then show ?thesis using k(1) z assms(2)
        by (intro exI [of _ ?S1] exI [of _ True]) (simp add: file_size_def keeps_data_def take_is_prefix)
    next
      case (Some info)
      have "card {k \<in> dom (db_fileinfo ?S1). nLastBlockFile ?S1 < k} < card {k \<in> dom (db_fileinfo S). nLastBlockFile S < k}"
        unfolding k(2,3) by (rule files_ahead_less [OF less.prems Some])
      from less.hyps [OF this k(1), of True] show ?thesis .
    qed
    then obtain S' f where r: "next_file_loop io nAddSize ?S1 True = Some (S', f)" "fi_nSize (infoLastBlockFile S') + nAddSize < MAX_BLOCKFILE_SIZE"
      "store_ok S'" "nLastBlockFile S + 1 \<le> nLastBlockFile S'" "fi_nSize (infoLastBlockFile S') = file_size ?S1 (nLastBlockFile S')" "keeps_data ?S1 S'"
      "\<forall>f<nLastBlockFile S + 1. blkFiles S' f = blkFiles ?S1 f" unfolding k(3) by (elim exE conjE) (rule that)
    have "keeps_data S S'" unfolding keeps_data_def
    proof
      fix g show "prefix (take (unat (file_size S g)) (blkFiles S g)) (blkFiles S' g)"
        using k(4) [of g] k(5) r(6) [unfolded keeps_data_def, THEN spec, of g] r(7) by (cases "g = nLastBlockFile S") simp_all
    qed
    moreover have "blkFiles S' g = blkFiles S g" if "g < nLastBlockFile S" for g using that r(7) k(4) [of g] by simp
    moreover have "next_file_loop io nAddSize S u = Some (S', f)" using True r(1) by (subst next_file_loop_step) simp
    ultimately show ?thesis using r(2-5) k(4) [of "nLastBlockFile S'"] by (intro exI [of _ S'] exI [of _ f]) simp
  qed
qed

lemma length_extend: "n \<le> length (extend_file f n)"
  by (simp add: extend_file_def)

lemma unat_of_nat_u32: "n < 2 ^ 32 \<Longrightarrow> unat (of_nat n :: u32) = n"
  by (simp add: unat_of_nat)

lemma take_extend: "length (take n (extend_file f n)) = n"
  by (simp add: extend_file_def)

text \<open>Undo data written at a position is read back from the position returned.\<close>

lemma undo_file_roundtrip:
  assumes "valid_blockundo E undo" "io_open io" "\<not> CDiskBlockPos_IsNull pos" "unat (pos_nPos pos) + length magic + 4 < 2 ^ 32"
  shows "\<exists>pos' fs. undo_write_at io D E magic pos hashBlock undo S = Inr (Some (pos', S\<lparr>revFiles := fs\<rparr>)) \<and>
    pos_nFile pos' = pos_nFile pos \<and> undo_read_at io D E pos' hashBlock (S\<lparr>revFiles := fs\<rparr>) = Some undo"
proof -
  let ?n = "unat (pos_nPos pos)" and ?f = "revFiles S (pos_nFile pos)"
  obtain bs where bs: "ser_blockundo E undo = Inr bs" "\<And>f later. undo_ReadFromDisk D E ((f @ bs @ image256 (Hash D (image256 hashBlock @ bs))) @ later)
      (length f) hashBlock = Some undo"
    using undo_read_written [OF assms(1), of D hashBlock hashBlock] by (elim exE conjE) (rule that, auto)
  define pre where "pre = take ?n (extend_file ?f ?n) @ magic @ write_le 4 (length bs)"
  define whole where "whole = pre @ bs @ image256 (Hash D (image256 hashBlock @ bs))"
  define fs where "fs = (revFiles S)(pos_nFile pos := whole @ drop (length whole) ?f)"
  have "length pre = ?n + length magic + 4" using take_extend [of ?n ?f] by (simp add: write_le_def pre_def)
  then have len: "unat (of_nat (length pre) :: u32) = length pre" using assms(4) by (intro unat_of_nat_u32) linarith
  have "undo_ReadFromDisk D E (whole @ drop (length whole) ?f) (length pre) hashBlock = Some undo"
    using bs(2) [of pre "drop (length whole) ?f"] by (simp only: whole_def append_assoc)
  then have "undo_read_at io D E (pos\<lparr>pos_nPos := of_nat (length pre)\<rparr>) hashBlock (S\<lparr>revFiles := fs\<rparr>) = Some undo"
    using assms(2,3) len by (simp add: undo_read_at_def CDiskBlockPos_IsNull_def fs_def)
  moreover have "undo_WriteToDisk D E magic (take ?n (extend_file ?f ?n)) hashBlock undo = Inr (whole, length pre)"
    by (simp add: undo_WriteToDisk_def bs(1) Let_def whole_def pre_def)
  then have "undo_write_at io D E magic pos hashBlock undo S = Inr (Some (pos\<lparr>pos_nPos := of_nat (length pre)\<rparr>, S\<lparr>revFiles := fs\<rparr>))"
    using assms(2,3) by (simp add: undo_write_at_def Let_def fs_def)
  moreover have "pos_nFile (pos\<lparr>pos_nPos := of_nat (length pre)\<rparr>) = pos_nFile pos" by simp
  ultimately show ?thesis by (intro exI conjI)
qed

lemma ancestors_nonempty: "0 < n \<Longrightarrow> m h = Some ix \<Longrightarrow> ancestors m n (Some h) \<noteq> []"
  by (cases n) simp_all

lemma median_member:
  assumes "m h = Some ix"
  shows "GetMedianTimePast m h \<in> (\<lambda>ix. uint (ix_nTime ix)) ` set (ancestors m nMedianTimeSpan (Some h))"
proof -
  have ne: "ancestors m nMedianTimeSpan (Some h) \<noteq> []"
    using assms by (intro ancestors_nonempty) (simp_all add: nMedianTimeSpan_def)
  define ts where "ts = sort (map (\<lambda>ix. uint (ix_nTime ix)) (ancestors m nMedianTimeSpan (Some h)))"
  have "length ts div 2 < length ts" using ne by (simp add: ts_def)
  then have "ts ! (length ts div 2) \<in> set ts" by (rule nth_mem)
  then show ?thesis unfolding GetMedianTimePast_def Let_def ts_def by simp
qed

text \<open>The comparator is a strict total order of block indexes with different hashes.\<close>

lemma work_less_order:
  "\<not> work_less a a" "work_less a b \<Longrightarrow> work_less b c \<Longrightarrow> work_less a c"
  "the (ix_phashBlock a) \<noteq> the (ix_phashBlock b) \<Longrightarrow> work_less a b \<or> work_less b a"
  by (auto simp: work_less_def split: if_splits)

lemma AddBlock_nSize [simp]: "fi_nSize (AddBlock h t f) = fi_nSize f"
  by (simp add: AddBlock_def Let_def)

section \<open>Properties\<close>

text \<open>
  C39. A new block gets a place after all data.  With disk space and a working database, \<^verbatim>\<open>FindBlockPos\<close> returns for every block smaller
  than a file: the loop over the files ends although the database may already know later files.  The place is the end of
  the data that its file held before, as recorded in memory for the last file and in the database for the others, so
  that no block is overwritten; the data of every file is kept.  The block stays below the size limit without wrap-around, and the database
  records the new size.
\<close>

theorem FindBlockPos_returns:
  assumes "store_ok S" "nAddSize < MAX_BLOCKFILE_SIZE" "io_db io" "io_space io = (\<lambda>_. True)"
  shows "\<exists>pos S' info. FindBlockPos io None nAddSize nHeight nTime st S = Some (Inr ((True, st), pos, S')) \<and> store_ok S' \<and>
    nLastBlockFile S \<le> pos_nFile pos \<and> pos_nFile pos = nLastBlockFile S' \<and> pos_nPos pos = file_size S (pos_nFile pos) \<and> keeps_data S S' \<and>
    db_fileinfo S' (pos_nFile pos) = Some info \<and> unat (fi_nSize info) = unat (pos_nPos pos) + unat nAddSize \<and> fi_nSize info < MAX_BLOCKFILE_SIZE"
proof -
  obtain S1 u where l: "next_file_loop io nAddSize S False = Some (S1, u)" "fi_nSize (infoLastBlockFile S1) + nAddSize < MAX_BLOCKFILE_SIZE"
    "store_ok S1" "nLastBlockFile S \<le> nLastBlockFile S1" "fi_nSize (infoLastBlockFile S1) = file_size S (nLastBlockFile S1)" "keeps_data S S1"
    using next_file_loop_returns [OF assms(1,2), of io False] by (elim exE conjE) (rule that)
  let ?pos = "\<lparr>pos_nFile = nLastBlockFile S1, pos_nPos = fi_nSize (infoLastBlockFile S1)\<rparr>"
  let ?info = "AddBlock nHeight nTime ((infoLastBlockFile S1)\<lparr>fi_nSize := fi_nSize (infoLastBlockFile S1) + nAddSize\<rparr>)"
  have r: "\<exists>S'. FindBlockPos io None nAddSize nHeight nTime st S = Some (Inr ((True, st), ?pos, S')) \<and> infoLastBlockFile S' = ?info \<and>
      nLastBlockFile S' = nLastBlockFile S1 \<and> db_fileinfo S' = (db_fileinfo S1)(nLastBlockFile S1 \<mapsto> ?info) \<and> (\<forall>f. prefix (blkFiles S1 f) (blkFiles S' f))"
    by (simp add: FindBlockPos_def l(1) Let_def WriteBlockFileInfo_def WriteLastBlockFile_def assms(3,4) extend_file_def)
  have "unat (fi_nSize (infoLastBlockFile S1)) \<le> 0x8000000" "unat nAddSize < 0x8000000"
    using l(3) assms(2) by (simp_all add: store_ok_def MAX_BLOCKFILE_SIZE_def word_le_nat_alt word_less_nat_alt)
  then have "unat (fi_nSize (infoLastBlockFile S1) + nAddSize) = unat (fi_nSize (infoLastBlockFile S1)) + unat nAddSize"
    by (intro unat_add_lem [THEN iffD1]) simp
  moreover have "store_ok S'" if "infoLastBlockFile S' = ?info" "db_fileinfo S' = (db_fileinfo S1)(nLastBlockFile S1 \<mapsto> ?info)" for S'
    using that l(2,3) by (auto simp: store_ok_def)
  moreover have "keeps_data S S'" if "\<forall>f. prefix (blkFiles S1 f) (blkFiles S' f)" for S'
    unfolding keeps_data_def using that l(6) [unfolded keeps_data_def] by (blast intro: prefix_order.trans)
  ultimately show ?thesis using l r by auto
qed

theorem FindBlockPos_returns_witness:
  "\<exists>pos S' info. FindBlockPos \<lparr>io_space = (\<lambda>_. True), io_open = True, io_db = True\<rparr> None 500 7 1400000000 CValidationState_init demo_store =
      Some (Inr ((True, CValidationState_init), pos, S')) \<and> store_ok S' \<and>
    0 \<le> pos_nFile pos \<and> pos_nFile pos = nLastBlockFile S' \<and> pos_nPos pos = file_size demo_store (pos_nFile pos) \<and> keeps_data demo_store S' \<and>
    db_fileinfo S' (pos_nFile pos) = Some info \<and> unat (fi_nSize info) = unat (pos_nPos pos) + 500 \<and> fi_nSize info < MAX_BLOCKFILE_SIZE"
proof -
  have "store_ok demo_store" "nLastBlockFile demo_store = 0" by (simp_all add: demo_store_def store_ok_def MAX_BLOCKFILE_SIZE_def)
  then show ?thesis
    using FindBlockPos_returns [of demo_store 500 "\<lparr>io_space = (\<lambda>_. True), io_open = True, io_db = True\<rparr>" 7 1400000000 CValidationState_init]
    by (simp add: MAX_BLOCKFILE_SIZE_def)
qed

end
