(* ===== verification/TxCoins.thy ===== *)
theory TxCoins
  imports Coins
begin

text \<open>
  A transaction against the coins it spends (\<^verbatim>\<open>src/src/main.cpp\<close> 479 to 491 and 1246 to 1404, \<^verbatim>\<open>CScriptCheck\<close> of
  \<^verbatim>\<open>src/src/main.h\<close>): the outputs its inputs refer to, the values and signature operations, the checks of its inputs and
  the update of the coins.  A query may fill the cache, so every function returns the view too.
\<close>

section \<open>Inputs\<close>

definition COINBASE_MATURITY :: int where "COINBASE_MATURITY = 3000"
definition MAX_BLOCK_SIGOPS :: nat where "MAX_BLOCK_SIGOPS = MAX_BLOCK_SIZE div 50"

definition GetLegacySigOpCount :: "CTransaction \<Rightarrow> nat" where
  "GetLegacySigOpCount tx =
     (let nSigOps = fold (\<lambda>txin n. (n + GetSigOpCount False (scriptSig txin)) mod 2 ^ 32) (vin tx) 0
      in fold (\<lambda>txout n. (n + GetSigOpCount False (scriptPubKey txout)) mod 2 ^ 32) (vout tx) nSigOps)"

definition GetOutputFor :: "'p curve \<Rightarrow> CTxIn \<Rightarrow> CCoinsView \<Rightarrow> (CTxOut \<times> CCoinsView) res" where
  "GetOutputFor E input view =
     rbind (view_GetCoins_ref E view (op_hash (prevout input))) (\<lambda>(coins, view).
     if IsAvailable coins (unat (op_n (prevout input))) then Inr (coins_vout coins ! unat (op_n (prevout input)), view)
     else Inl Assert_failed)"

fun value_in_loop :: "'p curve \<Rightarrow> CTxIn list \<Rightarrow> int \<Rightarrow> CCoinsView \<Rightarrow> (int \<times> CCoinsView) res" where
  "value_in_loop E [] nResult view = Inr (nResult, view)"
| "value_in_loop E (txin # ins) nResult view =
     rbind (GetOutputFor E txin view) (\<lambda>(out, view). value_in_loop E ins (wrap64 (nResult + nValue out)) view)"

definition GetValueIn :: "'p curve \<Rightarrow> CTransaction \<Rightarrow> CCoinsView \<Rightarrow> (int \<times> CCoinsView) res" where
  "GetValueIn E tx inputs = (if IsCoinBase tx then Inr (0, inputs) else value_in_loop E (vin tx) 0 inputs)"

fun p2sh_sigop_loop :: "'p curve \<Rightarrow> CTxIn list \<Rightarrow> nat \<Rightarrow> CCoinsView \<Rightarrow> (nat \<times> CCoinsView) res" where
  "p2sh_sigop_loop E [] nSigOps view = Inr (nSigOps, view)"
| "p2sh_sigop_loop E (txin # ins) nSigOps view =
     rbind (GetOutputFor E txin view) (\<lambda>(out, view).
     p2sh_sigop_loop E ins
       (if IsPayToScriptHash (scriptPubKey out) then (nSigOps + GetSigOpCount_P2SH (scriptPubKey out) (scriptSig txin)) mod 2 ^ 32
        else nSigOps) view)"

definition GetP2SHSigOpCount :: "'p curve \<Rightarrow> CTransaction \<Rightarrow> CCoinsView \<Rightarrow> (nat \<times> CCoinsView) res" where
  "GetP2SHSigOpCount E tx inputs = (if IsCoinBase tx then Inr (0, inputs) else p2sh_sigop_loop E (vin tx) 0 inputs)"

text \<open>\<^verbatim>\<open>Spend\<close> changes the coins through the reference that \<^verbatim>\<open>GetCoins\<close> returned.\<close>

fun spend_inputs :: "'p curve \<Rightarrow> CTxIn list \<Rightarrow> CTxUndo \<Rightarrow> CCoinsView \<Rightarrow> (CTxUndo \<times> CCoinsView) res" where
  "spend_inputs E [] txundo view = Inr (txundo, view)"
| "spend_inputs E (txin # ins) txundo view =
     rbind (view_GetCoins_ref E view (op_hash (prevout txin))) (\<lambda>(coins, view).
     case Spend (unat (op_n (prevout txin))) coins of
       None \<Rightarrow> Inl Assert_failed
     | Some (coins, undo) \<Rightarrow> spend_inputs E ins (txundo @ [undo]) (view_assign view (op_hash (prevout txin)) coins))"

definition UpdateCoins :: "'p curve \<Rightarrow> CTransaction \<Rightarrow> CCoinsView \<Rightarrow> CTxUndo \<Rightarrow> int \<Rightarrow> uint256 \<Rightarrow> (CTxUndo \<times> CCoinsView) res" where
  "UpdateCoins E tx inputs txundo nHeight txhash =
     rbind (if IsCoinBase tx then Inr (txundo, inputs) else spend_inputs E (vin tx) txundo inputs) (\<lambda>(txundo, inputs).
     rbind (view_SetCoins E inputs txhash (CCoins_of tx nHeight)) (\<lambda>(fOk, inputs).
     if fOk then Inr (txundo, inputs) else Inl Assert_failed))"

fun have_loop :: "'p curve \<Rightarrow> CTxIn list \<Rightarrow> CCoinsView \<Rightarrow> bool \<times> CCoinsView" where
  "have_loop E [] view = (True, view)"
| "have_loop E (txin # ins) view =
     (case view_HaveCoins E view (op_hash (prevout txin)) of (f, view) \<Rightarrow> if f then have_loop E ins view else (False, view))"

fun available_loop :: "'p curve \<Rightarrow> CTxIn list \<Rightarrow> CCoinsView \<Rightarrow> (bool \<times> CCoinsView) res" where
  "available_loop E [] view = Inr (True, view)"
| "available_loop E (txin # ins) view =
     rbind (view_GetCoins_ref E view (op_hash (prevout txin))) (\<lambda>(coins, view).
     if IsAvailable coins (unat (op_n (prevout txin))) then available_loop E ins view else Inr (False, view))"

definition HaveInputs :: "'p curve \<Rightarrow> CTransaction \<Rightarrow> CCoinsView \<Rightarrow> (bool \<times> CCoinsView) res" where
  "HaveInputs E tx inputs =
     (if IsCoinBase tx then Inr (True, inputs)
      else case have_loop E (vin tx) inputs of
        (f, inputs) \<Rightarrow> if f then available_loop E (vin tx) inputs else Inr (False, inputs))"

section \<open>Checks\<close>

record CScriptCheck =
  chk_scriptPubKey :: CScript
  ptxTo :: CTransaction
  chk_nIn :: nat
  chk_nFlags :: nat
  chk_nHashType :: int

definition CScriptCheck_of :: "CCoins \<Rightarrow> CTransaction \<Rightarrow> nat \<Rightarrow> nat \<Rightarrow> int \<Rightarrow> CScriptCheck" where
  "CScriptCheck_of txFromIn txToIn nInIn nFlagsIn nHashTypeIn =
     \<lparr>chk_scriptPubKey = scriptPubKey (coins_vout txFromIn ! unat (op_n (prevout (vin txToIn ! nInIn)))),
      ptxTo = txToIn, chk_nIn = nInIn, chk_nFlags = nFlagsIn, chk_nHashType = nHashTypeIn\<rparr>"

definition run_check :: "'p script_env \<Rightarrow> CScriptCheck \<Rightarrow> CSignatureCache \<Rightarrow> (bool \<times> CSignatureCache) res" where
  "run_check env chk c =
     VerifyScript env (scriptSig (vin (ptxTo chk) ! chk_nIn chk)) (chk_scriptPubKey chk) (ptxTo chk) (chk_nIn chk)
       (chk_nFlags chk) (chk_nHashType chk) c"

definition VerifySignature :: "'p script_env \<Rightarrow> CCoins \<Rightarrow> CTransaction \<Rightarrow> nat \<Rightarrow> nat \<Rightarrow> int \<Rightarrow> CSignatureCache \<Rightarrow>
    (bool \<times> CSignatureCache) res" where
  "VerifySignature env txFrom txTo nIn flags nHashType c = run_check env (CScriptCheck_of txFrom txTo nIn flags nHashType) c"

text \<open>
  The first loop of \<^verbatim>\<open>CheckInputs\<close>: maturity and values.  \<^verbatim>\<open>HaveInputs\<close> has found the outputs, so the
  index is in range.
\<close>

fun check_values :: "'p curve \<Rightarrow> int \<Rightarrow> CTxIn list \<Rightarrow> int \<Rightarrow> CValidationState \<Rightarrow> CCoinsView \<Rightarrow>
    ((bool \<times> CValidationState) \<times> int \<times> CCoinsView) res" where
  "check_values E nSpendHeight [] nValueIn state view = Inr ((True, state), nValueIn, view)"
| "check_values E nSpendHeight (txin # ins) nValueIn state view =
     rbind (view_GetCoins_ref E view (op_hash (prevout txin))) (\<lambda>(coins, view).
     if coins_fCoinBase coins \<and> nSpendHeight - coins_nHeight coins < COINBASE_MATURITY then Inr (Invalid False state, nValueIn, view)
     else let v = nValue (coins_vout coins ! unat (op_n (prevout txin))); nValueIn = wrap64 (nValueIn + v)
     in if \<not> MoneyRange v \<or> \<not> MoneyRange nValueIn then Inr (DoS 100 False False state, nValueIn, view)
        else check_values E nSpendHeight ins nValueIn state view)"

text \<open>The second loop: the scripts are run, or collected in \<^verbatim>\<open>pvChecks\<close>.\<close>

fun check_scripts :: "'p script_env \<Rightarrow> CTransaction \<Rightarrow> nat \<Rightarrow> nat \<Rightarrow> CTxIn list \<Rightarrow> CValidationState \<Rightarrow> CCoinsView \<Rightarrow>
    CScriptCheck list option \<Rightarrow> CSignatureCache \<Rightarrow>
    ((bool \<times> CValidationState) \<times> CCoinsView \<times> CScriptCheck list option \<times> CSignatureCache) res" where
  "check_scripts env tx flags i [] state view pvChecks c = Inr ((True, state), view, pvChecks, c)"
| "check_scripts env tx flags i (txin # ins) state view pvChecks c =
     rbind (view_GetCoins_ref (env_curve env) view (op_hash (prevout txin))) (\<lambda>(coins, view).
     let check = CScriptCheck_of coins tx i flags 0 in
     case pvChecks of
       Some checks \<Rightarrow> check_scripts env tx flags (i + 1) ins state view (Some (checks @ [check])) c
     | None \<Rightarrow>
       rbind (run_check env check c) (\<lambda>(fOk, c).
       if fOk then check_scripts env tx flags (i + 1) ins state view None c
       else if flags AND SCRIPT_VERIFY_STRICTENC \<noteq> 0 then
         rbind (run_check env (CScriptCheck_of coins tx i (unset_bit 1 flags) 0) c) (\<lambda>(fOk, c).
         Inr (if fOk then Invalid False state else DoS 100 False False state, view, None, c))
       else Inr (DoS 100 False False state, view, None, c)))"

text \<open>
  \<^verbatim>\<open>CheckInputs\<close>.  \<open>height\<close> gives the height of the block of a hash in \<^verbatim>\<open>mapBlockIndex\<close>; without a best block the null
  pointer is dereferenced, which ends the process.  The fee options are arguments.
\<close>

definition CheckInputs :: "'p script_env \<Rightarrow> (uint256 \<rightharpoonup> int) \<Rightarrow> int \<Rightarrow> int \<Rightarrow> CTransaction \<Rightarrow> CValidationState \<Rightarrow> CCoinsView \<Rightarrow> nat \<Rightarrow>
    CScriptCheck list option \<Rightarrow> CSignatureCache \<Rightarrow>
    ((bool \<times> CValidationState) \<times> CCoinsView \<times> CScriptCheck list option \<times> CSignatureCache) res" where
  "CheckInputs env height nMinTxFee nMinRelayTxFee tx state inputs flags pvChecks c =
     (if IsCoinBase tx then Inr ((True, state), inputs, pvChecks, c)
      else rbind (HaveInputs (env_curve env) tx inputs) (\<lambda>(fHave, inputs).
      if \<not> fHave then Inr (Invalid False state, inputs, pvChecks, c)
      else case view_GetBestBlock (\<lambda>h. height h \<noteq> None) inputs of (best, inputs) \<Rightarrow>
      (case Option.bind best height of
         None \<Rightarrow> Inl Assert_failed
       | Some nBest \<Rightarrow>
         rbind (check_values (env_curve env) (nBest + 1) (vin tx) 0 state inputs) (\<lambda>((fOk, state), nValueIn, inputs).
         if \<not> fOk then Inr ((False, state), inputs, pvChecks, c)
         else rbind (GetValueOut tx) (\<lambda>nValueOut.
         if nValueIn < nValueOut then Inr (DoS 100 False False state, inputs, pvChecks, c)
         else let nTxFee = wrap64 (nValueIn - nValueOut) in
         if nTxFee < 0 then Inr (DoS 100 False False state, inputs, pvChecks, c)
         else if nTxFee < GetMinFee nMinTxFee nMinRelayTxFee tx 1 False GMF_BLOCK then Inr (DoS 100 False False state, inputs, pvChecks, c)
         else if \<not> MoneyRange nTxFee then Inr (DoS 100 False False state, inputs, pvChecks, c)
         else check_scripts env tx flags 0 (vin tx) state inputs pvChecks c)))))"

section \<open>Reference definitions\<close>

definition txin_coins :: "'p curve \<Rightarrow> CCoinsView \<Rightarrow> CTxIn \<Rightarrow> CCoins option" where
  "txin_coins E v txin = view_coins E v (op_hash (prevout txin))"

definition txin_available :: "'p curve \<Rightarrow> CCoinsView \<Rightarrow> CTxIn \<Rightarrow> bool" where
  "txin_available E v txin \<longleftrightarrow> (case txin_coins E v txin of None \<Rightarrow> False | Some c \<Rightarrow> IsAvailable c (unat (op_n (prevout txin))))"

definition txin_out :: "'p curve \<Rightarrow> CCoinsView \<Rightarrow> CTxIn \<Rightarrow> CTxOut" where
  "txin_out E v txin = coins_vout (the (txin_coins E v txin)) ! unat (op_n (prevout txin))"

definition mature :: "'p curve \<Rightarrow> CCoinsView \<Rightarrow> int \<Rightarrow> CTxIn \<Rightarrow> bool" where
  "mature E v nSpendHeight txin \<longleftrightarrow>
     \<not> (coins_fCoinBase (the (txin_coins E v txin)) \<and> nSpendHeight - coins_nHeight (the (txin_coins E v txin)) < COINBASE_MATURITY)"

text \<open>The check of the script of input \<open>i\<close>.\<close>

definition input_check :: "'p curve \<Rightarrow> CCoinsView \<Rightarrow> CTransaction \<Rightarrow> nat \<Rightarrow> nat \<Rightarrow> CScriptCheck" where
  "input_check E v tx flags i = CScriptCheck_of (the (txin_coins E v (vin tx ! i))) tx i flags 0"

text \<open>A cache that shows the same coins and the same best block; \<open>known\<close> are the blocks in \<^verbatim>\<open>mapBlockIndex\<close>.\<close>

definition same_coins :: "'p curve \<Rightarrow> (uint256 \<Rightarrow> bool) \<Rightarrow> CCoinsView \<Rightarrow> CCoinsView \<Rightarrow> bool" where
  "same_coins E known v v' \<longleftrightarrow> is_cache v' \<and> view_coins E v' = view_coins E v \<and>
     fst (view_GetBestBlock known v') = fst (view_GetBestBlock known v)"

definition demo_env :: "nat script_env" where
  "demo_env = \<lparr>env_digests = toy_digests, env_curve = toy_curve, env_rand = (\<lambda>_. 0), env_maxsigcache = 0\<rparr>"

text \<open>An output that anyone can spend, and a transaction that spends it.\<close>

definition demo_prev :: CCoins where
  "demo_prev = \<lparr>coins_fCoinBase = False, coins_vout = [\<lparr>nValue = 5000000, scriptPubKey = [0x51]\<rparr>], coins_nHeight = 1, coins_nVersion = 1\<rparr>"

definition demo_spend :: CTransaction where
  "demo_spend = \<lparr>tx_nVersion = 1, vin = [\<lparr>prevout = \<lparr>op_hash = 1, op_n = 0\<rparr>, scriptSig = [], nSequence = 0\<rparr>],
     vout = [\<lparr>nValue = 3000000, scriptPubKey = [0x51]\<rparr>], nLockTime = 0\<rparr>"

definition demo_view :: CCoinsView where
  "demo_view = CCoinsViewCache [1 \<mapsto> demo_prev] (Some 7) CCoinsViewNull"

section \<open>Lemmas\<close>

lemma same_coins_refl: "is_cache v \<Longrightarrow> same_coins E k v v"
  by (simp add: same_coins_def)

lemma same_coins_trans: "same_coins E k u v \<Longrightarrow> same_coins E k v w \<Longrightarrow> same_coins E k u w"
  by (simp add: same_coins_def)

lemma same_coins_cache: "same_coins E k v v' \<Longrightarrow> is_cache v'"
  by (simp add: same_coins_def)

lemma same_coins_txin:
  assumes "same_coins E k v v'"
  shows "txin_coins E v' = txin_coins E v" "txin_available E v' = txin_available E v" "txin_out E v' = txin_out E v"
    "mature E v' = mature E v" "input_check E v' = input_check E v"
  using assms by (simp_all add: same_coins_def txin_coins_def txin_available_def txin_out_def mature_def input_check_def fun_eq_iff)

lemma GetCoins_best: "fst (view_GetBestBlock k (snd (view_GetCoins E v t))) = fst (view_GetBestBlock k v)"
proof (induction v)
  case (CCoinsViewCache m p base)
  then show ?case by (cases p) (auto split: option.splits prod.splits)
next
  case (CCoinsViewMemPool m base)
  then show ?case by (auto split: prod.splits)
qed simp_all

lemma GetCoins_same: "is_cache v \<Longrightarrow> \<exists>v'. view_GetCoins E v t = (view_coins E v t, v') \<and> same_coins E k v v'"
  using cache.get_eq [of v E t] GetCoins_best [of k E v t] by (auto simp: same_coins_def)

lemma HaveCoins_same: "is_cache v \<Longrightarrow> \<exists>v'. view_HaveCoins E v t = (view_coins E v t \<noteq> None, v') \<and> same_coins E k v v'"
  using GetCoins_same [of v E t k] by (auto simp: HaveCoins_cache)

lemma ref_Some:
  assumes "is_cache v" "view_coins E v t = Some c"
  shows "\<exists>v'. view_GetCoins_ref E v t = Inr (c, v') \<and> same_coins E k v v'"
  using GetCoins_same [OF assms(1), of E t k] assms(2) by (auto simp: view_GetCoins_ref_def)

lemma ref_elim:
  assumes "view_GetCoins_ref E v t = Inr (c, v')" "is_cache v"
  shows "view_coins E v t = Some c" "same_coins E k v v'"
  using GetCoins_same [OF assms(2), of E t k] assms(1)
  by (auto simp: view_GetCoins_ref_def split: option.splits)

lemma GetBestBlock_keeps: "view_coins E (snd (view_GetBestBlock k v)) = view_coins E v"
proof (induction v)
  case (CCoinsViewCache m p base)
  then show ?case by (auto simp: view_coins_simps fun_eq_iff split: option.splits prod.splits)
next
  case (CCoinsViewMemPool m base)
  then show ?case by (auto simp: view_coins_simps fun_eq_iff split: prod.splits)
qed simp_all

lemma GetBestBlock_again: "fst (view_GetBestBlock k (snd (view_GetBestBlock k v))) = fst (view_GetBestBlock k v)"
proof (induction v)
  case (CCoinsViewCache m p base)
  then show ?case by (auto split: option.splits prod.splits)
next
  case (CCoinsViewMemPool m base)
  then show ?case by (auto split: prod.splits)
qed simp_all

lemma GetBestBlock_same: "is_cache v \<Longrightarrow> same_coins E k v (snd (view_GetBestBlock k v))"
  unfolding same_coins_def GetBestBlock_keeps GetBestBlock_again by (cases v) (auto split: option.splits prod.splits)

lemma GetOutputFor_spec:
  assumes "is_cache v" "txin_available E v txin"
  shows "\<exists>v'. GetOutputFor E txin v = Inr (txin_out E v txin, v') \<and> same_coins E k v v'"
proof -
  obtain c where c: "view_coins E v (op_hash (prevout txin)) = Some c" "IsAvailable c (unat (op_n (prevout txin)))"
    using assms(2) by (auto simp: txin_available_def txin_coins_def split: option.splits)
  then show ?thesis
    using ref_Some [OF assms(1) c(1), of k] by (auto simp: GetOutputFor_def txin_out_def txin_coins_def)
qed

lemma have_loop_spec:
  assumes "is_cache v"
  shows "\<exists>v'. have_loop E ins v = (\<forall>txin\<in>set ins. txin_coins E v txin \<noteq> None, v') \<and> same_coins E k v v'"
  using assms
proof (induction ins arbitrary: v)
  case (Cons txin ins)
  obtain v1 where v1: "view_HaveCoins E v (op_hash (prevout txin)) = (txin_coins E v txin \<noteq> None, v1)" "same_coins E k v v1"
    using HaveCoins_same [OF Cons.prems, of E "op_hash (prevout txin)" k] by (auto simp: txin_coins_def)
  show ?case
  proof (cases "txin_coins E v txin \<noteq> None")
    case True
    then show ?thesis
      using Cons.IH [OF same_coins_cache [OF v1(2)]] v1 same_coins_trans [OF v1(2)] by (auto simp: same_coins_txin [OF v1(2)])
  next
    case False
    then show ?thesis using v1 by auto
  qed
qed (simp add: same_coins_refl)

lemma available_loop_spec:
  assumes "is_cache v" "\<forall>txin\<in>set ins. txin_coins E v txin \<noteq> None"
  shows "\<exists>v'. available_loop E ins v = Inr (\<forall>txin\<in>set ins. txin_available E v txin, v') \<and> same_coins E k v v'"
  using assms
proof (induction ins arbitrary: v)
  case (Cons txin ins)
  obtain c where c: "view_coins E v (op_hash (prevout txin)) = Some c" using Cons.prems(2) by (auto simp: txin_coins_def)
  obtain v1 where v1: "view_GetCoins_ref E v (op_hash (prevout txin)) = Inr (c, v1)" "same_coins E k v v1"
    using ref_Some [OF Cons.prems(1) c, of k] by (elim exE conjE) (rule that)
  have a: "txin_available E v txin \<longleftrightarrow> IsAvailable c (unat (op_n (prevout txin)))"
    using c by (simp add: txin_available_def txin_coins_def)
  have "\<forall>txin\<in>set ins. txin_coins E v1 txin \<noteq> None" using Cons.prems(2) by (simp add: same_coins_txin [OF v1(2)])
  from Cons.IH [OF same_coins_cache [OF v1(2)] this] obtain v2 where
    v2: "available_loop E ins v1 = Inr (\<forall>txin\<in>set ins. txin_available E v txin, v2)" "same_coins E k v1 v2"
    by (auto simp: same_coins_txin [OF v1(2)])
  show ?case
    using v1 v2 a same_coins_trans [OF v1(2) v2(2)] by (cases "txin_available E v txin") auto
qed (simp add: same_coins_refl)

lemma HaveInputs_spec:
  assumes "is_cache v"
  shows "\<exists>v'. HaveInputs E tx v = Inr (IsCoinBase tx \<or> (\<forall>txin\<in>set (vin tx). txin_available E v txin), v') \<and> same_coins E k v v'"
proof (cases "IsCoinBase tx")
  case False
  obtain v1 where v1: "have_loop E (vin tx) v = (\<forall>txin\<in>set (vin tx). txin_coins E v txin \<noteq> None, v1)" "same_coins E k v v1"
    using have_loop_spec [OF assms, of E "vin tx" k] by (elim exE conjE) (rule that)
  show ?thesis
  proof (cases "\<forall>txin\<in>set (vin tx). txin_coins E v txin \<noteq> None")
    case True
    then have "\<forall>txin\<in>set (vin tx). txin_coins E v1 txin \<noteq> None" by (simp add: same_coins_txin [OF v1(2)])
    from available_loop_spec [OF same_coins_cache [OF v1(2)] this] obtain v2 where
      "available_loop E (vin tx) v1 = Inr (\<forall>txin\<in>set (vin tx). txin_available E v txin, v2)" "same_coins E k v1 v2"
      by (auto simp: same_coins_txin [OF v1(2)])
    then show ?thesis using v1 True False same_coins_trans [OF v1(2)] by (auto simp: HaveInputs_def)
  next
    case bad: False
    then obtain txin where "txin \<in> set (vin tx)" "\<not> txin_available E v txin" by (auto simp: txin_available_def)
    then have "\<not> (\<forall>txin\<in>set (vin tx). txin_available E v txin)" by blast
    then show ?thesis using v1 bad False by (auto simp: HaveInputs_def)
  qed
qed (simp add: HaveInputs_def same_coins_refl assms)

lemma check_values_sound:
  assumes "check_values E H ins a st v = Inr ((True, st'), r, v')" "is_cache v" "MoneyRange a"
  shows "same_coins E k v v' \<and> st' = st \<and> MoneyRange r \<and> r = a + sum_list (map (\<lambda>i. nValue (txin_out E v i)) ins) \<and>
    (\<forall>txin\<in>set ins. mature E v H txin)"
  using assms
proof (induction ins arbitrary: a v)
  case Nil
  then show ?case by (simp add: same_coins_refl)
next
  case (Cons txin ins)
  obtain coins v1 where g: "view_GetCoins_ref E v (op_hash (prevout txin)) = Inr (coins, v1)"
    using Cons.prems(1) by (auto simp: rbind_Inr_iff)
  note c = ref_elim(1) [OF g Cons.prems(2)] ref_elim(2) [OF g Cons.prems(2), of k]
  have the: "the (txin_coins E v txin) = coins" using c(1) by (simp add: txin_coins_def)
  let ?x = "nValue (txin_out E v txin)"
  have x: "nValue (coins_vout coins ! unat (op_n (prevout txin))) = ?x" by (simp add: txin_out_def the)
  have m: "mature E v H txin" "MoneyRange ?x" "MoneyRange (wrap64 (a + ?x))"
    and rest: "check_values E H ins (wrap64 (a + ?x)) st v1 = Inr ((True, st'), r, v')"
    using Cons.prems(1) g x by (auto simp: mature_def the Let_def Invalid_def DoS_def split: if_splits)
  have "wrap64 (a + ?x) = a + ?x" using Cons.prems(3) m(2) by (intro wrap64_id) (auto simp: MoneyRange_def MAX_MONEY_eq)
  then show ?case
    using Cons.IH [OF rest same_coins_cache [OF c(2)] m(3)] m(1) same_coins_trans [OF c(2)] same_coins_txin [OF c(2)] by auto
qed

lemma drop_eq_Cons: "x # xs = drop i ys \<Longrightarrow> i < length ys \<and> ys ! i = x \<and> xs = drop (i + 1) ys"
  by (metis Cons_nth_drop_Suc Suc_eq_plus1 drop_all leI list.distinct(1) list.inject)

lemma check_scripts_sound:
  assumes "check_scripts env tx flags i ins st v pv c = Inr ((True, st'), v', pv', c')" "is_cache v" "ins = drop i (vin tx)"
  shows "same_coins (env_curve env) k v v' \<and> st' = st \<and> (case pv of
      None \<Rightarrow> pv' = None \<and> (\<forall>j. i \<le> j \<and> j < length (vin tx) \<longrightarrow> (\<exists>d d'. run_check env (input_check (env_curve env) v tx flags j) d = Inr (True, d')))
    | Some cs \<Rightarrow> pv' = Some (cs @ map (input_check (env_curve env) v tx flags) [i..<length (vin tx)]))"
  using assms
proof (induction ins arbitrary: i v pv c)
  case Nil
  then show ?case by (auto simp: same_coins_refl split: option.split)
next
  case (Cons txin ins)
  let ?E = "env_curve env"
  have i: "i < length (vin tx)" "vin tx ! i = txin" "ins = drop (i + 1) (vin tx)"
    using Cons.prems(3) drop_eq_Cons [of txin ins i "vin tx"] by simp_all
  obtain coins v1 where g: "view_GetCoins_ref ?E v (op_hash (prevout txin)) = Inr (coins, v1)"
    using Cons.prems(1) by (auto simp: rbind_Inr_iff)
  note co = ref_elim(1) [OF g Cons.prems(2)] ref_elim(2) [OF g Cons.prems(2), of k]
  have chk: "CScriptCheck_of coins tx i flags 0 = input_check ?E v tx flags i"
    using co(1) i(2) by (simp add: input_check_def txin_coins_def)
  note same = same_coins_txin [OF co(2)] and cache = same_coins_cache [OF co(2)] and tr = same_coins_trans [OF co(2)]
  have up: "[i..<length (vin tx)] = i # [i + 1..<length (vin tx)]" using i(1) by (simp add: upt_conv_Cons)
  show ?case
  proof (cases pv)
    case (Some cs)
    then have "check_scripts env tx flags (i + 1) ins st v1 (Some (cs @ [input_check ?E v tx flags i])) c = Inr ((True, st'), v', pv', c')"
      using Cons.prems(1) g chk by simp
    from Cons.IH [OF this cache i(3)] show ?thesis using Some tr by (simp add: same up)
  next
    case None
    then obtain c1 where r: "run_check env (input_check ?E v tx flags i) c = Inr (True, c1)"
      and rest: "check_scripts env tx flags (i + 1) ins st v1 None c1 = Inr ((True, st'), v', pv', c')"
      using Cons.prems(1) g chk by (auto simp: rbind_Inr_iff Let_def Invalid_def DoS_def split: if_splits)
    have "\<exists>d d'. run_check env (input_check ?E v tx flags j) d = Inr (True, d')" if "j = i" for j using r that by blast
    then show ?thesis using Cons.IH [OF rest cache i(3)] None tr
      by (simp add: same) (metis Suc_leI le_neq_implies_less)
  qed
qed

lemma value_out_loop_Inr:
  assumes "value_out_loop outs a = Inr r" "MoneyRange a"
  shows "MoneyRange r \<and> r = a + sum_list (map nValue outs)"
  using assms
proof (induction outs arbitrary: a)
  case (Cons out outs)
  have m: "MoneyRange (nValue out)" "MoneyRange (wrap64 (a + nValue out))" "value_out_loop outs (wrap64 (a + nValue out)) = Inr r"
    using Cons.prems(1) by (auto simp: Let_def split: if_splits)
  have "wrap64 (a + nValue out) = a + nValue out"
    using Cons.prems(2) m(1) by (intro wrap64_id) (auto simp: MoneyRange_def MAX_MONEY_eq)
  then show ?case using Cons.IH [OF m(3,2)] by auto
qed simp

text \<open>The steps of an accepting run.\<close>

lemma CheckInputs_steps:
  assumes "CheckInputs env height fee rfee tx st v flags pv c = Inr ((True, st'), v', pv', c')" "\<not> IsCoinBase tx"
  shows "\<exists>v1 bh v2 nBest st1 nIn v3 nOut. HaveInputs (env_curve env) tx v = Inr (True, v1) \<and>
    view_GetBestBlock (\<lambda>h. height h \<noteq> None) v1 = (Some bh, v2) \<and> height bh = Some nBest \<and>
    check_values (env_curve env) (nBest + 1) (vin tx) 0 st v2 = Inr ((True, st1), nIn, v3) \<and> GetValueOut tx = Inr nOut \<and>
    nOut \<le> nIn \<and> GetMinFee fee rfee tx 1 False GMF_BLOCK \<le> wrap64 (nIn - nOut) \<and>
    check_scripts env tx flags 0 (vin tx) st1 v3 pv c = Inr ((True, st'), v', pv', c')"
proof -
  obtain v1 where h: "HaveInputs (env_curve env) tx v = Inr (True, v1)"
    using assms by (auto simp: CheckInputs_def rbind_Inr_iff Invalid_def DoS_def split: if_splits)
  obtain best v2 where b: "view_GetBestBlock (\<lambda>h. height h \<noteq> None) v1 = (best, v2)" by fastforce
  obtain bh nBest where bh: "best = Some bh" "height bh = Some nBest"
    using assms h b by (cases best) (auto simp: CheckInputs_def split: option.splits)
  obtain st1 nIn v3 where cv: "check_values (env_curve env) (nBest + 1) (vin tx) 0 st v2 = Inr ((True, st1), nIn, v3)"
    using assms h b bh by (auto simp: CheckInputs_def rbind_Inr_iff split: if_splits)
  obtain nOut where o: "GetValueOut tx = Inr nOut"
    using assms h b bh cv by (auto simp: CheckInputs_def rbind_Inr_iff)
  have "nOut \<le> nIn \<and> GetMinFee fee rfee tx 1 False GMF_BLOCK \<le> wrap64 (nIn - nOut) \<and>
      check_scripts env tx flags 0 (vin tx) st1 v3 pv c = Inr ((True, st'), v', pv', c')"
    using assms h b bh cv o by (auto simp: CheckInputs_def DoS_def Let_def split: if_splits)
  then show ?thesis using h b bh cv o by (intro exI conjI) auto
qed

lemma demo_check: "run_check demo_env (CScriptCheck_of demo_prev demo_spend 0 0 0) no_cache = Inr (True, no_cache)"
  by code_simp

lemma demo_size: "tx_size demo_spend = 61"
  by (simp add: tx_size_def ser_tx_def demo_spend_def Serialize_vector_def ser_txin_def ser_txout_def ser_outpoint_def Serialize_bytes_def
      write_le_def length_WriteCompactSize GetSizeOfCompactSize_def)

lemma demo_fee: "GetMinFee CENT CENT demo_spend 1 False GMF_BLOCK = 1000000"
  by (simp add: GetMinFee_def demo_size CENT_def MoneyRange_def MAX_MONEY_eq wrap64_id)

lemma demo_simps:
  "is_cache demo_view" "\<not> IsCoinBase demo_spend" "env_curve demo_env = toy_curve" "length (vin demo_spend) = 1" "length (vout demo_spend) = 1"
  by (simp_all add: demo_view_def demo_spend_def demo_env_def IsCoinBase_def COutPoint_IsNull_def)

lemma GetBestBlock_demo: "view_GetBestBlock k demo_view = (Some 7, demo_view)"
  by (simp add: demo_view_def)

lemma demo_vin: "vin demo_spend = [\<lparr>prevout = \<lparr>op_hash = 1, op_n = 0\<rparr>, scriptSig = [], nSequence = 0\<rparr>]"
  "vout demo_spend = [\<lparr>nValue = 3000000, scriptPubKey = [0x51]\<rparr>]"
  by (simp_all add: demo_spend_def)

lemma demo_accepts:
  "CheckInputs demo_env [7 \<mapsto> 10] CENT CENT demo_spend CValidationState_init demo_view 0 None no_cache
     = Inr ((True, CValidationState_init), demo_view, None, no_cache)"
proof -
  have g: "view_GetCoins_ref toy_curve demo_view 1 = Inr (demo_prev, demo_view)"
    by (simp add: view_GetCoins_ref_def demo_view_def)
  have h: "view_HaveCoins toy_curve demo_view 1 = (True, demo_view)" by (simp add: demo_view_def)
  have "IsAvailable demo_prev 0" "nValue (coins_vout demo_prev ! 0) = 5000000" "\<not> coins_fCoinBase demo_prev"
    by (simp_all add: demo_prev_def IsAvailable_def out_avail_def CTxOut_IsNull_def)
  moreover have "GetValueOut demo_spend = Inr 3000000"
    by (simp add: demo_vin GetValueOut_def MoneyRange_def MAX_MONEY_eq wrap64_id)
  ultimately show ?thesis
    by (simp add: CheckInputs_def demo_simps demo_vin HaveInputs_def g h GetBestBlock_demo demo_fee [simplified] demo_check wrap64_id MoneyRange_def MAX_MONEY_eq)
qed

section \<open>Properties\<close>

text \<open>
  C38. No money from nothing.  When \<^verbatim>\<open>CheckInputs\<close> accepts a transaction that is not a coinbase, every input refers to an output
  that is unspent in the view, coinbase outputs among them are mature in the block after the best one, the values
  of the inputs, added without overflow, cover the values of the outputs and the minimum fee, and the
  script of every input has been run and accepted or is in the list of checks to run.  The view shows the same
  coins as before.
\<close>

theorem CheckInputs_sound:
  assumes "CheckInputs env height fee rfee tx st v flags pv c = Inr ((True, st'), v', pv', c')" "is_cache v" "\<not> IsCoinBase tx"
  shows "\<exists>best nBest. fst (view_GetBestBlock (\<lambda>h. height h \<noteq> None) v) = Some best \<and> height best = Some nBest \<and>
    (\<forall>txin\<in>set (vin tx). txin_available (env_curve env) v txin \<and> mature (env_curve env) v (nBest + 1) txin) \<and>
    sum_list (map nValue (vout tx)) + GetMinFee fee rfee tx 1 False GMF_BLOCK
      \<le> sum_list (map (\<lambda>txin. nValue (txin_out (env_curve env) v txin)) (vin tx)) \<and>
    (case pv of
       None \<Rightarrow> \<forall>i<length (vin tx). \<exists>d d'. run_check env (input_check (env_curve env) v tx flags i) d = Inr (True, d')
     | Some checks \<Rightarrow> pv' = Some (checks @ map (input_check (env_curve env) v tx flags) [0..<length (vin tx)])) \<and>
    st' = st \<and> is_cache v' \<and> view_coins (env_curve env) v' = view_coins (env_curve env) v"
proof -
  let ?E = "env_curve env" and ?k = "\<lambda>h. height h \<noteq> None"
  from CheckInputs_steps [OF assms(1,3)] obtain v1 bh v2 nBest st1 nIn v3 nOut where
    hv: "HaveInputs ?E tx v = Inr (True, v1)" and b: "view_GetBestBlock ?k v1 = (Some bh, v2)" "height bh = Some nBest"
    and cv: "check_values ?E (nBest + 1) (vin tx) 0 st v2 = Inr ((True, st1), nIn, v3)"
    and o: "GetValueOut tx = Inr nOut" and fee: "nOut \<le> nIn" "GetMinFee fee rfee tx 1 False GMF_BLOCK \<le> wrap64 (nIn - nOut)"
    and cs: "check_scripts env tx flags 0 (vin tx) st1 v3 pv c = Inr ((True, st'), v', pv', c')"
    by (elim exE conjE) (rule that)
  have v1: "\<forall>txin\<in>set (vin tx). txin_available ?E v txin" "same_coins ?E ?k v v1"
    using HaveInputs_spec [OF assms(2), of ?E tx ?k] assms(3) hv by auto
  have v2: "same_coins ?E ?k v1 v2" "fst (view_GetBestBlock ?k v) = Some bh"
    using GetBestBlock_same [OF same_coins_cache [OF v1(2)], of ?E ?k] v1(2) b(1) by (simp_all add: same_coins_def)
  have M0: "MoneyRange 0" by (simp add: MoneyRange_def MAX_MONEY_eq)
  note c2 = same_coins_trans [OF v1(2) v2(1)]
  note cvs = check_values_sound [OF cv same_coins_cache [OF c2] M0, of ?k]
  have v3: "same_coins ?E ?k v v3" using cvs same_coins_trans [OF c2] by blast
  note os = value_out_loop_Inr [OF o [unfolded GetValueOut_def] M0]
  have "wrap64 (nIn - nOut) = nIn - nOut" using os cvs by (intro wrap64_id) (auto simp: MoneyRange_def MAX_MONEY_eq)
  then have "sum_list (map nValue (vout tx)) + GetMinFee fee rfee tx 1 False GMF_BLOCK
      \<le> sum_list (map (\<lambda>txin. nValue (txin_out ?E v txin)) (vin tx))"
    using fee os cvs by (simp add: same_coins_txin [OF c2])
  then show ?thesis
    using b(2) v2(2) v1(1) cvs check_scripts_sound [OF cs same_coins_cache [OF v3], of ?k] same_coins_trans [OF v3]
    by (cases pv) (auto simp: same_coins_txin [OF c2] same_coins_txin [OF v3] same_coins_def)
qed

theorem CheckInputs_sound_witness:
  "txin_available toy_curve demo_view (vin demo_spend ! 0) \<and> mature toy_curve demo_view 11 (vin demo_spend ! 0) \<and>
   nValue (vout demo_spend ! 0) + GetMinFee CENT CENT demo_spend 1 False GMF_BLOCK \<le> nValue (txin_out toy_curve demo_view (vin demo_spend ! 0)) \<and>
   (\<exists>d d'. run_check demo_env (input_check toy_curve demo_view demo_spend 0 0) d = Inr (True, d'))"
proof -
  from CheckInputs_sound [OF demo_accepts demo_simps(1,2)] obtain best nBest where
    b: "fst (view_GetBestBlock (\<lambda>h. [7 \<mapsto> (10::int)] h \<noteq> None) demo_view) = Some best" "[7 \<mapsto> 10] best = Some nBest"
    and i: "\<forall>txin\<in>set (vin demo_spend). txin_available (env_curve demo_env) demo_view txin \<and> mature (env_curve demo_env) demo_view (nBest + 1) txin"
    and m: "sum_list (map nValue (vout demo_spend)) + GetMinFee CENT CENT demo_spend 1 False GMF_BLOCK
      \<le> sum_list (map (\<lambda>txin. nValue (txin_out (env_curve demo_env) demo_view txin)) (vin demo_spend))"
    and r: "\<forall>i<length (vin demo_spend). \<exists>d d'. run_check demo_env (input_check (env_curve demo_env) demo_view demo_spend 0 i) d = Inr (True, d')"
    unfolding option.case by (elim exE conjE) (rule that)
  have "nBest + 1 = 11" using b by (simp add: GetBestBlock_demo)
  moreover have "0 < length (vin demo_spend)" by (simp add: demo_simps)
  ultimately show ?thesis using i m r [rule_format, of 0] unfolding demo_simps(3) by (simp add: demo_vin)
qed

end
