(* ===== verification/Connect.thy ===== *)
theory Connect
  imports BlockStore TxCoins
begin

text \<open>
  Blocks against the coins: \<^verbatim>\<open>CheckBlock\<close>, \<^verbatim>\<open>ConnectBlock\<close> and \<^verbatim>\<open>DisconnectBlock\<close> (\<^verbatim>\<open>src/src/main.cpp\<close> 1409 to 1494, 1528 to 1694 and
  2024 to 2097).  The record \<open>connect_env\<close> holds the options and the environment.  The queue of script
  checks is the list of the checks handed to it; waiting for it runs them all.  The
  notifications of wallets are left out.
\<close>

section \<open>Context-free checks\<close>

record 'p connect_env =
  ce_script :: "'p script_env"
  ce_mpi :: bn_mpi
  ce_target :: target_params
  ce_io :: io_env
  ce_magic :: "byte list"
  ce_genesis :: uint256
  ce_adjustedTime :: int
  ce_nMinTxFee :: int
  ce_nMinRelayTxFee :: int
  ce_threads :: bool
  ce_fTxIndex :: bool

definition MIN_TX_FEE :: int where "MIN_TX_FEE = CENT"

text \<open>The transaction ids that a block mentions: those of its transactions and of the inputs of all but the first.\<close>

definition block_txids :: "digests \<Rightarrow> CTransaction list \<Rightarrow> uint256 set" where
  "block_txids D txs = tx_hash (Hash D) ` set txs \<union> (\<Union>tx\<in>set (tl txs). (\<lambda>txin. op_hash (prevout txin)) ` set (vin tx))"

fun check_txs :: "CTransaction list \<Rightarrow> CValidationState \<Rightarrow> bool \<times> CValidationState" where
  "check_txs [] state = (True, state)"
| "check_txs (tx # txs) state = (let (ok, state) = CheckTransaction tx state in if ok then check_txs txs state else (False, state))"

definition CheckBlock :: "'p connect_env \<Rightarrow> bool \<Rightarrow> CBlock \<Rightarrow> CValidationState \<Rightarrow> (bool \<times> CValidationState) \<times> CBlock" where
  "CheckBlock cfg fCheckMerkleRoot b state =
     (let D = env_digests (ce_script cfg) in
      if vtx b = [] \<or> length (vtx b) > MAX_BLOCK_SIZE \<or> length (ser_block (ce_mpi cfg) b) mod 2 ^ 32 > MAX_BLOCK_SIZE
      then (DoS 100 False False state, b)
      else if GetBlockTime b \<ge> 1363867200 \<and> GetBlockTime b < 1368576000 \<and> card (block_txids D (vtx b)) > 4500
      then ((False, state), b)
      else if GetBlockTime b > ce_adjustedTime cfg + 2 * 60 * 60 then (Invalid False state, b)
      else if vtx b = [] \<or> \<not> IsCoinBase (hd (vtx b)) then (DoS 100 False False state, b)
      else if list_ex IsCoinBase (tl (vtx b)) then (DoS 100 False False state, b)
      else let (ok, state) = check_txs (vtx b) state in
      if \<not> ok then ((False, state), b)
      else let b = snd (BuildMerkleTree D b) in
      if card (set (take (length (vtx b)) (vMerkleTree b))) \<noteq> length (vtx b) then (DoS 100 False True state, b)
      else if fold (\<lambda>tx n. (n + GetLegacySigOpCount tx) mod 2 ^ 32) (vtx b) 0 > MAX_BLOCK_SIGOPS then (DoS 100 False False state, b)
      else if fCheckMerkleRoot \<and> hashMerkleRoot b \<noteq> fst (BuildMerkleTree D b) then (DoS 100 False False state, b)
      else ((True, state), b))"

section \<open>Connecting a block\<close>

text \<open>The variables of the loop over the transactions.\<close>

record connect_vars =
  cv_nFees :: int
  cv_nValueIn :: int
  cv_nValueOut :: int
  cv_nSigOps :: nat
  cv_pos :: CDiskTxPos
  cv_vPos :: "(uint256 \<times> CDiskTxPos) list"
  cv_blockundo :: CBlockUndo
  cv_checks :: "CScriptCheck list"
  cv_view :: CCoinsView
  cv_cache :: CSignatureCache

text \<open>No transaction of the block may overwrite one that is not completely spent.\<close>

fun overwrite_loop :: "'p curve \<Rightarrow> uint256 list \<Rightarrow> CCoinsView \<Rightarrow> (bool \<times> CCoinsView) res" where
  "overwrite_loop E [] view = Inr (False, view)"
| "overwrite_loop E (hash # hs) view =
     (case view_HaveCoins E view hash of (fHave, view) \<Rightarrow>
      if fHave then rbind (view_GetCoins_ref E view hash) (\<lambda>(coins, view).
        if \<not> IsPruned coins then Inr (True, view) else overwrite_loop E hs view)
      else overwrite_loop E hs view)"

text \<open>The part of the loop body for a transaction that is not a coinbase, up to \<^verbatim>\<open>control.Add\<close>.\<close>

definition connect_inputs :: "'p connect_env \<Rightarrow> (uint256 \<rightharpoonup> int) \<Rightarrow> bool \<Rightarrow> nat \<Rightarrow> CTransaction \<Rightarrow> CValidationState \<Rightarrow> connect_vars \<Rightarrow>
    ((bool \<times> CValidationState) \<times> connect_vars) res" where
  "connect_inputs cfg height fStrict flags tx state cv =
     (let E = env_curve (ce_script cfg) in
      rbind (HaveInputs E tx (cv_view cv)) (\<lambda>(fHave, view).
      if \<not> fHave then Inr (DoS 100 False False state, cv\<lparr>cv_view := view\<rparr>)
      else rbind (if fStrict then GetP2SHSigOpCount E tx view else Inr (0, view)) (\<lambda>(n, view).
      let nSigOps = (cv_nSigOps cv + n) mod 2 ^ 32 in
      if fStrict \<and> nSigOps > MAX_BLOCK_SIGOPS then Inr (DoS 100 False False state, cv\<lparr>cv_view := view\<rparr>)
      else rbind (GetValueIn E tx view) (\<lambda>(nTxValueIn, view).
      rbind (GetValueOut tx) (\<lambda>nTxValueOut.
      rbind (CheckInputs (ce_script cfg) height (ce_nMinTxFee cfg) (ce_nMinRelayTxFee cfg) tx state view flags
               (if ce_threads cfg then Some [] else None) (cv_cache cv)) (\<lambda>((ok, state), view, pvChecks, cache).
      let cv = cv\<lparr>cv_nSigOps := nSigOps, cv_nValueIn := wrap64 (cv_nValueIn cv + nTxValueIn),
                 cv_nValueOut := wrap64 (cv_nValueOut cv + nTxValueOut),
                 cv_nFees := wrap64 (cv_nFees cv + wrap64 (nTxValueIn - nTxValueOut)), cv_view := view, cv_cache := cache\<rparr>
      in Inr ((ok, state), if ok then cv\<lparr>cv_checks := cv_checks cv @ (case pvChecks of None \<Rightarrow> [] | Some cs \<Rightarrow> cs)\<rparr> else cv)))))))"

fun connect_txs :: "'p connect_env \<Rightarrow> (uint256 \<rightharpoonup> int) \<Rightarrow> bool \<Rightarrow> nat \<Rightarrow> int \<Rightarrow> (CTransaction \<times> uint256) list \<Rightarrow> CValidationState \<Rightarrow> connect_vars \<Rightarrow>
    ((bool \<times> CValidationState) \<times> connect_vars) res" where
  "connect_txs cfg height fStrict flags nHeight [] state cv = Inr ((True, state), cv)"
| "connect_txs cfg height fStrict flags nHeight ((tx, txhash) # txs) state cv =
     (let nSigOps = (cv_nSigOps cv + GetLegacySigOpCount tx) mod 2 ^ 32 in
      if nSigOps > MAX_BLOCK_SIGOPS then Inr (DoS 100 False False state, cv)
      else rbind (if IsCoinBase tx
                  then rbind (GetValueOut tx) (\<lambda>n. Inr ((True, state), cv\<lparr>cv_nSigOps := nSigOps, cv_nValueOut := wrap64 (cv_nValueOut cv + n)\<rparr>))
                  else connect_inputs cfg height fStrict flags tx state (cv\<lparr>cv_nSigOps := nSigOps\<rparr>)) (\<lambda>((ok, state), cv).
      if \<not> ok then Inr ((False, state), cv)
      else rbind (UpdateCoins (env_curve (ce_script cfg)) tx (cv_view cv) [] nHeight txhash) (\<lambda>(txundo, view).
      let pos = cv_pos cv;
          cv = cv\<lparr>cv_view := view, cv_blockundo := (if IsCoinBase tx then cv_blockundo cv else cv_blockundo cv @ [txundo]),
                 cv_vPos := cv_vPos cv @ [(txhash, pos)], cv_pos := pos\<lparr>nTxOffset := nTxOffset pos + of_nat (tx_size tx)\<rparr>\<rparr>
      in connect_txs cfg height fStrict flags nHeight txs state cv)))"

text \<open>\<^verbatim>\<open>control.Wait\<close>: whether all checks in the queue succeed.\<close>

fun run_checks :: "'p script_env \<Rightarrow> CScriptCheck list \<Rightarrow> CSignatureCache \<Rightarrow> (bool \<times> CSignatureCache) res" where
  "run_checks env [] c = Inr (True, c)"
| "run_checks env (chk # chks) c =
     rbind (run_check env chk c) (\<lambda>(ok, c). if ok then run_checks env chks c else Inr (False, c))"

text \<open>
  The state that \<^verbatim>\<open>ConnectBlock\<close> changes besides the block and the view: the block index, the files and databases, the global
  \<^verbatim>\<open>pindexGenesisBlock\<close> and the signature cache.
\<close>

record chain_state =
  mapBlockIndex :: "uint256 \<rightharpoonup> CBlockIndex"
  cs_store :: block_store
  pindexGenesisBlock :: blockptr
  cs_sigcache :: CSignatureCache

definition set_index :: "uint256 \<Rightarrow> CBlockIndex \<Rightarrow> chain_state \<Rightarrow> chain_state" where
  "set_index h ix C = C\<lparr>mapBlockIndex := (mapBlockIndex C)(h \<mapsto> ix)\<rparr>"

definition block_height :: "chain_state \<Rightarrow> uint256 \<Rightarrow> int option" where
  "block_height C h = map_option ix_nHeight (mapBlockIndex C h)"

text \<open>Undo data is written once, and the index records that the scripts are checked.\<close>

definition write_undo :: "'p connect_env \<Rightarrow> uint256 \<Rightarrow> uint256 \<Rightarrow> CBlockIndex \<Rightarrow> CBlockUndo \<Rightarrow> CValidationState \<Rightarrow> chain_state \<Rightarrow>
    ((bool \<times> CValidationState) \<times> chain_state) res" where
  "write_undo cfg h prev pindex blockundo state C =
     (let E = env_curve (ce_script cfg); D = env_digests (ce_script cfg); io = ce_io cfg;
          done = (\<lambda>pindex S.
            let pindex = pindex\<lparr>ix_nStatus := (ix_nStatus pindex - (ix_nStatus pindex AND BLOCK_VALID_MASK)) OR BLOCK_VALID_SCRIPTS\<rparr>
            in rbind (WriteBlockIndex io pindex S) (\<lambda>S. Inr ((True, state), set_index h pindex (C\<lparr>cs_store := S\<rparr>))))
      in if \<not> CDiskBlockPos_IsNull (ix_GetUndoPos pindex) then done pindex (cs_store C)
         else rbind (ser_blockundo E blockundo) (\<lambda>bs.
         rbind (FindUndoPos io (ix_nFile pindex) (of_nat (length bs) + 40) state (cs_store C)) (\<lambda>((ok, state'), pos, S).
         if \<not> ok then Inr ((False, state'), C\<lparr>cs_store := S\<rparr>)
         else rbind (undo_write_at io D E (ce_magic cfg) pos prev blockundo S) (\<lambda>r.
         case r of
           None \<Rightarrow> Inr (Abort state, C\<lparr>cs_store := S\<rparr>)
         | Some (pos, S) \<Rightarrow> done (pindex\<lparr>ix_nUndoPos := pos_nPos pos, ix_nStatus := ix_nStatus pindex OR BLOCK_HAVE_UNDO\<rparr>) S))))"

text \<open>
  The end of \<^verbatim>\<open>ConnectBlock\<close>, after the loop over the transactions: the money supply, the limit on the
  coinbase, the result of the script checks, the undo data, the transaction index and the new best block.
\<close>

definition connect_finish :: "'p connect_env \<Rightarrow> bool \<Rightarrow> CBlockIndex \<Rightarrow> CBlock \<Rightarrow> CValidationState \<Rightarrow> connect_vars \<Rightarrow> chain_state \<Rightarrow>
    ((bool \<times> CValidationState) \<times> CCoinsView \<times> chain_state) res" where
  "connect_finish cfg fJustCheck pindex b state cv C =
     rbind (if fJustCheck then Inr (pindex, C)
            else let pindex = pindex\<lparr>ix_nMoneySupply := wrap64
                       ((case Option.bind (ix_pprev pindex) (mapBlockIndex C) of Some p \<Rightarrow> ix_nMoneySupply p | None \<Rightarrow> 0)
                        + cv_nValueOut cv - cv_nValueIn cv)\<rparr>
                 in rbind (WriteBlockIndex (ce_io cfg) pindex (cs_store C)) (\<lambda>S.
                    Inr (pindex, set_index (the (ix_phashBlock pindex)) pindex (C\<lparr>cs_store := S\<rparr>)))) (\<lambda>(pindex, C).
     rbind (GetValueOut (hd (vtx b))) (\<lambda>nCoinbase.
     rbind (GetBlockValue (ce_target cfg) (ix_nBits pindex) (cv_nFees cv)) (\<lambda>nBlockValue.
     if nCoinbase > wrap64 (nBlockValue - GetMinFee (ce_nMinTxFee cfg) (ce_nMinRelayTxFee cfg) (hd (vtx b)) 1 False GMF_BLOCK + MIN_TX_FEE)
     then Inr (DoS 100 False False state, cv_view cv, C)
     else rbind (run_checks (ce_script cfg) (cv_checks cv) (cs_sigcache C)) (\<lambda>(ok, cache).
     let C = C\<lparr>cs_sigcache := cache\<rparr> in
     if \<not> ok then Inr (DoS 100 False False state, cv_view cv, C)
     else if fJustCheck then Inr ((True, state), cv_view cv, C)
     else let h = the (ix_phashBlock pindex) in
     rbind (if CDiskBlockPos_IsNull (ix_GetUndoPos pindex) \<or> ix_nStatus pindex AND BLOCK_VALID_MASK < BLOCK_VALID_SCRIPTS
            then write_undo cfg h (the (ix_pprev pindex)) pindex (cv_blockundo cv) state C
            else Inr ((True, state), C)) (\<lambda>((ok, state), C).
     if \<not> ok then Inr ((False, state), cv_view cv, C)
     else rbind (if ce_fTxIndex cfg then WriteTxIndex (ce_io cfg) (cv_vPos cv) (cs_store C) else Inr (cs_store C)) (\<lambda>S.
     rbind (view_SetBestBlock (cv_view cv) (Some h)) (\<lambda>(ok, view).
     if ok then Inr ((True, state), view, C\<lparr>cs_store := S\<rparr>) else Inl Assert_failed)))))))"

text \<open>
  \<^verbatim>\<open>ConnectBlock\<close> of the block \<open>b\<close> with the index \<open>pindex\<close>.  \<open>pindex\<close> is an argument, because for a block that is only being
  checked it is not in the map; the index of a block that is connected is the entry of its hash.
\<close>

definition ConnectBlock :: "'p connect_env \<Rightarrow> bool \<Rightarrow> CBlockIndex \<Rightarrow> CBlock \<Rightarrow> CValidationState \<Rightarrow> CCoinsView \<Rightarrow> chain_state \<Rightarrow>
    ((bool \<times> CValidationState) \<times> CCoinsView \<times> chain_state) res" where
  "ConnectBlock cfg fJustCheck pindex b state view C =
     (let E = env_curve (ce_script cfg); D = env_digests (ce_script cfg);
          ((ok, state), b) = CheckBlock cfg (\<not> fJustCheck) b state in
      if \<not> ok then Inr ((False, state), view, C)
      else case view_GetBestBlock (\<lambda>h. mapBlockIndex C h \<noteq> None) view of (best, view) \<Rightarrow>
      if ix_pprev pindex \<noteq> best then Inl Assert_failed
      else if block_GetHash D (ce_mpi cfg) b = ce_genesis cfg then
        rbind (view_SetBestBlock view (ix_phashBlock pindex)) (\<lambda>(ok, view).
        Inr ((True, state), view, C\<lparr>pindexGenesisBlock := ix_phashBlock pindex\<rparr>))
      else let hashes = take (length (vtx b)) (vMerkleTree b);
               fEnforceBIP30 = (ix_phashBlock pindex = None \<or>
                 \<not> (ix_nHeight pindex = 91842 \<and> ix_phashBlock pindex = Some 0x00000000000a4d0a398161ffc163c503763b1f4360639393e0e4c8e300e0caec \<or>
                    ix_nHeight pindex = 91880 \<and> ix_phashBlock pindex = Some 0x00000000000743f190a18c5577a3c2d2a1f610ae9601ac046a38084ccb7cd721)) in
      rbind (if fEnforceBIP30 then overwrite_loop E hashes view else Inr (False, view)) (\<lambda>(fOverwrites, view).
      if fOverwrites then Inr (DoS 100 False False state, view, C)
      else let fStrict = (uint (ix_nTime pindex) \<ge> 1333238400);
               flags = SCRIPT_VERIFY_NOCACHE OR (if fStrict then SCRIPT_VERIFY_P2SH else SCRIPT_VERIFY_NONE);
               cv = \<lparr>cv_nFees = 0, cv_nValueIn = 0, cv_nValueOut = 0, cv_nSigOps = 0,
                     cv_pos = CDiskTxPos_of (ix_GetBlockPos pindex) (of_nat (GetSizeOfCompactSize (length (vtx b)))),
                     cv_vPos = [], cv_blockundo = [], cv_checks = [], cv_view = view, cv_cache = cs_sigcache C\<rparr> in
      rbind (connect_txs cfg (block_height C) fStrict flags (ix_nHeight pindex) (zip (vtx b) hashes) state cv) (\<lambda>((ok, state), cv).
      let C = C\<lparr>cs_sigcache := cv_cache cv\<rparr> in
      if \<not> ok then Inr ((False, state), cv_view cv, C)
      else connect_finish cfg fJustCheck pindex b state cv C)))"

section \<open>Disconnecting a block\<close>

text \<open>\<^verbatim>\<open>resize\<close> to at least \<open>n\<close> outputs, then the assignment to \<^verbatim>\<open>vout[n]\<close>.\<close>

definition put_output :: "nat \<Rightarrow> CTxOut \<Rightarrow> CCoins \<Rightarrow> CCoins" where
  "put_output n out c = c\<lparr>coins_vout := (coins_vout c @ replicate (n + 1 - length (coins_vout c)) CTxOut_null)[n := out]\<rparr>"

text \<open>One step of the loop over the inputs: the new coins, and whether nothing was wrong.\<close>

definition restore_coins :: "nat \<Rightarrow> CTxInUndo \<Rightarrow> CCoins option \<Rightarrow> CCoins \<times> bool" where
  "restore_coins n undo r =
     (let coins = (case r of Some c \<Rightarrow> c | None \<Rightarrow> CCoins_empty);
          (coins, fClean) = (if undo_nHeight undo \<noteq> 0
             then (\<lparr>coins_fCoinBase = undo_fCoinBase undo, coins_vout = [], coins_nHeight = sint (undo_nHeight undo),
                    coins_nVersion = undo_nVersion undo\<rparr>, IsPruned coins)
             else (coins, \<not> IsPruned coins))
      in (put_output n (undo_txout undo) coins, fClean \<and> \<not> IsAvailable coins n))"

fun restore_inputs :: "'p curve \<Rightarrow> (CTxIn \<times> CTxInUndo) list \<Rightarrow> bool \<Rightarrow> CCoinsView \<Rightarrow> (bool \<times> bool \<times> CCoinsView) res" where
  "restore_inputs E [] fClean view = Inr (True, fClean, view)"
| "restore_inputs E ((txin, undo) # rest) fClean view =
     (case view_GetCoins E view (op_hash (prevout txin)) of (r, view) \<Rightarrow>
      case restore_coins (unat (op_n (prevout txin))) undo r of (coins, f) \<Rightarrow>
      rbind (view_SetCoins E view (op_hash (prevout txin)) coins) (\<lambda>(ok, view).
      if ok then restore_inputs E rest (fClean \<and> f) view else Inr (False, fClean \<and> f, view)))"

text \<open>
  The loop over the transactions, the last one first.  The second component is the undo
  data of the transaction; the first transaction of the block has none.
\<close>

fun disconnect_txs :: "digests \<Rightarrow> 'p curve \<Rightarrow> int \<Rightarrow> (CTransaction \<times> CTxUndo option) list \<Rightarrow> bool \<Rightarrow> CCoinsView \<Rightarrow>
    (bool \<times> bool \<times> CCoinsView) res" where
  "disconnect_txs D E nHeight [] fClean view = Inr (True, fClean, view)"
| "disconnect_txs D E nHeight ((tx, undo) # rest) fClean view =
     (let hash = tx_hash (Hash D) tx; (fHave, view) = view_HaveCoins E view hash in
      rbind (if fHave then Inr (fClean, view)
             else rbind (view_SetCoins E view hash CCoins_empty) (\<lambda>(ok, view). Inr (False, view))) (\<lambda>(fClean, view).
      rbind (view_GetCoins_ref E view hash) (\<lambda>(outs, view).
      let outsBlock = CCoins_of tx nHeight;
          outs = (if coins_nVersion outsBlock < 0 then outs\<lparr>coins_nVersion := coins_nVersion outsBlock\<rparr> else outs);
          fClean = (fClean \<and> outs = outsBlock);
          view = view_assign view hash CCoins_empty
      in case undo of
           None \<Rightarrow> disconnect_txs D E nHeight rest fClean view
         | Some txundo \<Rightarrow>
             if length txundo \<noteq> length (vin tx) then Inr (False, fClean, view)
             else rbind (restore_inputs E (rev (zip (vin tx) txundo)) fClean view) (\<lambda>(ok, fClean, view).
             if ok then disconnect_txs D E nHeight rest fClean view else Inr (False, fClean, view)))))"

text \<open>The returned value, the value of \<^verbatim>\<open>*pfClean\<close> and the view.  \<open>pfClean\<close> tells whether that pointer is given.\<close>

definition DisconnectBlock :: "'p connect_env \<Rightarrow> bool \<Rightarrow> CBlockIndex \<Rightarrow> CBlock \<Rightarrow> CCoinsView \<Rightarrow> chain_state \<Rightarrow> (bool \<times> bool \<times> CCoinsView) res" where
  "DisconnectBlock cfg pfClean pindex b view C =
     (let E = env_curve (ce_script cfg); D = env_digests (ce_script cfg) in
      case view_GetBestBlock (\<lambda>h. mapBlockIndex C h \<noteq> None) view of (best, view) \<Rightarrow>
      if ix_phashBlock pindex \<noteq> best then Inl Assert_failed
      else if CDiskBlockPos_IsNull (ix_GetUndoPos pindex) then Inr (False, False, view)
      else case undo_read_at (ce_io cfg) D E (ix_GetUndoPos pindex) (the (ix_pprev pindex)) (cs_store C) of
        None \<Rightarrow> Inr (False, False, view)
      | Some blockUndo \<Rightarrow>
        if length blockUndo + 1 \<noteq> length (vtx b) then Inr (False, False, view)
        else rbind (disconnect_txs D E (ix_nHeight pindex) (rev (zip (vtx b) (None # map Some blockUndo))) True view) (\<lambda>(ok, fClean, view).
        if \<not> ok then Inr (False, False, view)
        else rbind (view_SetBestBlock view (ix_pprev pindex)) (\<lambda>(ok, view). Inr (pfClean \<or> fClean, fClean, view))))"

section \<open>Reference definitions\<close>

text \<open>Coins that are spent, or can be written to the database and were created above the genesis block.\<close>

definition coin_wf :: "'p curve \<Rightarrow> CCoins \<Rightarrow> bool" where
  "coin_wf E c \<longleftrightarrow> IsPruned c \<or> valid_coins E c \<and> 0 < coins_nHeight c"

definition coins_wf :: "'p curve \<Rightarrow> CCoinsView \<Rightarrow> bool" where
  "coins_wf E v \<longleftrightarrow> is_cache v \<and> (\<forall>t c. view_coins E v t = Some c \<longrightarrow> coin_wf E c)"

text \<open>Two views that show the same unspent coins.\<close>

definition same_unspent :: "'p curve \<Rightarrow> CCoinsView \<Rightarrow> CCoinsView \<Rightarrow> bool" where
  "same_unspent E v w \<longleftrightarrow> is_cache w \<and> (\<forall>t. unspent (view_coins E w t) = unspent (view_coins E v t))"

section \<open>Spending and restoring one output\<close>

lemma Cleanup_vout_take:
  "\<exists>k\<le>length xs. Cleanup_vout xs = take k xs \<and> (\<forall>i. k \<le> i \<and> i < length xs \<longrightarrow> CTxOut_IsNull (xs ! i)) \<and> (0 < k \<longrightarrow> \<not> CTxOut_IsNull (xs ! (k - 1)))"
proof (induction xs rule: rev_induct)
  case (snoc x xs)
  show ?case
  proof (cases "CTxOut_IsNull x")
    case True
    obtain k where k: "k \<le> length xs" "Cleanup_vout xs = take k xs" "\<forall>i. k \<le> i \<and> i < length xs \<longrightarrow> CTxOut_IsNull (xs ! i)"
      "0 < k \<longrightarrow> \<not> CTxOut_IsNull (xs ! (k - 1))" using snoc.IH by blast
    have "Cleanup_vout (xs @ [x]) = Cleanup_vout xs" using True by (simp add: Cleanup_vout_def)
    then show ?thesis using k True by (intro exI [of _ k]) (auto simp: nth_append less_Suc_eq)
  next
    case False
    then have "Cleanup_vout (xs @ [x]) = xs @ [x]" by (simp add: Cleanup_vout_def)
    then show ?thesis using False by (intro exI [of _ "length xs + 1"]) auto
  qed
qed (simp add: Cleanup_vout_def)

lemma Cleanup_idem: "Cleanup_vout (Cleanup_vout xs) = Cleanup_vout xs"
  by (simp add: Cleanup_vout_def)

lemma restore_list:
  assumes n: "n < length outs" and clean: "Cleanup_vout outs = outs" and null: "\<forall>out\<in>set outs. CTxOut_IsNull out \<longrightarrow> out = CTxOut_null"
    and c: "c = Cleanup_vout (outs[n := CTxOut_null])"
  shows "(c @ replicate (n + 1 - length c) CTxOut_null)[n := outs ! n] = outs" "\<not> out_avail c n"
proof -
  let ?o = "outs[n := CTxOut_null]"
  obtain k where k: "k \<le> length outs" "c = take k ?o" "\<forall>i. k \<le> i \<and> i < length outs \<longrightarrow> CTxOut_IsNull (?o ! i)"
    using Cleanup_vout_take [of ?o] c by auto
  have last: "\<not> CTxOut_IsNull (outs ! (length outs - 1))" using Cleanup_last [OF clean] n by (metis last_conv_nth length_0_conv not_less0)
  have len: "length (c @ replicate (n + 1 - length c) CTxOut_null) = length outs"
  proof (cases "n = length outs - 1")
    case False
    then have "?o ! (length outs - 1) = outs ! (length outs - 1)" using n by simp
    then have "\<not> (k \<le> length outs - 1 \<and> length outs - 1 < length outs)" using k(3) last by metis
    then have "k = length outs" using k(1) n by linarith
    then show ?thesis using k(2) n by simp
  next
    case True
    then show ?thesis using k(1,2) n by simp
  qed
  show "(c @ replicate (n + 1 - length c) CTxOut_null)[n := outs ! n] = outs"
  proof (rule nth_equalityI)
    fix i assume "i < length ((c @ replicate (n + 1 - length c) CTxOut_null)[n := outs ! n])"
    then have i: "i < length outs" using len by simp
    have "(c @ replicate (n + 1 - length c) CTxOut_null) ! i = ?o ! i"
    proof (cases "i < k")
      case True
      then show ?thesis using k(1,2) i by (simp add: nth_append)
    next
      case False
      then have "CTxOut_IsNull (?o ! i)" using k(3) i by simp
      then have "?o ! i = CTxOut_null" using null i by (cases "i = n") auto
      moreover have "i - length c < n + 1 - length c" using i len False k(1,2) by simp
      ultimately show ?thesis using False k(1,2) by (simp add: nth_append)
    qed
    then show "(c @ replicate (n + 1 - length c) CTxOut_null)[n := outs ! n] ! i = outs ! i"
      using i len by (cases "i = n") simp_all
  qed (use len in simp)
  show "\<not> out_avail c n" using k(2) n by (auto simp: out_avail_def CTxOut_IsNull_def CTxOut_null_def)
qed

lemma valid_coins_null: "valid_coins E c \<Longrightarrow> out \<in> set (coins_vout c) \<Longrightarrow> CTxOut_IsNull out \<Longrightarrow> out = CTxOut_null"
  by (auto simp: valid_coins_def valid_txoutc_def CTxOut_IsNull_def)

lemma clean_pruned: "Cleanup c = c \<Longrightarrow> IsPruned c \<longleftrightarrow> coins_vout c = []"
proof
  assume c: "Cleanup c = c" "IsPruned c"
  then have "Cleanup_vout (coins_vout c) = coins_vout c" by (metis Cleanup_def CCoins.select_convs(2) CCoins.surjective CCoins.update_convs(2))
  then show "coins_vout c = []" using Cleanup_last [of "coins_vout c"] c(2) by (auto simp: IsPruned_def)
qed (simp add: IsPruned_def)

lemma avail_not_pruned: "IsAvailable c n \<Longrightarrow> \<not> IsPruned c"
  unfolding IsAvailable_def out_avail_def IsPruned_def using nth_mem by blast

lemma Spend_Some_iff: "(\<exists>r. Spend n c = Some r) \<longleftrightarrow> IsAvailable c n"
  by (auto simp: Spend_def IsAvailable_def out_avail_def Let_def)

lemma word_height: "0 < h \<Longrightarrow> h < 2 ^ 31 \<Longrightarrow> sint (word_of_int h :: u32) = h \<and> (word_of_int h :: u32) \<noteq> 0 \<and> unat (word_of_int h :: u32) < 2 ^ 31"
proof -
  assume h: "0 < h" "h < 2 ^ 31"
  then have "sint (word_of_int h :: u32) = h" by (simp add: signed_of_int signed_take_bit_int_eq_self)
  moreover have "unat (word_of_int h :: u32) = nat h" using h by (simp add: unat_eq_nat_uint take_bit_int_eq_self uint_word_of_int)
  ultimately show ?thesis using h by (auto simp: nat_less_iff)
qed

text \<open>What spending an output does, and that restoring it from the undo record gives back the coins.\<close>

lemma Spend_restores:
  assumes "Spend n c = Some (c', u)" "coin_wf E c"
  shows "coin_wf E c' \<and> valid_txinundo E u \<and> (\<forall>r. unspent r = unspent (Some c') \<longrightarrow> restore_coins n u r = (c, True))"
proof -
  have av: "IsAvailable c n" using assms(1) Spend_Some_iff by blast
  then have v: "valid_coins E c" "0 < coins_nHeight c" using assms(2) avail_not_pruned by (auto simp: coin_wf_def)
  let ?o = "coins_vout c"
  have n: "n < length ?o" "\<not> CTxOut_IsNull (?o ! n)" using av by (auto simp: IsAvailable_def out_avail_def)
  define vo where "vo = Cleanup_vout (?o[n := CTxOut_null])"
  have c': "c' = c\<lparr>coins_vout := vo\<rparr>"
    and u: "u = (if vo = [] then \<lparr>undo_txout = ?o ! n, undo_fCoinBase = coins_fCoinBase c, undo_nHeight = word_of_int (coins_nHeight c),
        undo_nVersion = coins_nVersion c\<rparr> else CTxInUndo_of (?o ! n))"
    using assms(1) n by (auto simp: Spend_def Let_def Cleanup_def vo_def CTxInUndo_of_def split: if_splits)
  have clean: "Cleanup_vout ?o = ?o" using v(1) by (metis valid_coins_def Cleanup_def CCoins.select_convs(2) CCoins.surjective CCoins.update_convs(2))
  have cl': "Cleanup c' = c'" by (simp add: c' Cleanup_def vo_def Cleanup_idem)
  note rl = restore_list [OF n(1) clean _ vo_def] valid_coins_null [OF v(1)]
  have sub: "out = CTxOut_null \<or> valid_txoutc E out" if "out \<in> set vo" for out
  proof -
    have "out \<in> set (?o[n := CTxOut_null])" using that Cleanup_vout_take [of "?o[n := CTxOut_null]"] by (auto simp: vo_def dest: in_set_takeD)
    then have "out \<in> insert CTxOut_null (set ?o)" by (meson set_update_subset_insert subsetD)
    then show ?thesis using v(1) by (auto simp: valid_coins_def)
  qed
  have "length vo \<le> length ?o" using Cleanup_vout_take [of "?o[n := CTxOut_null]"] by (auto simp: vo_def)
  then have wf: "coin_wf E c'"
    using v cl' clean_pruned [OF cl'] sub by (auto simp: coin_wf_def valid_coins_def c')
  have h: "coins_nHeight c < 2 ^ 31" "0 \<le> coins_nVersion c" "coins_nVersion c < 2 ^ 31" using v by (auto simp: valid_coins_def)
  note wh = word_height [OF v(2) h(1)]
  have "?o ! n \<noteq> CTxOut_null" using n(2) by (auto simp: CTxOut_IsNull_def CTxOut_null_def)
  then have "valid_txoutc E (?o ! n)" using v(1) nth_mem [OF n(1)] unfolding valid_coins_def by blast
  then have vu: "valid_txinundo E u" using wh h by (auto simp: valid_txinundo_def u CTxInUndo_of_def)
  have "restore_coins n u r = (c, True)" if r: "unspent r = unspent (Some c')" for r
  proof (cases "vo = []")
    case True
    have "IsPruned (case r of Some c \<Rightarrow> c | None \<Rightarrow> CCoins_empty)"
      using r True by (auto simp: unspent_def c' IsPruned_def CCoins_empty_def split: option.splits if_splits)
    moreover have "put_output n (?o ! n) \<lparr>coins_fCoinBase = coins_fCoinBase c, coins_vout = [], coins_nHeight = coins_nHeight c,
        coins_nVersion = coins_nVersion c\<rparr> = c" using rl True by (simp add: put_output_def)
    ultimately show ?thesis using True wh by (simp add: restore_coins_def u IsAvailable_def out_avail_def)
  next
    case False
    then have np: "\<not> IsPruned c'" using clean_pruned [OF cl'] by (simp add: c')
    then have "r = Some c'" using r by (auto simp: unspent_def split: option.splits if_splits)
    moreover have "put_output n (?o ! n) c' = c" using rl by (simp add: put_output_def c')
    ultimately show ?thesis using False np rl by (simp add: restore_coins_def u CTxInUndo_of_def IsAvailable_def c')
  qed
  then show ?thesis using wf vu by blast
qed

section \<open>Spending and restoring the inputs of a transaction\<close>

lemma restore_inputs_append:
  "restore_inputs E (xs @ ys) fc w = rbind (restore_inputs E xs fc w) (\<lambda>(ok, fc', w'). if ok then restore_inputs E ys fc' w' else Inr (False, fc', w'))"
proof (induction xs arbitrary: fc w)
  case (Cons x xs)
  obtain txin undo where x: "x = (txin, undo)" by (cases x)
  obtain r v where g: "view_GetCoins E w (op_hash (prevout txin)) = (r, v)" by fastforce
  obtain c f where c: "restore_coins (unat (op_n (prevout txin))) undo r = (c, f)" by fastforce
  show ?case using Cons.IH by (cases "view_SetCoins E v (op_hash (prevout txin)) c") (auto simp: x g c split: prod.splits)
qed simp

lemma SetCoins_cache:
  "is_cache v \<Longrightarrow> \<exists>v'. view_SetCoins E v t c = Inr (True, v') \<and> is_cache v' \<and> view_coins E v' = (view_coins E v)(t \<mapsto> c)"
  using cache.set_eq [of v E t c] by auto

lemma assign_cache:
  "is_cache v \<Longrightarrow> is_cache (view_assign v t c) \<and> view_coins E (view_assign v t c) = (view_coins E v)(t \<mapsto> c)"
  by (cases v) (auto simp: view_coins_simps)

lemma restore_step:
  assumes "same_unspent E v' w" "view_coins E v' t = Some c'" "Spend n c = Some (c', u)" "coin_wf E c"
    "op_hash (prevout txin) = t" "unat (op_n (prevout txin)) = n"
  shows "\<exists>w'. restore_inputs E [(txin, u)] fc w = Inr (True, fc, w') \<and> is_cache w' \<and> view_coins E w' = (view_coins E w)(t \<mapsto> c)"
proof -
  have w: "is_cache w" "unspent (view_coins E w t) = unspent (Some c')" using assms(1,2) by (auto simp: same_unspent_def)
  obtain w1 where w1: "view_GetCoins E w t = (view_coins E w t, w1)" "is_cache w1" "view_coins E w1 = view_coins E w"
    using cache.get_eq [OF w(1), of E t] by auto
  have r: "restore_coins n u (view_coins E w t) = (c, True)" using Spend_restores [OF assms(3,4)] w(2) by blast
  obtain w2 where w2: "view_SetCoins E w1 t c = Inr (True, w2)" "is_cache w2" "view_coins E w2 = (view_coins E w1)(t \<mapsto> c)"
    using SetCoins_cache [OF w1(2), of E t c] by (elim exE conjE) (rule that)
  show ?thesis using w1 r w2 by (simp add: assms(5,6))
qed

lemma spend_inputs_restores:
  assumes "spend_inputs E ins us v = Inr (us', v')" "coins_wf E v"
  shows "\<exists>ds. us' = us @ ds \<and> length ds = length ins \<and> (\<forall>d\<in>set ds. valid_txinundo E d) \<and> coins_wf E v' \<and>
    (\<forall>t. unspent (view_coins E v t) = None \<longrightarrow> view_coins E v' t = view_coins E v t) \<and>
    (\<forall>w fc. same_unspent E v' w \<longrightarrow> (\<exists>w'. restore_inputs E (rev (zip ins ds)) fc w = Inr (True, fc, w') \<and> same_unspent E v w'))"
  using assms
proof (induction ins arbitrary: us v)
  case Nil
  then show ?case by auto
next
  case (Cons txin ins)
  let ?t = "op_hash (prevout txin)" and ?n = "unat (op_n (prevout txin))"
  have v: "is_cache v" using Cons.prems(2) by (simp add: coins_wf_def)
  obtain coins v1 c' u where g: "view_GetCoins_ref E v ?t = Inr (coins, v1)" and sp: "Spend ?n coins = Some (c', u)"
    and rest: "spend_inputs E ins (us @ [u]) (view_assign v1 ?t c') = Inr (us', v')"
    using Cons.prems(1) by (auto simp: rbind_Inr_iff split: option.splits)
  have co: "view_coins E v ?t = Some coins" "is_cache v1" "view_coins E v1 = view_coins E v"
    using ref_elim [OF g v] by (simp_all add: same_coins_def)
  define v2 where "v2 = view_assign v1 ?t c'"
  have v2: "v2 = view_assign v1 ?t c'" "is_cache v2" "view_coins E v2 = (view_coins E v)(?t \<mapsto> c')"
    using assign_cache [OF co(2), of ?t c' E] co(3) by (simp_all add: v2_def)
  have wf: "coin_wf E coins" using Cons.prems(2) co(1) by (simp add: coins_wf_def)
  note sr = Spend_restores [OF sp wf]
  have wf2: "coins_wf E v2" using Cons.prems(2) v2 sr by (auto simp: coins_wf_def)
  have rest2: "spend_inputs E ins (us @ [u]) v2 = Inr (us', v')" using rest v2 by simp
  obtain ds where ds: "us' = us @ u # ds" "length ds = length ins" "\<forall>d\<in>set ds. valid_txinundo E d" "coins_wf E v'"
    "\<And>t. unspent (view_coins E v2 t) = None \<Longrightarrow> view_coins E v' t = view_coins E v2 t"
    "\<And>w fc. same_unspent E v' w \<Longrightarrow> \<exists>w'. restore_inputs E (rev (zip ins ds)) fc w = Inr (True, fc, w') \<and> same_unspent E v2 w'"
    using Cons.IH [OF rest2 wf2] by auto
  have np: "unspent (view_coins E v ?t) \<noteq> None"
    using co(1) avail_not_pruned [of coins ?n] Spend_Some_iff [of ?n coins] sp by (auto simp: unspent_def)
  have "\<exists>w'. restore_inputs E (rev (zip (txin # ins) (u # ds))) fc w = Inr (True, fc, w') \<and> same_unspent E v w'"
    if w: "same_unspent E v' w" for w fc
  proof -
    obtain w1 where w1: "restore_inputs E (rev (zip ins ds)) fc w = Inr (True, fc, w1)" "same_unspent E v2 w1"
      using ds(6) [OF w] by blast
    have "view_coins E v2 ?t = Some c'" using v2(3) by simp
    from restore_step [OF w1(2) this sp wf refl refl, of fc] obtain w2 where
      w2: "restore_inputs E [(txin, u)] fc w1 = Inr (True, fc, w2)" "is_cache w2" "view_coins E w2 = (view_coins E w1)(?t \<mapsto> coins)"
      by (elim exE conjE) (rule that)
    have "same_unspent E v w2" using w1(2) w2(2,3) co(1) v2(3) by (auto simp: same_unspent_def)
    then show ?thesis using w1 w2(1) by (simp add: restore_inputs_append)
  qed
  moreover have "view_coins E v' t = view_coins E v t" if "unspent (view_coins E v t) = None" for t
    using that ds(5) [of t] np v2(3) by (cases "t = ?t") auto
  ultimately show ?case using ds sr by (intro exI [of _ "u # ds"]) auto
qed

section \<open>Connecting and disconnecting a transaction\<close>

lemma remove_outputs:
  assumes "same_unspent E v' w" "view_coins E v' = (view_coins E v1)(hash \<mapsto> CCoins_of tx h)" "hash = tx_hash (Hash D) tx"
    "unspent (view_coins E v1 hash) = None" "valid_coins E (CCoins_of tx h)"
  shows "\<exists>w1. same_unspent E v1 w1 \<and>
    disconnect_txs D E h ((tx, undo) # rest) fc w = (case undo of
       None \<Rightarrow> disconnect_txs D E h rest fc w1
     | Some txundo \<Rightarrow> if length txundo \<noteq> length (vin tx) then Inr (False, fc, w1)
         else rbind (restore_inputs E (rev (zip (vin tx) txundo)) fc w1) (\<lambda>(ok, fc, w2).
           if ok then disconnect_txs D E h rest fc w2 else Inr (False, fc, w2)))"
proof -
  let ?c = "CCoins_of tx h"
  have w: "is_cache w" using assms(1) by (simp add: same_unspent_def)
  have np: "\<not> IsPruned ?c" using pruned_valid [OF assms(5)] .
  have "unspent (view_coins E w hash) = Some ?c" using assms(1,2) np by (auto simp: same_unspent_def unspent_def)
  then have c: "view_coins E w hash = Some ?c" by (auto simp: unspent_def split: option.splits if_splits)
  obtain wa where wa: "view_HaveCoins E w hash = (True, wa)" "is_cache wa" "view_coins E wa = view_coins E w"
    using cache.have_eq [OF w, of E hash] c by auto
  obtain wb where wb: "view_GetCoins_ref E wa hash = Inr (?c, wb)" "is_cache wb" "view_coins E wb = view_coins E w"
    using ref_Some [OF wa(2), of E hash ?c] wa(3) c by (auto simp: same_coins_def)
  define w1 where "w1 = view_assign wb hash CCoins_empty"
  have w1: "view_assign wb hash CCoins_empty = w1" "is_cache w1" "view_coins E w1 = (view_coins E w)(hash \<mapsto> CCoins_empty)"
    using assign_cache [OF wb(2), of hash CCoins_empty E] wb(3) by (simp_all add: w1_def)
  have "unspent (Some CCoins_empty) = None" by (simp add: unspent_def CCoins_empty_def IsPruned_def)
  then have "same_unspent E v1 w1" using w1 assms(1,2,4) by (auto simp: same_unspent_def)
  moreover have "0 \<le> coins_nVersion ?c" using assms(5) by (simp add: valid_coins_def)
  ultimately show ?thesis using wa(1) wb(1) w1(1) by (intro exI [of _ w1]) (simp add: Let_def assms(3) [symmetric] split: option.split prod.split)
qed

lemma UpdateCoins_undone:
  assumes u: "UpdateCoins E tx v [] h hash = Inr (u, v')" and "hash = tx_hash (Hash D) tx" "coins_wf E v"
    "unspent (view_coins E v hash) = None" "valid_coins E (CCoins_of tx h)" "0 < h"
  shows "coins_wf E v' \<and> (\<forall>d\<in>set u. valid_txinundo E d) \<and> (IsCoinBase tx \<or> length u = length (vin tx)) \<and>
    (\<forall>t. t \<noteq> hash \<longrightarrow> unspent (view_coins E v t) = None \<longrightarrow> unspent (view_coins E v' t) = None) \<and>
    (\<forall>w fc rest. same_unspent E v' w \<longrightarrow>
      (\<exists>w'. disconnect_txs D E h ((tx, if IsCoinBase tx then None else Some u) # rest) fc w = disconnect_txs D E h rest fc w' \<and> same_unspent E v w'))"
proof -
  obtain u1 v1 where st: "(if IsCoinBase tx then Inr ([], v) else spend_inputs E (vin tx) [] v) = Inr (u1, v1)"
    "view_SetCoins E v1 hash (CCoins_of tx h) = Inr (True, v')" "u1 = u"
    using u unfolding UpdateCoins_def by (auto simp: rbind_Inr_iff split: if_splits)
  note v1 = st(1) [unfolded st(3)] and set = st(2)
  have sp: "coins_wf E v1 \<and> (\<forall>d\<in>set u. valid_txinundo E d) \<and> (\<forall>t. unspent (view_coins E v t) = None \<longrightarrow> view_coins E v1 t = view_coins E v t) \<and>
      (IsCoinBase tx \<and> v1 = v \<or> length u = length (vin tx) \<and> (\<forall>w fc. same_unspent E v1 w \<longrightarrow>
        (\<exists>w'. restore_inputs E (rev (zip (vin tx) u)) fc w = Inr (True, fc, w') \<and> same_unspent E v w')))"
    using v1 spend_inputs_restores [of E "vin tx" "[]" v u v1] assms(3) by (cases "IsCoinBase tx") auto
  have c1: "is_cache v1" using sp by (simp add: coins_wf_def)
  obtain v2 where v2: "view_SetCoins E v1 hash (CCoins_of tx h) = Inr (True, v2)" "is_cache v2" "view_coins E v2 = (view_coins E v1)(hash \<mapsto> CCoins_of tx h)"
    using SetCoins_cache [OF c1, of E hash "CCoins_of tx h"] by (elim exE conjE) (rule that)
  have e: "v2 = v'" using set v2(1) by simp
  have "coin_wf E (CCoins_of tx h)" using assms(5,6) by (simp add: coin_wf_def CCoins_of_def)
  then have wf: "coins_wf E v'" using sp v2 unfolding e by (auto simp: coins_wf_def)
  have n1: "unspent (view_coins E v1 hash) = None" using sp assms(4) by simp
  have un: "unspent (view_coins E v' t) = None" if "t \<noteq> hash" "unspent (view_coins E v t) = None" for t
    using that sp v2(3) unfolding e by auto
  have "\<exists>w'. disconnect_txs D E h ((tx, if IsCoinBase tx then None else Some u) # rest) fc w = disconnect_txs D E h rest fc w' \<and> same_unspent E v w'"
    if w: "same_unspent E v' w" for w fc rest
  proof -
    from remove_outputs [OF w v2(3) [unfolded e] assms(2) n1 assms(5), of "if IsCoinBase tx then None else Some u" rest fc]
    obtain w1 where w1: "same_unspent E v1 w1" and d: "disconnect_txs D E h ((tx, if IsCoinBase tx then None else Some u) # rest) fc w =
        (case if IsCoinBase tx then None else Some u of
           None \<Rightarrow> disconnect_txs D E h rest fc w1
         | Some txundo \<Rightarrow> if length txundo \<noteq> length (vin tx) then Inr (False, fc, w1)
             else rbind (restore_inputs E (rev (zip (vin tx) txundo)) fc w1) (\<lambda>(ok, fc, w2).
               if ok then disconnect_txs D E h rest fc w2 else Inr (False, fc, w2)))"
      by (elim exE conjE) (rule that)
    show ?thesis
    proof (cases "IsCoinBase tx")
      case True
      then have "v1 = v" using v1 by simp
      then show ?thesis using d w1 True by auto
    next
      case False
      then obtain w2 where "restore_inputs E (rev (zip (vin tx) u)) fc w1 = Inr (True, fc, w2)" "same_unspent E v w2" using sp w1 by blast
      then show ?thesis using d False sp by auto
    qed
  qed
  then show ?thesis using wf sp un by blast
qed

section \<open>The loop over the transactions\<close>

lemma value_in_loop_keeps:
  "value_in_loop E ins a v = Inr (r, v') \<Longrightarrow> is_cache v \<Longrightarrow> is_cache v' \<and> view_coins E v' = view_coins E v"
proof (induction ins arbitrary: a v)
  case (Cons txin ins)
  obtain out v1 where o: "GetOutputFor E txin v = Inr (out, v1)" "value_in_loop E ins (wrap64 (a + nValue out)) v1 = Inr (r, v')"
    using Cons.prems(1) by (auto simp: rbind_Inr_iff)
  obtain coins where "view_GetCoins_ref E v (op_hash (prevout txin)) = Inr (coins, v1)"
    using o(1) by (auto simp: GetOutputFor_def rbind_Inr_iff split: if_splits)
  from ref_elim [OF this Cons.prems(2)] show ?case using Cons.IH [OF o(2)] by (simp add: same_coins_def)
qed simp

lemma p2sh_sigop_loop_keeps:
  "p2sh_sigop_loop E ins a v = Inr (r, v') \<Longrightarrow> is_cache v \<Longrightarrow> is_cache v' \<and> view_coins E v' = view_coins E v"
proof (induction ins arbitrary: a v)
  case (Cons txin ins)
  obtain out v1 a1 where o: "GetOutputFor E txin v = Inr (out, v1)" "p2sh_sigop_loop E ins a1 v1 = Inr (r, v')"
    using Cons.prems(1) by (auto simp: rbind_Inr_iff)
  obtain coins where "view_GetCoins_ref E v (op_hash (prevout txin)) = Inr (coins, v1)"
    using o(1) by (auto simp: GetOutputFor_def rbind_Inr_iff split: if_splits)
  from ref_elim [OF this Cons.prems(2)] show ?case using Cons.IH [OF o(2)] by (simp add: same_coins_def)
qed simp

lemma CheckInputs_keeps:
  assumes "CheckInputs env height fee rfee tx st v flags pv c = Inr ((True, st'), v', pv', c')" "is_cache v" "\<not> IsCoinBase tx"
  shows "is_cache v' \<and> view_coins (env_curve env) v' = view_coins (env_curve env) v \<and> st' = st"
proof -
  let ?E = "env_curve env" and ?k = "\<lambda>h. height h \<noteq> None"
  from CheckInputs_steps [OF assms(1,3)] obtain v1 bh v2 nBest st1 nIn v3 where
    hv: "HaveInputs ?E tx v = Inr (True, v1)" and b: "view_GetBestBlock ?k v1 = (Some bh, v2)"
    and cv: "check_values ?E (nBest + 1) (vin tx) 0 st v2 = Inr ((True, st1), nIn, v3)"
    and cs: "check_scripts env tx flags 0 (vin tx) st1 v3 pv c = Inr ((True, st'), v', pv', c')"
    by (elim exE conjE) (rule that)
  have v1: "same_coins ?E ?k v v1" using HaveInputs_spec [OF assms(2), of ?E tx ?k] hv by auto
  have v2: "same_coins ?E ?k v v2"
    using GetBestBlock_same [OF same_coins_cache [OF v1], of ?E ?k] same_coins_trans [OF v1] b by simp
  have M0: "MoneyRange 0" by (simp add: MoneyRange_def MAX_MONEY_eq)
  have v3: "same_coins ?E ?k v v3 \<and> st1 = st"
    using check_values_sound [OF cv same_coins_cache [OF v2] M0, of ?k] same_coins_trans [OF v2] by blast
  then have "same_coins ?E ?k v3 v' \<and> st' = st1" using check_scripts_sound [OF cs, of ?k] same_coins_cache by auto
  then show ?thesis using v3 by (simp add: same_coins_def)
qed

lemma connect_inputs_keeps:
  assumes "connect_inputs cfg height fStrict flags tx st cv = Inr ((True, st'), cv')" "is_cache (cv_view cv)" "\<not> IsCoinBase tx"
  shows "is_cache (cv_view cv') \<and> view_coins (env_curve (ce_script cfg)) (cv_view cv') = view_coins (env_curve (ce_script cfg)) (cv_view cv) \<and>
    cv_blockundo cv' = cv_blockundo cv \<and> st' = st"
proof -
  let ?E = "env_curve (ce_script cfg)"
  note a = assms(1) [unfolded connect_inputs_def Let_def]
  obtain v1 where h: "HaveInputs ?E tx (cv_view cv) = Inr (True, v1)"
    using a by (auto simp: rbind_Inr_iff DoS_def split: if_splits)
  obtain n v2 where p: "(if fStrict then GetP2SHSigOpCount ?E tx v1 else Inr (0, v1)) = Inr (n, v2)"
    using a h by (auto simp: rbind_Inr_iff)
  obtain r v3 where g: "GetValueIn ?E tx v2 = Inr (r, v3)"
    using a h p by (auto simp: rbind_Inr_iff DoS_def split: if_splits)
  obtain nOut v4 pv c where c: "CheckInputs (ce_script cfg) height (ce_nMinTxFee cfg) (ce_nMinRelayTxFee cfg) tx st v3 flags
      (if ce_threads cfg then Some [] else None) (cv_cache cv) = Inr ((True, st'), v4, pv, c)"
    and e: "cv_view cv' = v4" "cv_blockundo cv' = cv_blockundo cv"
    using a h p g by (auto simp: rbind_Inr_iff DoS_def split: if_splits)
  have k1: "is_cache v1 \<and> view_coins ?E v1 = view_coins ?E (cv_view cv)"
    using HaveInputs_spec [OF assms(2), of ?E tx] h by (auto simp: same_coins_def)
  then have k2: "is_cache v2 \<and> view_coins ?E v2 = view_coins ?E (cv_view cv)"
    using p assms(3) p2sh_sigop_loop_keeps [of ?E "vin tx" 0 v1 n v2] by (auto simp: GetP2SHSigOpCount_def split: if_splits)
  then have k3: "is_cache v3 \<and> view_coins ?E v3 = view_coins ?E (cv_view cv)"
    using g assms(3) value_in_loop_keeps [of ?E "vin tx" 0 v2 r v3] by (auto simp: GetValueIn_def)
  then show ?thesis using CheckInputs_keeps [OF c _ assms(3)] e by simp
qed

lemma same_unspent_cong: "view_coins E v = view_coins E v' \<Longrightarrow> same_unspent E v w = same_unspent E v' w"
  by (simp add: same_unspent_def)

lemma connect_tx_step:
  assumes "connect_txs cfg height fS flags h ((tx, hash) # txs) st cv = Inr ((True, st'), cv')" "is_cache (cv_view cv)"
  shows "\<exists>v0 u v1 cv2 st1. UpdateCoins (env_curve (ce_script cfg)) tx v0 [] h hash = Inr (u, v1) \<and>
    is_cache v0 \<and> view_coins (env_curve (ce_script cfg)) v0 = view_coins (env_curve (ce_script cfg)) (cv_view cv) \<and>
    cv_view cv2 = v1 \<and> cv_blockundo cv2 = cv_blockundo cv @ (if IsCoinBase tx then [] else [u]) \<and>
    connect_txs cfg height fS flags h txs st1 cv2 = Inr ((True, st'), cv')"
proof -
  let ?n = "(cv_nSigOps cv + GetLegacySigOpCount tx) mod 2 ^ 32"
  note a = assms(1) [unfolded connect_txs.simps Let_def]
  obtain st1 cv1 where b: "(if IsCoinBase tx
      then rbind (GetValueOut tx) (\<lambda>n. Inr ((True, st), cv\<lparr>cv_nSigOps := ?n, cv_nValueOut := wrap64 (cv_nValueOut cv + n)\<rparr>))
      else connect_inputs cfg height fS flags tx st (cv\<lparr>cv_nSigOps := ?n\<rparr>)) = Inr ((True, st1), cv1)"
    using a by (auto simp: rbind_Inr_iff DoS_def split: if_splits)
  have k: "is_cache (cv_view cv1) \<and> view_coins (env_curve (ce_script cfg)) (cv_view cv1) = view_coins (env_curve (ce_script cfg)) (cv_view cv) \<and>
      cv_blockundo cv1 = cv_blockundo cv"
  proof (cases "IsCoinBase tx")
    case True
    then show ?thesis using b assms(2) by (auto simp: rbind_Inr_iff)
  next
    case False
    then have "connect_inputs cfg height fS flags tx st (cv\<lparr>cv_nSigOps := ?n\<rparr>) = Inr ((True, st1), cv1)" using b by simp
    from connect_inputs_keeps [OF this _ False] show ?thesis using assms(2) by simp
  qed
  obtain u v1 where uc: "UpdateCoins (env_curve (ce_script cfg)) tx (cv_view cv1) [] h hash = Inr (u, v1)"
    using a b by (auto simp: rbind_Inr_iff DoS_def split: if_splits)
  define cv2 where "cv2 = cv1\<lparr>cv_view := v1, cv_blockundo := (if IsCoinBase tx then cv_blockundo cv1 else cv_blockundo cv1 @ [u]),
      cv_vPos := cv_vPos cv1 @ [(hash, cv_pos cv1)], cv_pos := (cv_pos cv1)\<lparr>nTxOffset := nTxOffset (cv_pos cv1) + of_nat (tx_size tx)\<rparr>\<rparr>"
  have "connect_txs cfg height fS flags h txs st1 cv2 = Inr ((True, st'), cv')"
    using a unfolding b by (simp add: uc cv2_def DoS_def split: if_splits)
  moreover have "cv_view cv2 = v1" "cv_blockundo cv2 = cv_blockundo cv @ (if IsCoinBase tx then [] else [u])" using k by (simp_all add: cv2_def)
  ultimately show ?thesis using k uc by (intro exI [of _ "cv_view cv1"] exI [of _ u] exI [of _ v1] exI [of _ cv2] exI [of _ st1]) simp
qed

lemma connect_txs_undone:
  assumes "connect_txs cfg height fS flags h txs st cv = Inr ((True, st'), cv')" "coins_wf E (cv_view cv)" "0 < h"
    "\<forall>(tx, hash)\<in>set txs. hash = tx_hash (Hash D) tx \<and> \<not> IsCoinBase tx \<and> valid_coins E (CCoins_of tx h) \<and> length (vin tx) \<le> MAX_SIZE"
    "distinct (map snd txs)" "\<forall>hash\<in>set (map snd txs). unspent (view_coins E (cv_view cv) hash) = None" "E = env_curve (ce_script cfg)"
  shows "\<exists>us. cv_blockundo cv' = cv_blockundo cv @ us \<and> length us = length txs \<and>
    (\<forall>u\<in>set us. length u \<le> MAX_SIZE \<and> (\<forall>d\<in>set u. valid_txinundo E d)) \<and> coins_wf E (cv_view cv') \<and>
    (\<forall>w fc rest. same_unspent E (cv_view cv') w \<longrightarrow> (\<exists>w'. disconnect_txs D E h (rev (zip (map fst txs) (map Some us)) @ rest) fc w =
       disconnect_txs D E h rest fc w' \<and> same_unspent E (cv_view cv) w'))"
  using assms
proof (induction txs arbitrary: st cv)
  case Nil
  then show ?case by auto
next
  case (Cons p txs)
  obtain tx hash where p: "p = (tx, hash)" by (cases p)
  have tx: "hash = tx_hash (Hash D) tx" "\<not> IsCoinBase tx" "valid_coins E (CCoins_of tx h)" "length (vin tx) \<le> MAX_SIZE"
    using Cons.prems(4) by (simp_all add: p)
  have c: "is_cache (cv_view cv)" using Cons.prems(2) by (simp add: coins_wf_def)
  from connect_tx_step [OF Cons.prems(1) [unfolded p] c] obtain v0 u v1 cv2 st1 where
    uc: "UpdateCoins E tx v0 [] h hash = Inr (u, v1)"
    and k: "is_cache v0" "view_coins E v0 = view_coins E (cv_view cv)" "cv_view cv2 = v1"
      "cv_blockundo cv2 = cv_blockundo cv @ [u]"
    and rest: "connect_txs cfg height fS flags h txs st1 cv2 = Inr ((True, st'), cv')"
    using tx(2) unfolding Cons.prems(7) [symmetric] by (simp only: if_False) (elim exE conjE, rule that)
  have wf1: "coins_wf E v0" using Cons.prems(2) k(1,2) by (simp add: coins_wf_def)
  have none: "unspent (view_coins E v0 hash) = None" using Cons.prems(6) k(2) by (simp add: p)
  note U = UpdateCoins_undone [OF uc tx(1) wf1 none tx(3) Cons.prems(3)]
  have undo: "same_unspent E v1 w \<longrightarrow> (\<exists>w'. disconnect_txs D E h ((tx, if IsCoinBase tx then None else Some u) # rest) fc w =
      disconnect_txs D E h rest fc w' \<and> same_unspent E v0 w')" for w fc rest
    using U by (elim conjE) (drule spec [of _ w], drule spec [of _ fc], drule spec [of _ rest], assumption)
  have wf2: "coins_wf E (cv_view cv2)" using U k(3) by simp
  have nones: "\<forall>hash\<in>set (map snd txs). unspent (view_coins E (cv_view cv2) hash) = None"
  proof
    fix x assume x: "x \<in> set (map snd txs)"
    then have "x \<noteq> hash" "unspent (view_coins E v0 x) = None" using Cons.prems(5,6) k(2) by (auto simp: p)
    then show "unspent (view_coins E (cv_view cv2) x) = None" using U k(3) by blast
  qed
  have "\<forall>(tx, hash)\<in>set txs. hash = tx_hash (Hash D) tx \<and> \<not> IsCoinBase tx \<and> valid_coins E (CCoins_of tx h) \<and> length (vin tx) \<le> MAX_SIZE"
    "distinct (map snd txs)" using Cons.prems(4,5) by (simp_all add: p)
  from Cons.IH [OF rest wf2 Cons.prems(3) this nones Cons.prems(7)] obtain us where
    us: "cv_blockundo cv' = cv_blockundo cv2 @ us" "length us = length txs" "\<forall>u\<in>set us. length u \<le> MAX_SIZE \<and> (\<forall>d\<in>set u. valid_txinundo E d)"
      "coins_wf E (cv_view cv')"
    and d: "\<forall>w fc rest. same_unspent E (cv_view cv') w \<longrightarrow> (\<exists>w'. disconnect_txs D E h (rev (zip (map fst txs) (map Some us)) @ rest) fc w =
       disconnect_txs D E h rest fc w' \<and> same_unspent E (cv_view cv2) w')"
    by (elim exE conjE) (rule that)
  have "\<exists>w'. disconnect_txs D E h (rev (zip (map fst (p # txs)) (map Some (u # us))) @ rest) fc w =
       disconnect_txs D E h rest fc w' \<and> same_unspent E (cv_view cv) w'" if w: "same_unspent E (cv_view cv') w" for w fc rest
  proof -
    obtain w1 where w1: "disconnect_txs D E h (rev (zip (map fst txs) (map Some us)) @ (tx, Some u) # rest) fc w =
       disconnect_txs D E h ((tx, Some u) # rest) fc w1" "same_unspent E v1 w1" using d w k(3) by blast
    obtain w2 where "disconnect_txs D E h ((tx, Some u) # rest) fc w1 = disconnect_txs D E h rest fc w2" "same_unspent E v0 w2"
      using undo [of w1 rest fc] w1(2) tx(2) by (simp only: if_False simp_thms) (elim exE conjE, rule that)
    then show ?thesis using w1(1) same_unspent_cong [OF k(2)] by (auto simp: p)
  qed
  moreover have "length u \<le> MAX_SIZE \<and> (\<forall>d\<in>set u. valid_txinundo E d)" using U tx(2,4) by simp
  ultimately show ?case using us k(4) by (intro exI [of _ "u # us"] conjI) auto
qed

end
