(* ===== verification/Spec2Isabelle.thy ===== *)
theory Spec2Isabelle
  imports MiningSieve Connect
begin

text \<open>
  A verification library for the primecoin node, whose C++ sources are under \<^verbatim>\<open>src/src\<close>.

  \<^bold>\<open>The program.\<close>  A primecoin node validates blocks of transactions.  A block carries as its proof of work a
  multiplier which, times the hash of the header, is the origin of a chain of probable primes
  (\<^verbatim>\<open>prime.cpp\<close>); how long the chain must be is the target, which is adjusted after every block.  A
  transaction spends outputs of earlier ones: each output carries a script, and an input is valid when
  its own script and that of the output run to a true value (\<^verbatim>\<open>script.cpp\<close>).  The node keeps the unspent outputs as
  a set of coins, in a database under a stack of caches, and undo records to take a block back
  (\<^verbatim>\<open>main.cpp\<close>, \<^verbatim>\<open>main.h\<close>, \<^verbatim>\<open>txdb.cpp\<close>).  Everything on disk or on the wire goes through the formats of
  \<^verbatim>\<open>serialize.h\<close>.

  \<^bold>\<open>Conventions.\<close>  Operations are functions on explicit state.  Unsigned machine integers are words of their width; signed
  64 bit amounts are integers with the wrap-around \<open>wrap64\<close> written out.  Exceptions and failed assertions are the left values of
  the sum \<open>'a res\<close>; an output argument is returned beside the result; an overloaded function has a
  name per overload.  OpenSSL is outside the sources: its digests, curve and big number routines are records of functions
  that the definitions take as arguments, and what the theorems need of them are the hypotheses
  \<open>mpi_laws\<close>, \<open>mod_exp_law\<close>, \<open>mod_inverse_law\<close>, \<open>digest_laws\<close>, \<open>curve_laws\<close> and \<open>point_laws\<close>, each met by
  a concrete instance in the witnesses.  Locks, logging and printing are left out: an operation is atomic.

  \<^bold>\<open>Theories.\<close>
  \<^item> \<open>Prelude\<close>: machine types, exceptions, little-endian images, generic lemmas.
  \<^item> \<open>BigNum\<close> (\<^verbatim>\<open>bignum.h\<close>): \<^verbatim>\<open>CBigNum\<close> is an integer; the byte level conversions compute it.
  \<^item> \<open>Target\<close> (\<^verbatim>\<open>prime.cpp\<close>, \<^verbatim>\<open>main.cpp\<close>): target arithmetic, retargeting, mint, block work, version majority: bounds,
    monotonicity, round trips, and the division by zero of \<^verbatim>\<open>TargetGetNext\<close>.
  \<^item> \<open>PrimeTable\<close>, \<open>Orders\<close>, \<open>PrimeChain\<close> (\<^verbatim>\<open>prime.cpp\<close>): the table holds the primes; the chain test, a loop without bound,
    returns, and measures the chain; an accepted certificate is a chain of the claimed length.
  \<^item> \<open>MiningSieve\<close> (\<^verbatim>\<open>prime.h\<close>, \<^verbatim>\<open>prime.cpp\<close>): weaving leaves the multipliers without small factors.
  \<^item> \<open>Serialize\<close> (\<^verbatim>\<open>serialize.h\<close>): stream formats; the locale \<open>codec\<close> is the contract of a serializable class.
  \<^item> \<open>Transaction\<close> (\<^verbatim>\<open>main.h\<close>, \<^verbatim>\<open>main.cpp\<close>): transactions, their format and their context-free checks.
  \<^item> \<open>Key\<close> (\<^verbatim>\<open>key.cpp\<close>, \<^verbatim>\<open>keystore.cpp\<close>, \<^verbatim>\<open>hash.h\<close>): keys, and the key store with the locale \<open>key_store\<close>.
  \<^item> \<open>Util\<close>, \<open>ScriptCore\<close>, \<open>ScriptSig\<close>, \<open>ScriptEval\<close> (\<^verbatim>\<open>script.h\<close>, \<^verbatim>\<open>script.cpp\<close>): the script as data, the signature hash and
    cache, and every opcode of the interpreter, which refines the big step specification \<open>spends\<close>.
  \<^item> \<open>Solver\<close> (\<^verbatim>\<open>script.cpp\<close>): standard outputs and signing: what is signed verifies.
  \<^item> \<open>Compress\<close> (\<^verbatim>\<open>main.cpp\<close>, \<^verbatim>\<open>script.cpp\<close>): compact outputs and undo records; the locale \<open>codec_res\<close> is the contract of a
    serializer that can fail.
  \<^item> \<open>Coins\<close> (\<^verbatim>\<open>main.h\<close>, \<^verbatim>\<open>main.cpp\<close>, \<^verbatim>\<open>txdb.cpp\<close>): coins and the views on them; the locale \<open>coins_store\<close>
    is what a client of a view relies on, and a stack of views refines one map.

  \<^bold>\<open>Bounds.\<close>  No definition uses fuel.  Loops whose end depends on the input are structural or have a
  termination proof; the chain test, which need not end for arbitrary numbers, is a
  \<open>partial_function\<close>, and that it returns is a theorem.

  \<^bold>\<open>Not modelled.\<close>  The wallet, the network layer, the peer database and the user interface are built around sockets,
  threads, clocks and Berkeley DB.  The storage engines are third-party code.  Of the
  modelled files, floating point display values, printing and the timed mining loop are left out.
\<close>

end
